(* ===== verification/Prelude.thy ===== *)
theory Prelude
  imports Main "HOL-Library.Word"
begin

text \<open>
  Shared vocabulary of the development: machine words and byte strings, the result type of
  fallible Rust code (a value, an error or a panic), checked slice access, big-endian
  integers, and the interfaces (locales) that several components implement.  The lemmas
  collected in \<open>rust_simps\<close> rewrite the slice and integer operations; the components'
  proofs are carried by them.
\<close>

unbundle bit_operations_syntax

named_theorems rust_simps \<open>rewriting of slice access, results and big-endian integers\<close>

section \<open>Types\<close>

type_synonym byte = "8 word"
type_synonym u16 = "16 word"
type_synonym u32 = "32 word"
type_synonym u64 = "64 word"
type_synonym bytes = "byte list"

text \<open>
  A Rust \<open>usize\<close> is a \<open>nat\<close>.  Where the source writes \<open>checked_add\<close> the bound of the
  64-bit targets is written out; elsewhere the operands are lengths of buffers in memory.
\<close>

abbreviation (input) usize_bound :: nat where
  "usize_bound \<equiv> 2 ^ 64"

definition checked_add :: "nat \<Rightarrow> nat \<Rightarrow> nat option" where
  "checked_add a b = (if a + b < usize_bound then Some (a + b) else None)"

definition saturating_add :: "nat \<Rightarrow> nat \<Rightarrow> nat" where
  "saturating_add a b = min (a + b) (usize_bound - 1)"

text \<open>\<open>Result\<close> with the panics of the source as a third outcome.\<close>

datatype ('a, 'e) res = Ok 'a | Err 'e | Panic

fun rbind :: "('a, 'e) res \<Rightarrow> ('a \<Rightarrow> ('b, 'e) res) \<Rightarrow> ('b, 'e) res" where
  "rbind (Ok x) f = f x"
| "rbind (Err e) f = Err e"
| "rbind Panic f = Panic"

fun map_err :: "('e \<Rightarrow> 'f) \<Rightarrow> ('a, 'e) res \<Rightarrow> ('a, 'f) res" where
  "map_err g (Ok x) = Ok x"
| "map_err g (Err e) = Err (g e)"
| "map_err g Panic = Panic"

fun ok_or :: "'e \<Rightarrow> 'a option \<Rightarrow> ('a, 'e) res" where
  "ok_or e (Some x) = Ok x"
| "ok_or e None = Err e"

lemma rbind_eq_Ok: "rbind m f = Ok y \<longleftrightarrow> (\<exists>x. m = Ok x \<and> f x = Ok y)"
  by (cases m) auto

lemma rbind_cong:
  "m = m' \<Longrightarrow> (\<And>x. m' = Ok x \<Longrightarrow> f x = f' x) \<Longrightarrow> rbind m f = rbind m' f'"
  by (cases m') auto

lemma rbind_eq_Panic: "rbind m f = Panic \<longleftrightarrow> m = Panic \<or> (\<exists>x. m = Ok x \<and> f x = Panic)"
  by (cases m) auto

lemma map_err_eq_Ok [simp]: "map_err g m = Ok y \<longleftrightarrow> m = Ok y"
  by (cases m) auto

lemma map_err_eq_Panic [simp]: "map_err g m = Panic \<longleftrightarrow> m = Panic"
  by (cases m) auto

section \<open>Slices\<close>

text \<open>\<open>slice.get(i)\<close> and \<open>slice.get(a..b)\<close>.\<close>

definition get_at :: "'a list \<Rightarrow> nat \<Rightarrow> 'a option" where
  "get_at xs i = (if i < length xs then Some (xs ! i) else None)"

definition get_range :: "'a list \<Rightarrow> nat \<Rightarrow> nat \<Rightarrow> 'a list option" where
  "get_range xs a b = (if a \<le> b \<and> b \<le> length xs then Some (take (b - a) (drop a xs)) else None)"

text \<open>\<open>&xs[a..b]\<close>, which the source only writes where it is in range.\<close>

definition sub :: "'a list \<Rightarrow> nat \<Rightarrow> nat \<Rightarrow> 'a list" where
  "sub xs a b = take (b - a) (drop a xs)"

text \<open>\<open>xs[i]\<close>, \<open>xs[i] = v\<close> and \<open>&xs[a..b]\<close>, which panic out of range.\<close>

definition idx :: "'a list \<Rightarrow> nat \<Rightarrow> ('a, 'e) res" where
  "idx xs i = (if i < length xs then Ok (xs ! i) else Panic)"

definition upd :: "'a list \<Rightarrow> nat \<Rightarrow> 'a \<Rightarrow> ('a list, 'e) res" where
  "upd xs i v = (if i < length xs then Ok (xs[i := v]) else Panic)"

definition idx_range :: "'a list \<Rightarrow> nat \<Rightarrow> nat \<Rightarrow> ('a list, 'e) res" where
  "idx_range xs a b = (if a \<le> b \<and> b \<le> length xs then Ok (sub xs a b) else Panic)"

lemma idx_Ok [simp]: "i < length xs \<Longrightarrow> idx xs i = Ok (xs ! i)"
  by (simp add: idx_def)

lemma upd_Ok [simp]: "i < length xs \<Longrightarrow> upd xs i v = Ok (xs[i := v])"
  by (simp add: upd_def)

lemma idx_range_Ok [simp]: "a \<le> b \<Longrightarrow> b \<le> length xs \<Longrightarrow> idx_range xs a b = Ok (sub xs a b)"
  by (simp add: idx_range_def)

lemma get_at_Some [rust_simps]: "get_at xs i = Some x \<longleftrightarrow> i < length xs \<and> xs ! i = x"
  by (simp add: get_at_def)

lemma get_at_None [rust_simps]: "get_at xs i = None \<longleftrightarrow> length xs \<le> i"
  by (simp add: get_at_def not_less)

lemma get_at_Cons_0 [simp]: "get_at (x # xs) 0 = Some x"
  by (simp add: get_at_def)

lemma get_at_Cons_Suc [simp]: "get_at (x # xs) (Suc i) = get_at xs i"
  by (simp add: get_at_def)

lemma get_at_Nil [simp]: "get_at [] i = None"
  by (simp add: get_at_def)

lemma get_at_append: "get_at (xs @ ys) i =
    (if i < length xs then get_at xs i else get_at ys (i - length xs))"
  by (auto simp: get_at_def nth_append)

lemma get_at_append_shift [simp]: "get_at (xs @ ys) (length xs + i) = get_at ys i"
  by (simp add: get_at_append)

lemma get_at_append_len [simp]: "get_at (xs @ ys) (length xs) = get_at ys 0"
  by (simp add: get_at_append)

lemma get_range_Some [rust_simps]:
  "get_range xs a b = Some ys \<longleftrightarrow> a \<le> b \<and> b \<le> length xs \<and> ys = sub xs a b"
  by (auto simp: get_range_def sub_def)

lemma get_range_None [rust_simps]: "get_range xs a b = None \<longleftrightarrow> b < a \<or> length xs < b"
  by (auto simp: get_range_def)

lemma length_sub [simp]: "b \<le> length xs \<Longrightarrow> length (sub xs a b) = b - a"
  by (simp add: sub_def)

lemma sub_two: "i + 1 < length xs \<Longrightarrow> sub xs i (i + 2) = [xs ! i, xs ! (i + 1)]"
  by (simp add: sub_def list_eq_iff_nth_eq less_Suc_eq numeral_2_eq_2)

lemma sub_append_mid [simp]:
  "sub (xs @ ys @ zs) (length xs) (length xs + length ys) = ys"
  by (simp add: sub_def)

lemma get_range_append_mid [simp]:
  "get_range (xs @ ys @ zs) (length xs) (length xs + length ys) = Some ys"
  by (simp add: get_range_Some)

lemma get_range_append_end [simp]:
  "get_range (xs @ ys) (length xs) (length xs + length ys) = Some ys"
  using get_range_append_mid [of xs ys "[]"] by simp

lemma checked_add_Some [rust_simps]:
  "checked_add a b = Some c \<longleftrightarrow> a + b < usize_bound \<and> c = a + b"
  by (auto simp: checked_add_def)

lemma checked_add_None [rust_simps]: "checked_add a b = None \<longleftrightarrow> usize_bound \<le> a + b"
  by (auto simp: checked_add_def not_less)

section \<open>Big-endian integers\<close>

text \<open>
  \<open>be_nat\<close> reads bytes in network order; \<open>to_be n x\<close> is the \<open>n\<close> low bytes of \<open>x\<close> in
  network order.  \<open>uN::from_be_bytes\<close> is \<open>of_nat (be_nat bs)\<close> and \<open>to_be_bytes\<close> of an
  \<open>8 * n\<close>-bit word is \<open>to_be n (unat w)\<close>.
\<close>

fun be_nat_acc :: "nat \<Rightarrow> bytes \<Rightarrow> nat" where
  "be_nat_acc acc [] = acc"
| "be_nat_acc acc (b # bs) = be_nat_acc (acc * 256 + unat b) bs"

definition be_nat :: "bytes \<Rightarrow> nat" where
  "be_nat bs = be_nat_acc 0 bs"

fun to_be :: "nat \<Rightarrow> nat \<Rightarrow> bytes" where
  "to_be 0 x = []"
| "to_be (Suc n) x = to_be n (x div 256) @ [word_of_nat (x mod 256)]"

lemma be_nat_acc_append [simp]: "be_nat_acc a (xs @ ys) = be_nat_acc (be_nat_acc a xs) ys"
  by (induction xs arbitrary: a) auto

lemma be_nat_Nil [simp]: "be_nat [] = 0"
  by (simp add: be_nat_def)

lemma be_nat_snoc [simp]: "be_nat (bs @ [b]) = be_nat bs * 256 + unat b"
  by (simp add: be_nat_def)

lemma be_nat_1 [simp]: "be_nat [a] = unat a"
  by (simp add: be_nat_def)

lemma be_nat_2 [simp]: "be_nat [a, b] = unat a * 256 + unat b"
  by (simp add: be_nat_def)

lemma unat_byte_less [simp]: "unat (b :: byte) < 256"
  using unsigned_less [of b, where 'a = nat] by simp

lemma unat_byte_mod [simp]: "unat (word_of_nat (x mod 256) :: byte) = x mod 256"
  by (simp add: unat_of_nat)

lemma unat_word_of_nat_small:
  "n < 2 ^ LENGTH('a::len) \<Longrightarrow> unat (word_of_nat n :: 'a word) = n"
  by (simp add: unsigned_of_nat take_bit_nat_eq_self)

lemma unat_and_low: "unat ((w :: 'a::len word) AND mask k) = unat w mod 2 ^ k"
  by (metis take_bit_eq_mask take_bit_eq_mod unsigned_take_bit_eq)

lemma word_of_nat_and_low: "word_of_nat x AND mask k = (word_of_nat (x mod 2 ^ k) :: 'a::len word)"
  by (metis take_bit_eq_mask take_bit_eq_mod take_bit_of_nat)

lemma unat_high: "unat (drop_bit k (w :: 'a::len word)) = unat w div 2 ^ k"
  unfolding unat_drop_bit_eq by (simp add: drop_bit_eq_div)

lemma length_to_be [simp]: "length (to_be n x) = n"
  by (induction n arbitrary: x) auto

lemma be_nat_to_be [rust_simps]: "be_nat (to_be n x) = x mod 256 ^ n"
proof (induction n arbitrary: x)
  case 0
  then show ?case by simp
next
  case (Suc n)
  have "x mod 256 ^ Suc n = x div 256 mod 256 ^ n * 256 + x mod 256"
    by (metis add.commute mod_mult2_eq mult.commute power_Suc)
  with Suc show ?case by simp
qed

lemma be_nat_less: "be_nat bs < 256 ^ length bs"
proof (induction bs rule: rev_induct)
  case Nil
  then show ?case by simp
next
  case (snoc b bs)
  have "be_nat bs * 256 + unat b < (be_nat bs + 1) * 256"
    using unat_byte_less [of b] by simp
  also have "\<dots> \<le> 256 ^ length bs * 256"
    using snoc by (intro mult_right_mono) auto
  finally show ?case by simp
qed

lemma to_be_be_nat: "length bs = n \<Longrightarrow> to_be n (be_nat bs) = bs"
proof (induction bs arbitrary: n rule: rev_induct)
  case Nil
  then show ?case by simp
next
  case (snoc b bs)
  then show ?case
    using unat_byte_less [of b] by (auto simp del: unat_byte_less)
qed

definition from_be16 :: "byte \<Rightarrow> byte \<Rightarrow> u16" where
  "from_be16 a b = word_of_nat (be_nat [a, b])"

definition from_be32 :: "byte \<Rightarrow> byte \<Rightarrow> byte \<Rightarrow> byte \<Rightarrow> u32" where
  "from_be32 a b c d = word_of_nat (be_nat [a, b, c, d])"

definition be_bytes16 :: "u16 \<Rightarrow> bytes" where
  "be_bytes16 w = to_be 2 (unat w)"

lemma unat_from_be16 [simp]: "unat (from_be16 a b) = unat a * 256 + unat b"
proof -
  have "be_nat [a, b] < 2 ^ 16"
    using be_nat_less [of "[a, b]"] by simp
  then have "unat (from_be16 a b) = be_nat [a, b]"
    unfolding from_be16_def by (intro unat_word_of_nat_small) simp
  then show ?thesis by simp
qed

lemma length_be_bytes16 [simp]: "length (be_bytes16 w) = 2"
  by (simp add: be_bytes16_def)

lemma be_nat_be_bytes16 [simp]: "be_nat (be_bytes16 w) = unat w"
  using unsigned_less [of w, where 'a = nat] by (simp add: be_bytes16_def be_nat_to_be)

lemma be_bytes16_cases: obtains a b where "be_bytes16 w = [a, b]" "from_be16 a b = w"
proof -
  obtain a b where ab: "be_bytes16 w = [a, b]"
    by (simp add: be_bytes16_def numeral_2_eq_2)
  have "unat (from_be16 a b) = unat w"
    using be_nat_be_bytes16 [of w] by (simp add: ab)
  then have "from_be16 a b = w" by (simp add: word_unat_eq_iff)
  with ab that show thesis by blast
qed

section \<open>Interfaces\<close>

text \<open>
  A self-delimiting encoding: decoding an encoded value followed by any rest gives back the
  value and the rest.  Implemented by the QUIC variable-length integers and the capsules of
  the MASQUE stream.
\<close>

locale prefix_codec =
  fixes enc :: "'a \<Rightarrow> bytes"
    and dec :: "bytes \<Rightarrow> ('a \<times> bytes) option"
    and valid :: "'a \<Rightarrow> bool"
  assumes dec_enc: "valid x \<Longrightarrow> dec (enc x @ rest) = Some (x, rest)"
begin

lemma enc_inj: "valid x \<Longrightarrow> valid y \<Longrightarrow> enc x @ r = enc y @ s \<Longrightarrow> x = y \<and> r = s"
  by (metis dec_enc option.inject prod.inject)

fun dec_many :: "nat \<Rightarrow> bytes \<Rightarrow> ('a list \<times> bytes) option" where
  "dec_many 0 bs = Some ([], bs)"
| "dec_many (Suc n) bs =
     (case dec bs of None \<Rightarrow> None
      | Some (x, r) \<Rightarrow> (case dec_many n r of None \<Rightarrow> None | Some (xs, r') \<Rightarrow> Some (x # xs, r')))"

lemma dec_many_concat:
  "\<forall>x\<in>set xs. valid x \<Longrightarrow> dec_many (length xs) (concat (map enc xs) @ rest) = Some (xs, rest)"
  by (induction xs) (simp_all add: dec_enc)

end

text \<open>
  A state machine with an invariant: every state it reaches satisfies the invariant.
\<close>

locale invariant_machine =
  fixes start :: "'s"
    and run_step :: "'e \<Rightarrow> 's \<Rightarrow> 's"
    and inv :: "'s \<Rightarrow> bool"
  assumes start_inv: "inv start"
    and step_inv: "inv s \<Longrightarrow> inv (run_step e s)"
begin

lemma run_inv_from: "inv s \<Longrightarrow> inv (fold run_step es s)"
  by (induction es arbitrary: s) (auto intro: step_inv)

lemma run_inv: "inv (fold run_step es start)"
  by (rule run_inv_from) (rule start_inv)

end

end
