(* ===== verification/Octets.thy ===== *)
theory Octets
  imports Prelude
begin

text \<open>
  The byte cursor of \<^verbatim>\<open>quiche/octets/src/lib.rs\<close>, which the MASQUE encoders and decoders are
  written on: \<open>Octets\<close> (a slice and an offset), \<open>OctetsMut\<close> (the same over a mutable
  slice) and the QUIC variable-length integers.  Every operation that fails leaves the
  cursor where it was, so the model returns the new cursor only with a value.
\<close>

section \<open>State and errors\<close>

record octets =
  o_buf :: bytes
  o_off :: nat

datatype oct_error = BufferTooShortError

type_synonym 'a oresult = "('a, oct_error) res"

definition MAX_VAR_INT :: u64 where
  "MAX_VAR_INT = 4611686018427387903"

definition wf_octets :: "octets \<Rightarrow> bool" where
  "wf_octets b \<longleftrightarrow> o_off b \<le> length (o_buf b)"

section \<open>Reading\<close>

definition with_slice :: "bytes \<Rightarrow> octets" where
  "with_slice bs = \<lparr>o_buf = bs, o_off = 0\<rparr>"

definition o_cap :: "octets \<Rightarrow> nat" where
  "o_cap b = length (o_buf b) - o_off b"

definition as_ref :: "octets \<Rightarrow> bytes" where
  "as_ref b = drop (o_off b) (o_buf b)"

text \<open>The macros \<open>peek_u!\<close> and \<open>get_u!\<close>: \<open>&buf[off..]\<close> panics past the end.\<close>

definition peek_u :: "nat \<Rightarrow> octets \<Rightarrow> nat oresult" where
  "peek_u n b =
     (if length (o_buf b) < o_off b then Panic
      else let src = drop (o_off b) (o_buf b)
           in if length src < n then Err BufferTooShortError
              else Ok (be_nat (take n src)))"

definition get_u :: "nat \<Rightarrow> octets \<Rightarrow> (nat \<times> octets) oresult" where
  "get_u n b = rbind (peek_u n b) (\<lambda>v. Ok (v, b\<lparr>o_off := o_off b + n\<rparr>))"

definition get_u8 :: "octets \<Rightarrow> (byte \<times> octets) oresult" where
  "get_u8 b = rbind (get_u 1 b) (\<lambda>(v, b'). Ok (word_of_nat v, b'))"

definition peek_u8 :: "octets \<Rightarrow> byte oresult" where
  "peek_u8 b = rbind (peek_u 1 b) (\<lambda>v. Ok (word_of_nat v))"

definition get_u16 :: "octets \<Rightarrow> (u16 \<times> octets) oresult" where
  "get_u16 b = rbind (get_u 2 b) (\<lambda>(v, b'). Ok (word_of_nat v, b'))"

definition get_u24 :: "octets \<Rightarrow> (u32 \<times> octets) oresult" where
  "get_u24 b = rbind (get_u 3 b) (\<lambda>(v, b'). Ok (word_of_nat v, b'))"

definition get_u32 :: "octets \<Rightarrow> (u32 \<times> octets) oresult" where
  "get_u32 b = rbind (get_u 4 b) (\<lambda>(v, b'). Ok (word_of_nat v, b'))"

definition get_u64 :: "octets \<Rightarrow> (u64 \<times> octets) oresult" where
  "get_u64 b = rbind (get_u 8 b) (\<lambda>(v, b'). Ok (word_of_nat v, b'))"

text \<open>The length of a variable-length integer from its first byte; the last arm is the
  \<open>unreachable!()\<close> of the source.\<close>

definition varint_parse_len :: "byte \<Rightarrow> nat oresult" where
  "varint_parse_len first =
     (let tag = drop_bit 6 first
      in if tag = 0 then Ok 1 else if tag = 1 then Ok 2
         else if tag = 2 then Ok 4 else if tag = 3 then Ok 8 else Panic)"

definition get_varint :: "octets \<Rightarrow> (u64 \<times> octets) oresult" where
  "get_varint b =
     rbind (peek_u8 b) (\<lambda>first.
     rbind (varint_parse_len first) (\<lambda>len.
       if len > o_cap b then Err BufferTooShortError
       else if len = 1 then rbind (get_u8 b) (\<lambda>(v, b'). Ok (ucast v, b'))
       else if len = 2 then rbind (get_u16 b) (\<lambda>(v, b'). Ok (ucast (v AND 0x3fff), b'))
       else if len = 4 then rbind (get_u32 b) (\<lambda>(v, b'). Ok (ucast (v AND 0x3fffffff), b'))
       else if len = 8 then rbind (get_u64 b) (\<lambda>(v, b'). Ok (v AND 0x3fffffffffffffff, b'))
       else Panic))"

definition get_bytes :: "nat \<Rightarrow> octets \<Rightarrow> (octets \<times> octets) oresult" where
  "get_bytes len b =
     (if o_cap b < len then Err BufferTooShortError
      else Ok (\<lparr>o_buf = sub (o_buf b) (o_off b) (o_off b + len), o_off = 0\<rparr>,
               b\<lparr>o_off := o_off b + len\<rparr>))"

definition get_bytes_with_u8_length :: "octets \<Rightarrow> (octets \<times> octets) oresult" where
  "get_bytes_with_u8_length b = rbind (get_u8 b) (\<lambda>(len, b'). get_bytes (unat len) b')"

definition get_bytes_with_u16_length :: "octets \<Rightarrow> (octets \<times> octets) oresult" where
  "get_bytes_with_u16_length b = rbind (get_u16 b) (\<lambda>(len, b'). get_bytes (unat len) b')"

definition get_bytes_with_varint_length :: "octets \<Rightarrow> (octets \<times> octets) oresult" where
  "get_bytes_with_varint_length b = rbind (get_varint b) (\<lambda>(len, b'). get_bytes (unat len) b')"

definition peek_bytes :: "nat \<Rightarrow> octets \<Rightarrow> octets oresult" where
  "peek_bytes len b =
     (if o_cap b < len then Err BufferTooShortError
      else Ok \<lparr>o_buf = sub (o_buf b) (o_off b) (o_off b + len), o_off = 0\<rparr>)"

definition o_rewind :: "nat \<Rightarrow> octets \<Rightarrow> octets oresult" where
  "o_rewind len b =
     (if o_off b < len then Err BufferTooShortError else Ok (b\<lparr>o_off := o_off b - len\<rparr>))"

definition o_slice :: "nat \<Rightarrow> octets \<Rightarrow> bytes oresult" where
  "o_slice len b =
     (if len > o_cap b then Err BufferTooShortError
      else Ok (sub (o_buf b) (o_off b) (o_off b + len)))"

definition slice_last :: "nat \<Rightarrow> octets \<Rightarrow> bytes oresult" where
  "slice_last len b =
     (if len > o_cap b then Err BufferTooShortError
      else let end = length (o_buf b) in Ok (sub (o_buf b) (end - len) end))"

definition o_skip :: "nat \<Rightarrow> octets \<Rightarrow> octets oresult" where
  "o_skip n b =
     (if n > o_cap b then Err BufferTooShortError else Ok (b\<lparr>o_off := o_off b + n\<rparr>))"

section \<open>Writing\<close>

text \<open>The macro \<open>put_u!\<close>: the low \<open>n\<close> bytes of the value in network order.\<close>

definition put_u :: "nat \<Rightarrow> nat \<Rightarrow> octets \<Rightarrow> octets oresult" where
  "put_u n v b =
     (if length (o_buf b) < o_off b + n then Err BufferTooShortError
      else Ok \<lparr>o_buf = take (o_off b) (o_buf b) @ to_be n v @ drop (o_off b + n) (o_buf b),
               o_off = o_off b + n\<rparr>)"

definition put_u8 :: "byte \<Rightarrow> octets \<Rightarrow> octets oresult" where
  "put_u8 v = put_u 1 (unat v)"

definition put_u16 :: "u16 \<Rightarrow> octets \<Rightarrow> octets oresult" where
  "put_u16 v = put_u 2 (unat v)"

definition put_u24 :: "u32 \<Rightarrow> octets \<Rightarrow> octets oresult" where
  "put_u24 v = put_u 3 (unat v)"

definition put_u32 :: "u32 \<Rightarrow> octets \<Rightarrow> octets oresult" where
  "put_u32 v = put_u 4 (unat v)"

definition put_u64 :: "u64 \<Rightarrow> octets \<Rightarrow> octets oresult" where
  "put_u64 v = put_u 8 (unat v)"

text \<open>\<open>buf[0] |= tag\<close> on the slice a \<open>put\<close> returned, which starts at offset \<open>at\<close>.\<close>

definition or_first :: "nat \<Rightarrow> byte \<Rightarrow> octets \<Rightarrow> octets" where
  "or_first at tag b = b\<lparr>o_buf := (o_buf b)[at := (o_buf b ! at) OR tag]\<rparr>"

definition varint_len :: "u64 \<Rightarrow> nat oresult" where
  "varint_len v =
     (if v \<le> 63 then Ok 1 else if v \<le> 16383 then Ok 2
      else if v \<le> 1073741823 then Ok 4 else if v \<le> MAX_VAR_INT then Ok 8 else Panic)"

definition put_varint_with_len :: "u64 \<Rightarrow> nat \<Rightarrow> octets \<Rightarrow> octets oresult" where
  "put_varint_with_len v len b =
     (if o_cap b < len then Err BufferTooShortError
      else if len = 1 then put_u8 (ucast v) b
      else if len = 2 then rbind (put_u16 (ucast v) b) (\<lambda>b'. Ok (or_first (o_off b) 0x40 b'))
      else if len = 4 then rbind (put_u32 (ucast v) b) (\<lambda>b'. Ok (or_first (o_off b) 0x80 b'))
      else if len = 8 then rbind (put_u64 v b) (\<lambda>b'. Ok (or_first (o_off b) 0xc0 b'))
      else Panic)"

definition put_varint :: "u64 \<Rightarrow> octets \<Rightarrow> octets oresult" where
  "put_varint v b = rbind (varint_len v) (\<lambda>len. put_varint_with_len v len b)"

definition put_bytes :: "bytes \<Rightarrow> octets \<Rightarrow> octets oresult" where
  "put_bytes v b =
     (let len = length v
      in if o_cap b < len then Err BufferTooShortError
         else if len = 0 then Ok b
         else Ok \<lparr>o_buf = take (o_off b) (o_buf b) @ v @ drop (o_off b + len) (o_buf b),
                  o_off = o_off b + len\<rparr>)"

definition o_split_at :: "nat \<Rightarrow> octets \<Rightarrow> (octets \<times> octets) oresult" where
  "o_split_at at b =
     (if length (o_buf b) < at then Err BufferTooShortError
      else Ok (\<lparr>o_buf = take at (o_buf b), o_off = 0\<rparr>, \<lparr>o_buf = drop at (o_buf b), o_off = 0\<rparr>))"

lemmas octets_defs =
  get_u8_def peek_u8_def get_u16_def get_u24_def get_u32_def get_u64_def get_bytes_def
  peek_bytes_def o_rewind_def o_slice_def slice_last_def o_skip_def put_u8_def put_u16_def
  put_u24_def put_u32_def put_u64_def o_split_at_def with_slice_def

section \<open>The cursor stays inside its buffer\<close>

lemma wf_with_slice [simp]: "wf_octets (with_slice bs)"
  by (simp add: wf_octets_def with_slice_def)

lemma get_u_Ok: "get_u n b = Ok (v, b') \<longleftrightarrow>
    wf_octets b \<and> o_off b + n \<le> length (o_buf b) \<and>
    v = be_nat (take n (drop (o_off b) (o_buf b))) \<and> b' = b\<lparr>o_off := o_off b + n\<rparr>"
  by (auto simp: get_u_def peek_u_def wf_octets_def rbind_eq_Ok Let_def split: if_splits)

lemma get_u_wf: "wf_octets b \<Longrightarrow> get_u n b =
    (if o_cap b < n then Err BufferTooShortError
     else Ok (be_nat (take n (drop (o_off b) (o_buf b))), b\<lparr>o_off := o_off b + n\<rparr>))"
  by (auto simp: get_u_def peek_u_def wf_octets_def o_cap_def Let_def)

lemma varint_parse_len_Ok: "\<exists>n \<in> {1, 2, 4, 8}. varint_parse_len first = Ok n"
proof -
  have "unat (drop_bit 6 first) = unat first div 64"
    unfolding unat_drop_bit_eq by (simp add: drop_bit_eq_div)
  then have "unat (drop_bit 6 first) < 4"
    using unat_byte_less [of first] by (simp del: unat_byte_less)
  then have "drop_bit 6 first \<in> {0, 1, 2, 3}"
    by (simp add: word_unat_eq_iff) linarith
  then show ?thesis by (auto simp: varint_parse_len_def)
qed

lemma get_varint_Ok_wf: "get_varint b = Ok (v, b') \<Longrightarrow>
    \<exists>n \<in> {1, 2, 4, 8}. b' = b\<lparr>o_off := o_off b + n\<rparr> \<and> o_off b + n \<le> length (o_buf b)"
  by (auto simp: get_varint_def rbind_eq_Ok octets_defs get_u_Ok split: if_splits prod.splits)


lemma get_varint_not_Panic:
  assumes "wf_octets b"
  shows "get_varint b \<noteq> Panic"
proof (cases "peek_u8 b")
  case (Ok first)
  from varint_parse_len_Ok [of first] obtain n
    where "varint_parse_len first = Ok n" "n \<in> {1, 2, 4, 8}" by blast
  with Ok assms show ?thesis
    by (auto simp: get_varint_def octets_defs get_u_wf)
next
  case Panic
  with assms show ?thesis
    by (auto simp: peek_u8_def peek_u_def wf_octets_def Let_def split: if_splits)
qed (simp add: get_varint_def)

section \<open>Variable-length integers\<close>

text \<open>The reference encoding (RFC 9000, section 16): the value in 1, 2, 4 or 8 bytes, the two
  top bits of the first byte telling the length.\<close>

definition varint_bytes :: "nat \<Rightarrow> bytes" where
  "varint_bytes v =
     (if v < 2 ^ 6 then to_be 1 v
      else if v < 2 ^ 14 then to_be 2 (v + 2 ^ 14)
      else if v < 2 ^ 30 then to_be 4 (v + 2 * 2 ^ 30)
      else to_be 8 (v + 3 * 2 ^ 62))"

lemma to_be_Cons: "to_be (Suc n) x = word_of_nat (x div 256 ^ n mod 256) # to_be n x"
proof (induction n arbitrary: x)
  case 0
  then show ?case by simp
next
  case (Suc n)
  have "to_be (Suc (Suc n)) x = to_be (Suc n) (x div 256) @ [word_of_nat (x mod 256)]"
    by simp
  also have "\<dots> = word_of_nat (x div 256 div 256 ^ n mod 256) # to_be (Suc n) x"
    by (subst Suc.IH) simp
  finally show ?case by (simp only: div_mult2_eq [symmetric] power_Suc)
qed

lemma to_be_mod: "to_be n (x mod 256 ^ n) = to_be n x"
  by (metis be_nat_to_be length_to_be to_be_be_nat)

lemma to_be_tag: "to_be (Suc n) (x + t * 256 ^ n) =
    word_of_nat ((x div 256 ^ n + t) mod 256) # to_be n x"
proof -
  have "to_be n (x + t * 256 ^ n) = to_be n x"
    by (metis mod_mult_self1 to_be_mod)
  moreover have "(x + t * 256 ^ n) div 256 ^ n = x div 256 ^ n + t"
    by simp
  ultimately show ?thesis by (simp only: to_be_Cons)
qed

lemma byte_or_tag:
  fixes t :: byte
  assumes "x < 64" and "t = push_bit 6 s"
  shows "word_of_nat x OR t = word_of_nat x + t"
proof -
  have "take_bit 6 (word_of_nat x :: byte) = word_of_nat x"
    using assms(1) by (simp add: take_bit_of_nat take_bit_nat_eq_self)
  then have "\<not> bit (word_of_nat x :: byte) n" if "6 \<le> n" for n
    using that by (metis bit_take_bit_iff not_le)
  then have "(word_of_nat x :: byte) AND t = 0"
    unfolding assms(2) by (intro bit_eqI) (auto simp: bit_simps not_le)
  then show ?thesis by (simp add: disjunctive_add_eq_or)
qed


text \<open>A cursor by what it has passed and what is left.\<close>

definition cursor :: "bytes \<Rightarrow> bytes \<Rightarrow> octets" where
  "cursor passed left = \<lparr>o_buf = passed @ left, o_off = length passed\<rparr>"

named_theorems cursor_simps

lemma with_slice_cursor: "with_slice bs = cursor [] bs"
  by (simp add: with_slice_def cursor_def)

lemma wf_cursor [simp]: "wf_octets (cursor p l)"
  by (simp add: wf_octets_def cursor_def)

lemma wf_octets_cursor: "wf_octets b \<Longrightarrow> b = cursor (take (o_off b) (o_buf b)) (as_ref b)"
  by (simp add: cursor_def wf_octets_def as_ref_def)

lemma o_cap_cursor [cursor_simps]: "o_cap (cursor p l) = length l"
  by (simp add: o_cap_def cursor_def)

lemma o_off_cursor [cursor_simps]: "o_off (cursor p l) = length p"
  by (simp add: cursor_def)

lemma o_buf_cursor [cursor_simps]: "o_buf (cursor p l) = p @ l"
  by (simp add: cursor_def)

lemma as_ref_cursor [cursor_simps]: "as_ref (cursor p l) = l"
  by (simp add: as_ref_def cursor_def)

lemma peek_u_cursor [cursor_simps]:
  "peek_u n (cursor p l) =
     (if length l < n then Err BufferTooShortError else Ok (be_nat (take n l)))"
  by (simp add: peek_u_def cursor_def)

lemma get_u_cursor [cursor_simps]:
  "get_u n (cursor p l) =
     (if length l < n then Err BufferTooShortError
      else Ok (be_nat (take n l), cursor (p @ take n l) (drop n l)))"
  by (simp add: get_u_def peek_u_cursor) (simp add: cursor_def)

lemma get_bytes_cursor [cursor_simps]:
  "get_bytes n (cursor p l) =
     (if length l < n then Err BufferTooShortError
      else Ok (with_slice (take n l), cursor (p @ take n l) (drop n l)))"
  by (simp add: get_bytes_def o_cap_cursor) (simp add: cursor_def with_slice_def sub_def)

lemma put_u_cursor [cursor_simps]:
  "put_u n v (cursor p l) =
     (if length l < n then Err BufferTooShortError else Ok (cursor (p @ to_be n v) (drop n l)))"
  by (auto simp: put_u_def cursor_def)

lemma put_bytes_cursor [cursor_simps]:
  "put_bytes v (cursor p l) =
     (if length l < length v then Err BufferTooShortError
      else Ok (cursor (p @ v) (drop (length v) l)))"
  by (auto simp: put_bytes_def o_cap_cursor Let_def) (simp_all add: cursor_def)

lemma or_first_cursor [cursor_simps]:
  "or_first (length p) t (cursor (p @ x # xs) l) = cursor (p @ (x OR t) # xs) l"
  by (simp add: or_first_def cursor_def)

section \<open>Correctness of the variable-length integers\<close>

lemma varint_bytes_tagged:
  "v < 2 ^ 14 \<Longrightarrow> to_be 2 (v + 2 ^ 14) = (hd (to_be 2 v) OR 0x40) # tl (to_be 2 v)"
  "v < 2 ^ 30 \<Longrightarrow> to_be 4 (v + 2 * 2 ^ 30) = (hd (to_be 4 v) OR 0x80) # tl (to_be 4 v)"
  "v < 2 ^ 62 \<Longrightarrow> to_be 8 (v + 3 * 2 ^ 62) = (hd (to_be 8 v) OR 0xc0) # tl (to_be 8 v)"
proof -
  have tag: "to_be N (v + unat t * 256 ^ n) = (hd (to_be N v) OR t) # tl (to_be N v)"
    if "N = Suc n" "v div 256 ^ n < 64" "t = push_bit 6 s" for n N and t s :: byte
  proof -
    have "word_of_nat ((v div 256 ^ n + unat t) mod 256) = (word_of_nat (v div 256 ^ n) :: byte) + t"
      by (simp add: word_unat_eq_iff unsigned_of_nat take_bit_eq_mod unat_word_ariths mod_simps)
    also have "\<dots> = word_of_nat (v div 256 ^ n mod 256) OR t"
      using that by (simp add: byte_or_tag)
    finally show ?thesis unfolding that(1) by (simp only: to_be_tag) (simp only: to_be_Cons list.sel)
  qed
  show "to_be 2 (v + 2 ^ 14) = (hd (to_be 2 v) OR 0x40) # tl (to_be 2 v)" if "v < 2 ^ 14"
    using tag [of 2 1 "0x40" 1] that by simp
  show "to_be 4 (v + 2 * 2 ^ 30) = (hd (to_be 4 v) OR 0x80) # tl (to_be 4 v)" if "v < 2 ^ 30"
    using tag [of 4 3 "0x80" 2] that by simp
  show "to_be 8 (v + 3 * 2 ^ 62) = (hd (to_be 8 v) OR 0xc0) # tl (to_be 8 v)" if "v < 2 ^ 62"
    using tag [of 8 7 "0xc0" 3] that by simp
qed


lemma length_varint_bytes: "length (varint_bytes v) =
    (if v < 2 ^ 6 then 1 else if v < 2 ^ 14 then 2 else if v < 2 ^ 30 then 4 else 8)"
  by (simp add: varint_bytes_def)

lemma varint_len_bytes: "v \<le> MAX_VAR_INT \<Longrightarrow> varint_len v = Ok (length (varint_bytes (unat v)))"
  by (auto simp: varint_len_def length_varint_bytes word_le_nat_alt MAX_VAR_INT_def)

lemma put_tagged_cursor:
  assumes "n \<le> length l" "0 < n" "to_be n y = (hd (to_be n x) OR t) # tl (to_be n x)"
  shows "rbind (put_u n x (cursor p l)) (\<lambda>b'. Ok (or_first (length p) t b')) =
    Ok (cursor (p @ to_be n y) (drop n l))"
proof -
  obtain h ts where ht: "to_be n x = h # ts"
    using assms(2) by (metis length_0_conv length_to_be less_irrefl neq_Nil_conv)
  have "put_u n x (cursor p l) = Ok (cursor (p @ h # ts) (drop n l))"
    using assms(1) by (simp add: put_u_cursor ht)
  then show ?thesis
    using assms(3) by (simp add: or_first_cursor ht)
qed

lemma put_varint_cursor:
  assumes "v \<le> MAX_VAR_INT"
  shows "put_varint v (cursor p l) =
     (let bs = varint_bytes (unat v)
      in if length l < length bs then Err BufferTooShortError
         else Ok (cursor (p @ bs) (drop (length bs) l)))"
proof -
  have small: "unat v < 2 ^ 62"
    using assms by (simp add: word_le_nat_alt MAX_VAR_INT_def)
  have casts: "unat (ucast v :: byte) = unat v mod 2 ^ 8" "unat (ucast v :: u16) = unat v mod 2 ^ 16"
    "unat (ucast v :: u32) = unat v mod 2 ^ 32"
    by (simp_all add: unsigned_ucast_eq take_bit_eq_mod)
  consider "unat v < 2 ^ 6" | "2 ^ 6 \<le> unat v" "unat v < 2 ^ 14"
    | "2 ^ 14 \<le> unat v" "unat v < 2 ^ 30" | "2 ^ 30 \<le> unat v"
    by linarith
  then show ?thesis
  proof cases
    case 1
    then show ?thesis
      by (simp add: put_varint_def varint_len_bytes [OF assms] put_varint_with_len_def
          length_varint_bytes varint_bytes_def o_cap_cursor put_u8_def put_u_cursor casts Let_def
          del: to_be.simps)
  next
    case 2
    then show ?thesis using put_tagged_cursor [OF _ _ varint_bytes_tagged(1) [of "unat v"], of l p]
      by (simp add: put_varint_def varint_len_bytes [OF assms] put_varint_with_len_def
          length_varint_bytes varint_bytes_def o_cap_cursor o_off_cursor put_u16_def casts Let_def)
  next
    case 3
    then show ?thesis using put_tagged_cursor [OF _ _ varint_bytes_tagged(2) [of "unat v"], of l p]
      by (simp add: put_varint_def varint_len_bytes [OF assms] put_varint_with_len_def
          length_varint_bytes varint_bytes_def o_cap_cursor o_off_cursor put_u32_def casts Let_def)
  next
    case 4
    then show ?thesis using put_tagged_cursor [OF _ _ varint_bytes_tagged(3) [of "unat v"], of l p] small
      by (simp add: put_varint_def varint_len_bytes [OF assms] put_varint_with_len_def
          length_varint_bytes varint_bytes_def o_cap_cursor o_off_cursor put_u64_def casts Let_def)
  qed
qed


lemma varint_parse_len_div: "varint_parse_len b = Ok (2 ^ (unat b div 64))"
proof -
  have tag: "unat (drop_bit 6 b) = unat b div 64"
    unfolding unat_drop_bit_eq by (simp add: drop_bit_eq_div)
  have "unat b div 64 < 4"
    using unat_byte_less [of b] by (simp del: unat_byte_less)
  then have "unat b div 64 \<in> {0, 1, 2, 3}" by auto
  then show ?thesis
    by (auto simp: varint_parse_len_def word_unat_eq_iff tag)
qed

lemma ucast_word_of_nat:
  "n < 2 ^ LENGTH('a::len) \<Longrightarrow> ucast (word_of_nat n :: 'a word) = (word_of_nat n :: 'b::len word)"
  by (metis of_nat_unat unat_word_of_nat_small)

lemma ucast_and_low:
  assumes "k \<le> LENGTH('a::len)"
  shows "ucast ((word_of_nat x :: 'a word) AND mask k) = (word_of_nat (x mod 2 ^ k) :: 'b::len word)"
proof -
  have "x mod 2 ^ k < 2 ^ k" by simp
  also have "(2 :: nat) ^ k \<le> 2 ^ LENGTH('a)" using assms by (rule power_increasing) simp
  finally show ?thesis unfolding word_of_nat_and_low by (rule ucast_word_of_nat)
qed

lemma get_varint_read:
  assumes "n = 2 ^ (unat b div 64)"
  shows "get_varint (cursor p (b # bs)) =
     (if Suc (length bs) < n then Err BufferTooShortError
      else Ok (word_of_nat (be_nat (take n (b # bs)) mod 2 ^ (8 * n - 2)),
               cursor (p @ take n (b # bs)) (drop n (b # bs))))"
proof -
  have "unat b div 64 < 4"
    using unat_byte_less [of b] by (simp del: unat_byte_less)
  then have "unat b div 64 \<in> {0, 1, 2, 3}" by auto
  then have n: "n \<in> {1, 2, 4, 8}" using assms by auto
  have peek: "peek_u8 (cursor p (b # bs)) = Ok b"
    by (simp add: peek_u8_def peek_u_cursor)
  have len: "varint_parse_len b = Ok n"
    by (simp add: assms varint_parse_len_div)
  have one: "unat b < 64" if "n = 1"
    using that assms by (simp add: div_eq_0_iff)
  have m: "(0x3fff :: u16) = mask 14" "(0x3fffffff :: u32) = mask 30"
    "(0x3fffffffffffffff :: u64) = mask 62"
    by (simp_all add: mask_eq_exp_minus_1)
  have gu: "get_u n (cursor p (b # bs)) =
      Ok (be_nat (take n (b # bs)), cursor (p @ take n (b # bs)) (drop n (b # bs)))"
    if "\<not> Suc (length bs) < n"
    using that by (simp add: get_u_cursor)
  show ?thesis
  proof (cases "Suc (length bs) < n")
    case True
    with len peek show ?thesis
      by (simp add: get_varint_def o_cap_cursor)
  next
    case False
    note gu' = gu [OF False]
    from n consider "n = 1" | "n = 2" | "n = 4" | "n = 8" by auto
    then show ?thesis
    proof cases
      case 1
      with one have "ucast b = word_of_nat (unat b mod 2 ^ 6)" by simp
      with 1 gu' len peek show ?thesis
        by (simp add: get_varint_def o_cap_cursor get_u8_def)
    next
      case 2
      with False gu' len peek show ?thesis
        by (simp add: get_varint_def o_cap_cursor get_u16_def m ucast_and_low)
    next
      case 3
      with False gu' len peek show ?thesis
        by (simp add: get_varint_def o_cap_cursor get_u32_def m ucast_and_low)
    next
      case 4
      with False gu' len peek show ?thesis
        by (simp add: get_varint_def o_cap_cursor get_u64_def m word_of_nat_and_low)
    qed
  qed
qed


lemma get_varint_tagged:
  assumes "n = 2 ^ t" "t < 4" "n = Suc m" "M = 64 * 256 ^ m" "v < M"
  shows "get_varint (cursor p (to_be n (v + t * M) @ r)) =
    Ok (word_of_nat v, cursor (p @ to_be n (v + t * M)) r)"
proof -
  let ?x = "v + t * M"
  define h :: byte where "h = word_of_nat (?x div 256 ^ m mod 256)"
  have M: "M = 2 ^ (8 * n - 2)"
    by (simp add: assms(3,4) power_add power_mult)
  have x4: "?x < 4 * M"
    using assms(2,5) by (cases t rule: nat.exhaust) (auto simp: less_Suc_eq numeral_eq_Suc)
  have "?x div 256 ^ m < 256"
    using x4 by (intro less_mult_imp_div_less) (simp add: assms(4))
  then have "unat h div 64 = ?x div 256 ^ m div 64"
    by (simp add: h_def unat_word_of_nat_small)
  also have "\<dots> = ?x div M"
    by (simp add: assms(4) mult.commute flip: div_mult2_eq)
  also have "\<dots> = t"
    using assms(5) by simp
  finally have tag: "n = 2 ^ (unat h div 64)" using assms(1) by simp
  obtain ts where ts: "to_be n ?x = h # ts"
    unfolding h_def assms(3) to_be_Cons by blast
  then have len: "Suc (length ts) = n"
    by (metis length_Cons length_to_be)
  have "be_nat (h # ts) = ?x mod 256 ^ n"
    by (metis be_nat_to_be ts)
  also have "\<dots> = ?x"
    using x4 by (simp add: assms(3,4))
  moreover have "take n (h # ts @ r) = h # ts"
    using len by auto
  moreover have "drop n (h # ts @ r) = r"
    using len by auto
  ultimately have "be_nat (take n (h # ts @ r)) mod 2 ^ (8 * n - 2) = v"
    "take n (h # ts @ r) = h # ts" "drop n (h # ts @ r) = r"
    using assms(5) by (simp_all flip: M)
  then show ?thesis
    using len get_varint_read [OF tag, of p "ts @ r"] by (simp add: ts)
qed

lemma get_varint_cursor:
  assumes "v < 2 ^ 62"
  shows "get_varint (cursor p (varint_bytes v @ r)) =
    Ok (word_of_nat v, cursor (p @ varint_bytes v) r)"
proof -
  consider "v < 2 ^ 6" | "2 ^ 6 \<le> v" "v < 2 ^ 14" | "2 ^ 14 \<le> v" "v < 2 ^ 30" | "2 ^ 30 \<le> v"
    by linarith
  then show ?thesis
  proof cases
    case 1
    then have bs: "varint_bytes v = to_be 1 (v + 0 * 2 ^ 6)"
      by (simp add: varint_bytes_def)
    show ?thesis unfolding bs
      by (rule get_varint_tagged [where m = 0]) (use 1 in simp_all)
  next
    case 2
    then have bs: "varint_bytes v = to_be 2 (v + 1 * 2 ^ 14)"
      by (simp add: varint_bytes_def)
    show ?thesis unfolding bs
      by (rule get_varint_tagged [where m = 1]) (use 2 in simp_all)
  next
    case 3
    then have bs: "varint_bytes v = to_be 4 (v + 2 * 2 ^ 30)"
      by (simp add: varint_bytes_def)
    show ?thesis unfolding bs
      by (rule get_varint_tagged [where m = 3]) (use 3 in simp_all)
  next
    case 4
    then have bs: "varint_bytes v = to_be 8 (v + 3 * 2 ^ 62)"
      by (simp add: varint_bytes_def)
    show ?thesis unfolding bs
      by (rule get_varint_tagged [where m = 7]) (use assms in simp_all)
  qed
qed

text \<open>The decoder as the rest of a byte string after one integer.\<close>

definition dec_varint :: "bytes \<Rightarrow> (nat \<times> bytes) option" where
  "dec_varint bs = (case get_varint (with_slice bs) of Ok (v, b) \<Rightarrow> Some (unat v, as_ref b) | _ \<Rightarrow> None)"

interpretation varint: prefix_codec varint_bytes dec_varint "\<lambda>v. v < 2 ^ 62"
proof unfold_locales
  fix v :: nat and rest
  assume v: "v < 2 ^ 62"
  then have "unat (word_of_nat v :: u64) = v"
    by (intro unat_word_of_nat_small) simp
  with v show "dec_varint (varint_bytes v @ rest) = Some (v, rest)"
    by (simp add: dec_varint_def with_slice_cursor get_varint_cursor as_ref_cursor)
qed


text \<open>Reading is local: what is left decides the outcome, and bytes that arrive later do not
  change an integer that was complete.\<close>

lemma get_varint_dec:
  "get_varint (cursor p l) =
     (case dec_varint l of
        None \<Rightarrow> Err BufferTooShortError
      | Some (v, r) \<Rightarrow> Ok (word_of_nat v, cursor (p @ take (length l - length r) l) r))"
proof (cases l)
  case Nil
  then show ?thesis
    by (simp add: dec_varint_def get_varint_def with_slice_cursor peek_u8_def peek_u_cursor)
next
  case (Cons x xs)
  let ?n = "2 ^ (unat x div 64) :: nat"
  have "length l - length (drop ?n l) = ?n" if "\<not> Suc (length xs) < ?n"
    using that by (simp add: Cons)
  then show ?thesis
    by (simp add: dec_varint_def with_slice_cursor Cons get_varint_read as_ref_cursor)
qed

lemma dec_varint_append:
  assumes "dec_varint l = Some (v, r)"
  shows "dec_varint (l @ m) = Some (v, r @ m)"
proof (cases l)
  case Nil
  with assms show ?thesis
    by (simp add: dec_varint_def get_varint_def with_slice_cursor peek_u8_def peek_u_cursor)
next
  case (Cons x xs)
  let ?n = "2 ^ (unat x div 64) :: nat"
  from assms Cons have n: "?n \<le> length (x # xs)"
    by (auto simp: dec_varint_def with_slice_cursor get_varint_read as_ref_cursor split: if_splits)
  then have "take ?n (x # xs @ m) = take ?n (x # xs)" "drop ?n (x # xs @ m) = drop ?n (x # xs) @ m"
    using take_append [of ?n "x # xs" m] drop_append [of ?n "x # xs" m] by simp_all
  with assms Cons n show ?thesis
    by (simp add: dec_varint_def with_slice_cursor get_varint_read as_ref_cursor)
qed

lemma dec_varint_shorter: "dec_varint l = Some (v, r) \<Longrightarrow> length r < length l"
proof (cases l)
  case (Cons x xs)
  assume "dec_varint l = Some (v, r)"
  with Cons show ?thesis
    by (auto simp: dec_varint_def with_slice_cursor get_varint_read as_ref_cursor split: if_splits)
qed (simp add: dec_varint_def get_varint_def with_slice_cursor peek_u8_def peek_u_cursor)

lemma dec_varint_less: "dec_varint l = Some (v, r) \<Longrightarrow> v < 2 ^ 64"
  using unsigned_less [where 'b = 64 and 'a = nat]
  by (auto simp: dec_varint_def split: res.splits prod.splits)

section \<open>Properties\<close>

lemma put_varint_Ok_MAX: "put_varint v b = Ok b' \<Longrightarrow> v \<le> MAX_VAR_INT"
  by (auto simp: put_varint_def varint_len_def MAX_VAR_INT_def rbind_eq_Ok word_le_nat_alt
      split: if_splits)

text \<open>C35. Reading back what was written: whenever \<open>put_varint\<close> writes a value at the cursor,
  \<open>get_varint\<close> from the same place reads exactly that value and stops where the write
  stopped, and the bytes before and after the written ones are unchanged.\<close>

theorem put_get_varint:
  assumes "wf_octets b" and "put_varint v b = Ok b'"
  shows "get_varint (b'\<lparr>o_off := o_off b\<rparr>) = Ok (v, b') \<and>
    length (o_buf b') = length (o_buf b) \<and>
    take (o_off b) (o_buf b') = take (o_off b) (o_buf b) \<and>
    drop (o_off b') (o_buf b') = drop (o_off b') (o_buf b)"
proof -
  define p l where "p = take (o_off b) (o_buf b)" and "l = as_ref b"
  then have b: "b = cursor p l" using wf_octets_cursor [OF assms(1)] by simp
  have v: "v \<le> MAX_VAR_INT" using assms(2) by (rule put_varint_Ok_MAX)
  then have small: "unat v < 2 ^ 62" by (simp add: word_le_nat_alt MAX_VAR_INT_def)
  define bs where "bs = varint_bytes (unat v)"
  have fits: "length bs \<le> length l" and b': "b' = cursor (p @ bs) (drop (length bs) l)"
    using assms(2) by (auto simp: b put_varint_cursor [OF v] bs_def Let_def split: if_splits)
  have "b'\<lparr>o_off := o_off b\<rparr> = cursor p (bs @ drop (length bs) l)"
    by (simp add: b b' cursor_def)
  then have "get_varint (b'\<lparr>o_off := o_off b\<rparr>) = Ok (v, b')"
    using get_varint_cursor [OF small] by (simp add: bs_def b')
  then show ?thesis
    using fits by (simp add: b b') (simp add: cursor_def add.commute)
qed

theorem put_get_varint_witness:
  "wf_octets (with_slice [0, 0, 0]) \<and>
   put_varint 300 (with_slice [0, 0, 0]) = Ok \<lparr>o_buf = [0x41, 0x2c, 0], o_off = 2\<rparr> \<and>
   get_varint \<lparr>o_buf = [0x41, 0x2c, 0], o_off = 0\<rparr> = Ok (300, \<lparr>o_buf = [0x41, 0x2c, 0], o_off = 2\<rparr>)"
proof -
  have put: "put_varint 300 (with_slice [0, 0, 0]) = Ok \<lparr>o_buf = [0x41, 0x2c, 0], o_off = 2\<rparr>"
    by code_simp
  from put_get_varint [OF wf_with_slice put] put show ?thesis
    by (simp add: with_slice_def wf_octets_def)
qed

text \<open>Reading never panics and never moves the cursor past its buffer: on a cursor inside its
  buffer \<open>get_varint\<close> gives a value and a cursor inside the same buffer, strictly further,
  or the error that the buffer is too short, which happens exactly when fewer bytes are left
  than the first one announces.\<close>

lemma get_varint_total:
  assumes "wf_octets b"
  shows "(\<exists>v b'. get_varint b = Ok (v, b') \<and> wf_octets b' \<and> o_buf b' = o_buf b \<and> o_off b < o_off b')
    \<or> get_varint b = Err BufferTooShortError \<and>
      (o_cap b = 0 \<or> o_cap b < 2 ^ (unat (o_buf b ! o_off b) div 64))"
proof (cases "as_ref b")
  case Nil
  then have "get_varint b = Err BufferTooShortError" "o_cap b = 0"
    using assms by (auto simp: get_varint_def peek_u8_def peek_u_def as_ref_def wf_octets_def o_cap_def)
  then show ?thesis by simp
next
  case (Cons x xs)
  define p where "p = take (o_off b) (o_buf b)"
  have b: "b = cursor p (x # xs)"
    using wf_octets_cursor [OF assms] by (simp add: Cons p_def)
  show ?thesis
    unfolding b
    by (simp add: get_varint_read o_cap_cursor o_off_cursor o_buf_cursor nth_append)
qed

text \<open>Writing panics exactly on the values no variable-length integer can hold: for a value
  above \<open>MAX_VAR_INT\<close> the \<open>unreachable!()\<close> of \<open>varint_len\<close> is reached, for every other
  value the result is a write or the error that the buffer is too short.\<close>

lemma put_varint_panics:
  assumes "wf_octets b"
  shows "put_varint v b = Panic \<longleftrightarrow> MAX_VAR_INT < v"
proof (cases "v \<le> MAX_VAR_INT")
  case True
  have "b = cursor (take (o_off b) (o_buf b)) (as_ref b)"
    using assms by (rule wf_octets_cursor)
  then have "put_varint v b \<noteq> Panic"
    using put_varint_cursor [OF True, of "take (o_off b) (o_buf b)" "as_ref b"]
    by (simp add: Let_def split: if_splits)
  with True show ?thesis by simp
next
  case False
  then show ?thesis
    by (auto simp: put_varint_def varint_len_def MAX_VAR_INT_def word_le_nat_alt word_less_nat_alt)
qed

section \<open>Reading moves forward and does not panic\<close>

lemma get_u8_Ok: "get_u8 b = Ok (v, b') \<Longrightarrow> o_cap b' < o_cap b"
  by (auto simp: get_u8_def rbind_eq_Ok get_u_Ok o_cap_def)

lemma get_bytes_Ok: "get_bytes n b = Ok (v, b') \<Longrightarrow> o_cap b' \<le> o_cap b"
  by (auto simp: get_bytes_def o_cap_def split: if_splits)

lemma get_varint_Ok: "get_varint b = Ok (v, b') \<Longrightarrow> o_cap b' < o_cap b"
  using get_varint_Ok_wf [of b v b'] by (auto simp: o_cap_def)

lemma varint_bytes_0 [simp]: "varint_bytes 0 = [0]"
  by (simp add: varint_bytes_def)

lemma MAX_VAR_INT_small: "v \<le> MAX_VAR_INT \<longleftrightarrow> unat v < 2 ^ 62"
  by (auto simp: MAX_VAR_INT_def word_le_nat_alt)

lemma get_u8_not_Panic: "wf_octets b \<Longrightarrow> get_u8 b \<noteq> Panic"
  by (auto simp: get_u8_def get_u_wf rbind_eq_Panic)

lemma get_bytes_not_Panic: "get_bytes n b \<noteq> Panic"
  by (simp add: get_bytes_def)

lemma get_u8_wf: "get_u8 b = Ok (v, b') \<Longrightarrow> wf_octets b \<Longrightarrow> wf_octets b'"
  by (auto simp: get_u8_def rbind_eq_Ok get_u_Ok wf_octets_def)

lemma get_bytes_wf: "get_bytes n b = Ok (v, b') \<Longrightarrow> wf_octets b \<Longrightarrow> wf_octets b'"
  by (auto simp: get_bytes_def wf_octets_def o_cap_def split: if_splits)

lemma get_varint_wf: "get_varint b = Ok (v, b') \<Longrightarrow> wf_octets b \<Longrightarrow> wf_octets b'"
  using get_varint_Ok_wf [of b v b'] by (auto simp: wf_octets_def)

end
