(* ===== verification/Rust_Str.thy ===== *)
theory Rust_Str
  imports Prelude
begin

text \<open>
  What the core uses of Rust's strings.  A \<open>str\<close> is the list of its UTF-8 bytes, so
  \<open>len\<close>, \<open>as_bytes\<close>, \<open>split\<close> at an ASCII character, \<open>starts_with\<close>, \<open>find\<close> and the
  ASCII case operations are list operations.  \<open>trim\<close> strips every character of Unicode's
  White\_Space property, by its UTF-8 bytes.  \<open>to_lowercase\<close> beyond ASCII is Unicode's
  table, a parameter of the definitions that need it.
\<close>

type_synonym str = bytes

section \<open>Literals and ASCII classes\<close>

definition lit :: "string \<Rightarrow> str" where
  "lit s = map of_char s"

lemma lit_Nil [simp]: "lit [] = []"
  by (simp add: lit_def)

lemma lit_Cons [simp]: "lit (c # s) = of_char c # lit s"
  by (simp add: lit_def)

lemma length_lit [simp]: "length (lit s) = length s"
  by (simp add: lit_def)

definition is_ascii_digit :: "byte \<Rightarrow> bool" where
  "is_ascii_digit b \<longleftrightarrow> 48 \<le> b \<and> b \<le> 57"

definition is_ascii_alpha :: "byte \<Rightarrow> bool" where
  "is_ascii_alpha b \<longleftrightarrow> 65 \<le> b \<and> b \<le> 90 \<or> 97 \<le> b \<and> b \<le> 122"

definition is_ascii_alphanumeric :: "byte \<Rightarrow> bool" where
  "is_ascii_alphanumeric b \<longleftrightarrow> is_ascii_digit b \<or> is_ascii_alpha b"

definition lower_byte :: "byte \<Rightarrow> byte" where
  "lower_byte b = (if 65 \<le> b \<and> b \<le> 90 then b + 32 else b)"

definition to_ascii_lowercase :: "str \<Rightarrow> str" where
  "to_ascii_lowercase s = map lower_byte s"

definition eq_ignore_ascii_case :: "str \<Rightarrow> str \<Rightarrow> bool" where
  "eq_ignore_ascii_case a b \<longleftrightarrow> to_ascii_lowercase a = to_ascii_lowercase b"

definition is_ascii :: "str \<Rightarrow> bool" where
  "is_ascii s \<longleftrightarrow> list_all (\<lambda>b. b < 128) s"

lemma lower_byte_idem [simp]: "lower_byte (lower_byte b) = lower_byte b"
proof (cases "65 \<le> b \<and> b \<le> 90")
  case True
  then have "97 \<le> unat b + 32" "unat b + 32 \<le> 122"
    by (auto simp: word_le_nat_alt)
  then have "unat (b + 32) = unat b + 32"
    by (simp add: unat_word_ariths)
  with \<open>97 \<le> unat b + 32\<close> have "\<not> b + 32 \<le> 90"
    by (simp add: word_le_nat_alt)
  with True show ?thesis by (simp add: lower_byte_def)
qed (simp add: lower_byte_def)

lemma to_ascii_lowercase_idem [simp]:
  "to_ascii_lowercase (to_ascii_lowercase s) = to_ascii_lowercase s"
  by (simp add: to_ascii_lowercase_def)

lemma length_to_ascii_lowercase [simp]: "length (to_ascii_lowercase s) = length s"
  by (simp add: to_ascii_lowercase_def)

lemma to_ascii_lowercase_append [simp]:
  "to_ascii_lowercase (a @ b) = to_ascii_lowercase a @ to_ascii_lowercase b"
  by (simp add: to_ascii_lowercase_def)

lemma to_ascii_lowercase_Nil [simp]: "to_ascii_lowercase [] = []"
  by (simp add: to_ascii_lowercase_def)

lemma to_ascii_lowercase_Cons: "to_ascii_lowercase (b # s) = lower_byte b # to_ascii_lowercase s"
  by (simp add: to_ascii_lowercase_def)

lemma eq_ignore_ascii_case_refl [simp]: "eq_ignore_ascii_case a a"
  by (simp add: eq_ignore_ascii_case_def)

lemma eq_ignore_ascii_case_sym: "eq_ignore_ascii_case a b \<longleftrightarrow> eq_ignore_ascii_case b a"
  by (auto simp: eq_ignore_ascii_case_def)

lemma eq_ignore_ascii_case_length: "eq_ignore_ascii_case a b \<Longrightarrow> length a = length b"
  unfolding eq_ignore_ascii_case_def by (metis length_to_ascii_lowercase)

text \<open>What \<open>str::to_lowercase\<close> guarantees of ASCII text, whatever Unicode's table is.\<close>

definition ascii_lowercases :: "(str \<Rightarrow> str) \<Rightarrow> bool" where
  "ascii_lowercases lc \<longleftrightarrow> (\<forall>s. is_ascii s \<longrightarrow> lc s = to_ascii_lowercase s)"

section \<open>Trimming\<close>

text \<open>The UTF-8 encodings of the characters of White\_Space.\<close>

definition ws_seqs :: "bytes list" where
  "ws_seqs = [[9], [10], [11], [12], [13], [32], [0xC2, 0x85], [0xC2, 0xA0], [0xE1, 0x9A, 0x80],
     [0xE2, 0x80, 0x80], [0xE2, 0x80, 0x81], [0xE2, 0x80, 0x82], [0xE2, 0x80, 0x83],
     [0xE2, 0x80, 0x84], [0xE2, 0x80, 0x85], [0xE2, 0x80, 0x86], [0xE2, 0x80, 0x87],
     [0xE2, 0x80, 0x88], [0xE2, 0x80, 0x89], [0xE2, 0x80, 0x8A], [0xE2, 0x80, 0xA8],
     [0xE2, 0x80, 0xA9], [0xE2, 0x80, 0xAF], [0xE2, 0x81, 0x9F], [0xE3, 0x80, 0x80]]"

definition starts_with :: "'a list \<Rightarrow> 'a list \<Rightarrow> bool" where
  "starts_with s p \<longleftrightarrow> take (length p) s = p"

definition ends_with :: "'a list \<Rightarrow> 'a list \<Rightarrow> bool" where
  "ends_with s p \<longleftrightarrow> length p \<le> length s \<and> drop (length s - length p) s = p"

fun strip_seqs :: "'a list list \<Rightarrow> 'a list \<Rightarrow> nat" where
  "strip_seqs [] s = 0"
| "strip_seqs (q # qs) s = (if q \<noteq> [] \<and> starts_with s q then length q else strip_seqs qs s)"

lemma strip_seqs_le: "strip_seqs qs s \<le> length s"
  by (induction qs s rule: strip_seqs.induct) (auto simp: starts_with_def, metis length_take min.cobounded1)

function trim_seqs :: "'a list list \<Rightarrow> 'a list \<Rightarrow> 'a list" where
  "trim_seqs qs s = (let n = strip_seqs qs s in if n = 0 then s else trim_seqs qs (drop n s))"
  by pat_completeness auto
termination
proof (relation "measure (\<lambda>(qs, s). length s)")
  fix qs :: "'a list list" and s :: "'a list" and n
  assume "n = strip_seqs qs s" "n \<noteq> 0"
  with strip_seqs_le [of qs s] show "((qs, drop n s), qs, s) \<in> measure (\<lambda>(qs, s). length s)"
    by simp
qed simp

declare trim_seqs.simps [simp del]

definition trim_start :: "str \<Rightarrow> str" where
  "trim_start s = trim_seqs ws_seqs s"

definition trim_end :: "str \<Rightarrow> str" where
  "trim_end s = rev (trim_seqs (map rev ws_seqs) (rev s))"

definition trim :: "str \<Rightarrow> str" where
  "trim s = trim_end (trim_start s)"

definition trim_start_matches :: "byte \<Rightarrow> str \<Rightarrow> str" where
  "trim_start_matches c s = dropWhile (\<lambda>b. b = c) s"

definition trim_end_matches :: "byte \<Rightarrow> str \<Rightarrow> str" where
  "trim_end_matches c s = rev (dropWhile (\<lambda>b. b = c) (rev s))"

section \<open>Searching and splitting\<close>

definition strip_prefix :: "'a list \<Rightarrow> 'a list \<Rightarrow> 'a list option" where
  "strip_prefix p s = (if starts_with s p then Some (drop (length p) s) else None)"

definition strip_suffix :: "'a list \<Rightarrow> 'a list \<Rightarrow> 'a list option" where
  "strip_suffix p s = (if ends_with s p then Some (take (length s - length p) s) else None)"

fun contains :: "'a list \<Rightarrow> 'a list \<Rightarrow> bool" where
  "contains [] p = (p = [])"
| "contains (x # xs) p = (starts_with (x # xs) p \<or> contains xs p)"

text \<open>\<open>split\<close> at every character that satisfies a predicate; the result is never empty.\<close>

fun split_pred :: "('a \<Rightarrow> bool) \<Rightarrow> 'a list \<Rightarrow> 'a list list" where
  "split_pred P [] = [[]]"
| "split_pred P (x # xs) =
     (if P x then [] # split_pred P xs
      else (case split_pred P xs of [] \<Rightarrow> [[x]] | y # ys \<Rightarrow> (x # y) # ys))"

definition split_on :: "'a \<Rightarrow> 'a list \<Rightarrow> 'a list list" where
  "split_on c s = split_pred (\<lambda>x. x = c) s"

definition split_once :: "'a \<Rightarrow> 'a list \<Rightarrow> ('a list \<times> 'a list) option" where
  "split_once c s =
     (if c \<in> set s then Some (takeWhile (\<lambda>x. x \<noteq> c) s, tl (dropWhile (\<lambda>x. x \<noteq> c) s)) else None)"

definition rsplit_once :: "'a \<Rightarrow> 'a list \<Rightarrow> ('a list \<times> 'a list) option" where
  "rsplit_once c s =
     (case split_once c (rev s) of None \<Rightarrow> None | Some (after, before) \<Rightarrow> Some (rev before, rev after))"

definition find_byte :: "'a \<Rightarrow> 'a list \<Rightarrow> nat option" where
  "find_byte c s = (if c \<in> set s then Some (length (takeWhile (\<lambda>x. x \<noteq> c) s)) else None)"

text \<open>\<open>split\<close> at a non-empty pattern.\<close>

function split_str :: "'a list \<Rightarrow> 'a list \<Rightarrow> 'a list \<Rightarrow> 'a list list" where
  "split_str p acc s =
     (if s = [] then [rev acc]
      else if p \<noteq> [] \<and> starts_with s p then rev acc # split_str p [] (drop (length p) s)
      else split_str p (hd s # acc) (tl s))"
  by pat_completeness auto
termination
  by (relation "measure (\<lambda>(p, acc, s). length s)") (auto simp: starts_with_def)

declare split_str.simps [simp del]

text \<open>\<open>str::lines\<close>: split at line feeds, one carriage return dropped from the end of each,
  and no last line when the text ends with a line feed.\<close>

definition drop_cr :: "str \<Rightarrow> str" where
  "drop_cr s = (if s \<noteq> [] \<and> last s = 13 then butlast s else s)"

definition str_lines :: "str \<Rightarrow> str list" where
  "str_lines s =
     (let parts = split_on 10 s
      in map drop_cr (butlast parts) @ (if last parts = [] then [] else [last parts]))"

lemma split_pred_nonempty [simp]: "split_pred P s \<noteq> []"
  by (cases s) (auto split: list.splits)

lemma split_pred_none: "\<forall>x\<in>set s. \<not> P x \<Longrightarrow> split_pred P s = [s]"
  by (induction s) auto

lemma split_pred_part: "l \<in> set (split_pred P s) \<Longrightarrow> x \<in> set l \<Longrightarrow> \<not> P x \<and> x \<in> set s"
  by (induction s arbitrary: l) (auto split: if_splits list.splits, blast+)

lemma split_pred_append_sep: "P c \<Longrightarrow> split_pred P (a @ c # b) = split_pred P a @ split_pred P b"
  by (induction a) (auto split: list.splits)

lemma split_on_append_sep: "c \<notin> set a \<Longrightarrow> split_on c (a @ c # b) = a # split_on c b"
  using split_pred_append_sep [of "\<lambda>x. x = c" c a b] split_pred_none [of a "\<lambda>x. x = c"]
  by (auto simp: split_on_def)

lemma split_on_none: "c \<notin> set s \<Longrightarrow> split_on c s = [s]"
  unfolding split_on_def by (rule split_pred_none) auto

lemma split_once_Some: "split_once c s = Some (a, b) \<longleftrightarrow> s = a @ c # b \<and> c \<notin> set a"
proof
  assume "split_once c s = Some (a, b)"
  then have c: "c \<in> set s" and a: "a = takeWhile (\<lambda>x. x \<noteq> c) s" and b: "b = tl (dropWhile (\<lambda>x. x \<noteq> c) s)"
    by (auto simp: split_once_def split: if_splits)
  from c have "dropWhile (\<lambda>x. x \<noteq> c) s = c # b"
    unfolding b by (induction s) auto
  then have "s = a @ c # b"
    unfolding a by (metis takeWhile_dropWhile_id)
  moreover have "c \<notin> set a"
    unfolding a by (auto dest: set_takeWhileD)
  ultimately show "s = a @ c # b \<and> c \<notin> set a" ..
next
  assume s: "s = a @ c # b \<and> c \<notin> set a"
  then have "takeWhile (\<lambda>x. x \<noteq> c) s = a" "dropWhile (\<lambda>x. x \<noteq> c) s = c # b"
    by (simp_all, auto simp: takeWhile_append dropWhile_append)
  with s show "split_once c s = Some (a, b)"
    by (simp add: split_once_def)
qed

lemma split_once_None: "split_once c s = None \<longleftrightarrow> c \<notin> set s"
  by (simp add: split_once_def)

lemma rsplit_once_Some: "rsplit_once c s = Some (a, b) \<longleftrightarrow> s = a @ c # b \<and> c \<notin> set b"
proof -
  have "rsplit_once c s = Some (a, b) \<longleftrightarrow> split_once c (rev s) = Some (rev b, rev a)"
    by (auto simp: rsplit_once_def split: option.splits)
  also have "\<dots> \<longleftrightarrow> rev s = rev (a @ c # b) \<and> c \<notin> set b"
    by (simp add: split_once_Some)
  also have "\<dots> \<longleftrightarrow> s = a @ c # b \<and> c \<notin> set b"
    by (simp only: rev_is_rev_conv)
  finally show ?thesis .
qed

lemma rsplit_once_None: "rsplit_once c s = None \<longleftrightarrow> c \<notin> set s"
  by (auto simp: rsplit_once_def split_once_None split: option.splits)
    (metis option.distinct(1) set_rev split_once_None)

section \<open>Numbers\<close>

text \<open>\<open>str::parse\<close> to an unsigned integer below \<open>bound\<close>: an optional plus sign, then at least
  one digit and nothing else; an overflow is an error.\<close>

fun digits_value :: "nat \<Rightarrow> bytes \<Rightarrow> nat" where
  "digits_value acc [] = acc"
| "digits_value acc (d # ds) = digits_value (acc * 10 + (unat d - 48)) ds"

definition parse_uint :: "nat \<Rightarrow> str \<Rightarrow> nat option" where
  "parse_uint bound s =
     (let ds = (case s of [] \<Rightarrow> [] | c # r \<Rightarrow> if c = 43 then r else s)
      in if ds \<noteq> [] \<and> list_all is_ascii_digit ds \<and> digits_value 0 ds < bound
         then Some (digits_value 0 ds) else None)"

definition parse_u16 :: "str \<Rightarrow> u16 option" where
  "parse_u16 s = map_option word_of_nat (parse_uint (2 ^ 16) s)"

definition parse_u64 :: "str \<Rightarrow> nat option" where
  "parse_u64 s = parse_uint (2 ^ 64) s"

text \<open>\<open>Display\<close> of an unsigned integer.\<close>

fun show_nat :: "nat \<Rightarrow> str" where
  "show_nat n = (if n < 10 then [word_of_nat (48 + n)]
     else show_nat (n div 10) @ [word_of_nat (48 + n mod 10)])"

declare show_nat.simps [simp del]

lemma digits_value_append [simp]:
  "digits_value a (xs @ ys) = digits_value (digits_value a xs) ys"
  by (induction xs arbitrary: a) auto

lemma unat_digit: "n < 10 \<Longrightarrow> unat (word_of_nat (48 + n) :: byte) = 48 + n"
  by (rule unat_word_of_nat_small) simp

lemma is_ascii_digit_show: "n < 10 \<Longrightarrow> is_ascii_digit (word_of_nat (48 + n))"
  using unat_digit [of n] by (simp add: is_ascii_digit_def word_le_nat_alt del: of_nat_add)

lemma show_nat_digits: "show_nat n \<noteq> [] \<and> list_all is_ascii_digit (show_nat n) \<and> digits_value 0 (show_nat n) = n"
proof (induction n rule: show_nat.induct)
  case (1 n)
  show ?case
  proof (cases "n < 10")
    case True
    with unat_digit [OF True] is_ascii_digit_show [OF True] show ?thesis
      by (subst (1 2 3) show_nat.simps) (simp del: of_nat_add)
  next
    case False
    have m: "n mod 10 < 10" by simp
    from False 1 unat_digit [OF m] is_ascii_digit_show [OF m] show ?thesis
      by (subst (1 2 3) show_nat.simps) (simp del: of_nat_add)
  qed
qed

lemma parse_show_nat: "n < bound \<Longrightarrow> parse_uint bound (show_nat n) = Some n"
proof -
  assume "n < bound"
  obtain c r where cr: "show_nat n = c # r"
    using show_nat_digits [of n] by (metis neq_Nil_conv)
  then have "is_ascii_digit c" using show_nat_digits [of n] by simp
  then have "c \<noteq> 43" by (auto simp: is_ascii_digit_def)
  then show ?thesis
    using \<open>n < bound\<close> show_nat_digits [of n] by (simp add: parse_uint_def cr)
qed

section \<open>UTF-8\<close>

text \<open>The scanner behind \<open>from_utf8\<close> and \<open>from_utf8_lossy\<close>: whether the text starts with a
  well-formed character, and how many bytes it takes; of an ill-formed one, the longest part
  that could have started a character.\<close>

definition cont_byte :: "bytes \<Rightarrow> nat \<Rightarrow> bool" where
  "cont_byte s i \<longleftrightarrow> i < length s \<and> (s ! i) AND 0xC0 = 0x80"

definition byte_in :: "bytes \<Rightarrow> nat \<Rightarrow> byte \<Rightarrow> byte \<Rightarrow> bool" where
  "byte_in s i lo hi \<longleftrightarrow> i < length s \<and> lo \<le> s ! i \<and> s ! i \<le> hi"

definition utf8_second :: "byte \<Rightarrow> bytes \<Rightarrow> bool" where
  "utf8_second b s =
     (if b = 0xE0 then byte_in s 1 0xA0 0xBF
      else if b = 0xED then byte_in s 1 0x80 0x9F
      else if b = 0xF0 then byte_in s 1 0x90 0xBF
      else if b = 0xF4 then byte_in s 1 0x80 0x8F
      else byte_in s 1 0x80 0xBF)"

fun utf8_step :: "bytes \<Rightarrow> bool \<times> nat" where
  "utf8_step [] = (False, 1)"
| "utf8_step (b # r) =
     (if b < 0x80 then (True, 1)
      else if 0xC2 \<le> b \<and> b \<le> 0xDF then (if cont_byte (b # r) 1 then (True, 2) else (False, 1))
      else if 0xE0 \<le> b \<and> b \<le> 0xEF then
        (if \<not> utf8_second b (b # r) then (False, 1)
         else if \<not> cont_byte (b # r) 2 then (False, 2) else (True, 3))
      else if 0xF0 \<le> b \<and> b \<le> 0xF4 then
        (if \<not> utf8_second b (b # r) then (False, 1)
         else if \<not> cont_byte (b # r) 2 then (False, 2)
         else if \<not> cont_byte (b # r) 3 then (False, 3) else (True, 4))
      else (False, 1))"

lemma utf8_step_pos: "0 < snd (utf8_step s)"
  by (cases s) simp_all

lemma utf8_step_ascii: "b < 0x80 \<Longrightarrow> utf8_step (b # s) = (True, 1)"
  by simp

declare utf8_step.simps(2) [simp del]

lemma utf8_step_shorter: "s \<noteq> [] \<Longrightarrow> (ok, n) = utf8_step s \<Longrightarrow> length (drop n s) < length s"
  using utf8_step_pos [of s] by (metis length_drop diff_less length_greater_0_conv snd_conv)

function from_utf8_lossy :: "bytes \<Rightarrow> str" where
  "from_utf8_lossy s =
     (if s = [] then []
      else (case utf8_step s of (ok, n) \<Rightarrow>
        (if ok then take n s else [0xEF, 0xBF, 0xBD]) @ from_utf8_lossy (drop n s)))"
  by pat_completeness auto
termination
  by (relation "measure length") (auto simp del: length_drop intro: utf8_step_shorter)

function utf8_valid :: "bytes \<Rightarrow> bool" where
  "utf8_valid s =
     (if s = [] then True
      else (case utf8_step s of (ok, n) \<Rightarrow> ok \<and> utf8_valid (drop n s)))"
  by pat_completeness auto
termination
  by (relation "measure length") (auto simp del: length_drop intro: utf8_step_shorter)

declare from_utf8_lossy.simps [simp del] utf8_valid.simps [simp del]

lemma from_utf8_lossy_ascii: "is_ascii s \<Longrightarrow> from_utf8_lossy s = s"
proof (induction s)
  case Nil
  then show ?case by (simp add: from_utf8_lossy.simps)
next
  case (Cons b s)
  then show ?case by (subst from_utf8_lossy.simps) (simp add: is_ascii_def utf8_step_ascii)
qed

lemma from_utf8_lossy_valid: "utf8_valid s \<Longrightarrow> from_utf8_lossy s = s"
proof (induction s rule: utf8_valid.induct)
  case (1 s)
  obtain ok n where sn: "utf8_step s = (ok, n)" by (cases "utf8_step s")
  show ?case
  proof (cases "s = []")
    case False
    with 1(2) sn have "ok" "utf8_valid (drop n s)"
      by (subst (asm) utf8_valid.simps, simp)+
    with False sn 1(1) [OF False sn [symmetric]] show ?thesis
      by (subst from_utf8_lossy.simps) simp
  qed (simp add: from_utf8_lossy.simps)
qed

end
