(* ===== verification/Errors.thy ===== *)
theory Errors
  imports Rust_Str
begin

text \<open>
  The error type of the core (\<^verbatim>\<open>error.rs\<close>).  The variants that wrap an error of another crate
  carry that error's \<open>Display\<close> text.
\<close>

datatype aether_error =
    Io str
  | Quic str
  | H3 str
  | Tls str
  | Ech str
  | MasqueErr str
  | NoCleanEndpoint
  | CapsuleErr str
  | Api str
  | IdentityRefused str
  | Cancelled
  | Other str

type_synonym 'a aresult = "('a, aether_error) res"

fun error_to_string :: "aether_error \<Rightarrow> str" where
  "error_to_string (Io m) = lit ''io: '' @ m"
| "error_to_string (Quic m) = lit ''quic: '' @ m"
| "error_to_string (H3 m) = lit ''h3: '' @ m"
| "error_to_string (Tls m) = lit ''tls: '' @ m"
| "error_to_string (Ech m) = lit ''ech: '' @ m"
| "error_to_string (MasqueErr m) = lit ''masque: '' @ m"
| "error_to_string NoCleanEndpoint = lit ''prober: no clean endpoint found''"
| "error_to_string (CapsuleErr m) = lit ''capsule: '' @ m"
| "error_to_string (Api m) = lit ''api: '' @ m"
| "error_to_string (IdentityRefused m) = lit ''identity refused: '' @ m"
| "error_to_string Cancelled = lit ''cancelled''"
| "error_to_string (Other m) = lit ''other: '' @ m"

definition error_detail :: "aether_error \<Rightarrow> str" where
  "error_detail e = (case e of Other m \<Rightarrow> m | other \<Rightarrow> error_to_string other)"

end
