(* ===== verification/Masque.thy ===== *)
theory Masque
  imports Octets Errors
begin

text \<open>
  \<^verbatim>\<open>masque.rs\<close>: the CONNECT-IP datagrams and capsules that carry IP packets over HTTP/3 and
  HTTP/2, the incremental capsule parser of the HTTP/2 stream, and the DNS probe packet the
  endpoint scanner sends through a fresh tunnel.  Random draws are arguments.
\<close>

section \<open>Data\<close>

definition CAPSULE_ADDRESS_ASSIGN :: u64 where "CAPSULE_ADDRESS_ASSIGN = 1"
definition CAPSULE_ADDRESS_REQUEST :: u64 where "CAPSULE_ADDRESS_REQUEST = 2"
definition CAPSULE_ROUTE_ADVERTISEMENT :: u64 where "CAPSULE_ROUTE_ADVERTISEMENT = 3"
definition CAPSULE_DATAGRAM :: u64 where "CAPSULE_DATAGRAM = 0"
definition CONNECT_IP_CONTEXT_ID :: u64 where "CONNECT_IP_CONTEXT_ID = 0"
definition CF_CONNECT_PROTOCOL :: str where "CF_CONNECT_PROTOCOL = lit ''cf-connect-ip''"
definition MAX_CAPSULE_BUF :: nat where "MAX_CAPSULE_BUF = 256 * 1024"

lemmas capsule_kinds = CAPSULE_ADDRESS_ASSIGN_def CAPSULE_ADDRESS_REQUEST_def
  CAPSULE_ROUTE_ADVERTISEMENT_def CAPSULE_DATAGRAM_def

record assigned_address =
  request_id :: u64
  aa_ip_version :: byte
  aa_address :: bytes
  prefix_len :: byte

record route_advertisement =
  ra_ip_version :: byte
  ra_start :: bytes
  ra_end :: bytes
  protocol :: byte

datatype capsule =
    AddressAssign "assigned_address list"
  | AddressRequest
  | Datagram bytes
  | RouteAdvertisement "route_advertisement list"
  | Unknown u64 bytes

section \<open>Requests and datagrams\<close>

definition connect_ip_request :: "str \<Rightarrow> str \<Rightarrow> (bytes \<times> bytes) list" where
  "connect_ip_request authority path =
     [(lit '':method'', lit ''CONNECT''),
      (lit '':protocol'', CF_CONNECT_PROTOCOL),
      (lit '':scheme'', lit ''https''),
      (lit '':authority'', authority),
      (lit '':path'', path),
      (lit ''user-agent'', []),
      (lit ''capsule-protocol'', lit ''?1'')]"

definition quarter_stream_id :: "u64 \<Rightarrow> u64" where
  "quarter_stream_id stream_id = stream_id div 4"

definition masque_varint_len :: "u64 \<Rightarrow> nat" where
  "masque_varint_len v =
     (if v < 64 then 1 else if v < 16384 then 2 else if v < 1073741824 then 4 else 8)"

fun oct :: "oct_error \<Rightarrow> aether_error" where
  "oct BufferTooShortError = CapsuleErr (lit ''BufferTooShortError'')"

definition encode_ip_datagram :: "u64 \<Rightarrow> bytes \<Rightarrow> bytes aresult" where
  "encode_ip_datagram stream_id ip_packet =
     (let qsid = quarter_stream_id stream_id;
          ctx = CONNECT_IP_CONTEXT_ID;
          cap = masque_varint_len qsid + masque_varint_len ctx + length ip_packet;
          b = with_slice (replicate cap 0)
      in rbind (map_err oct (put_varint qsid b)) (\<lambda>b.
         rbind (map_err oct (put_varint ctx b)) (\<lambda>b.
         rbind (map_err oct (put_bytes ip_packet b)) (\<lambda>b.
         Ok (o_buf b)))))"

definition decode_ip_datagram :: "bytes \<Rightarrow> u64 \<Rightarrow> bytes option aresult" where
  "decode_ip_datagram datagram expect_stream_id =
     rbind (map_err oct (get_varint (with_slice datagram))) (\<lambda>(qsid, b).
       if qsid \<noteq> quarter_stream_id expect_stream_id then Ok None
       else rbind (map_err oct (get_varint b)) (\<lambda>(ctx, b).
         if ctx \<noteq> CONNECT_IP_CONTEXT_ID then Ok None
         else let rest = o_cap b
              in rbind (map_err oct (get_bytes rest b)) (\<lambda>(payload, b).
                 Ok (Some (as_ref payload)))))"

definition looks_like_ip_packet :: "bytes \<Rightarrow> bool" where
  "looks_like_ip_packet data =
     (case data of [] \<Rightarrow> False
      | first # _ \<Rightarrow> (drop_bit 4 first = 4 \<or> drop_bit 4 first = 6) \<and> 20 \<le> length data)"

definition strip_datagram_context :: "bytes \<Rightarrow> bytes option" where
  "strip_datagram_context payload =
     (if payload = [] then None
      else let by_context =
             (case get_varint (with_slice payload) of
                Ok (ctx, b) \<Rightarrow>
                  if ctx = CONNECT_IP_CONTEXT_ID then
                    let rest = o_cap b; consumed = length payload - rest;
                        inner = drop consumed payload
                    in if looks_like_ip_packet inner then Some inner else None
                  else None
              | _ \<Rightarrow> None)
           in (case by_context of Some inner \<Rightarrow> Some inner
               | None \<Rightarrow> if looks_like_ip_packet payload then Some payload else None))"

section \<open>Writing capsules\<close>

definition capsule_len :: "u64 \<Rightarrow> bytes \<Rightarrow> nat" where
  "capsule_len kind value =
     masque_varint_len kind + masque_varint_len (word_of_nat (length value)) + length value"

text \<open>\<open>let _ = b.put(..)\<close>: an error leaves the cursor as it was.\<close>

fun ignore_err :: "octets \<Rightarrow> octets oresult \<Rightarrow> octets aresult" where
  "ignore_err b (Ok b') = Ok b'"
| "ignore_err b (Err e) = Ok b"
| "ignore_err b Panic = Panic"

definition append_capsule :: "bytes \<Rightarrow> u64 \<Rightarrow> bytes \<Rightarrow> bytes aresult" where
  "append_capsule out kind value =
     (let b = with_slice (replicate (capsule_len kind value) 0)
      in rbind (ignore_err b (put_varint kind b)) (\<lambda>b.
         rbind (ignore_err b (put_varint (word_of_nat (length value)) b)) (\<lambda>b.
         rbind (ignore_err b (put_bytes value b)) (\<lambda>b.
         Ok (out @ o_buf b)))))"

definition encode_capsule :: "u64 \<Rightarrow> bytes \<Rightarrow> bytes aresult" where
  "encode_capsule kind value = append_capsule [] kind value"

definition encode_address_request :: "u64 \<Rightarrow> byte \<Rightarrow> byte \<Rightarrow> bytes aresult" where
  "encode_address_request rid ip_version plen =
     (let b = with_slice (replicate (masque_varint_len rid + 1 + 1) 0)
      in rbind (ignore_err b (put_varint rid b)) (\<lambda>b.
         rbind (ignore_err b (put_u8 ip_version b)) (\<lambda>b.
         rbind (ignore_err b (put_u8 plen b)) (\<lambda>b.
         encode_capsule CAPSULE_ADDRESS_REQUEST (o_buf b)))))"

definition encode_datagram_capsule :: "bytes \<Rightarrow> bytes aresult" where
  "encode_datagram_capsule ip_packet = encode_capsule CAPSULE_DATAGRAM ip_packet"

definition append_datagram_capsule :: "bytes \<Rightarrow> bytes \<Rightarrow> bytes aresult" where
  "append_datagram_capsule out ip_packet = append_capsule out CAPSULE_DATAGRAM ip_packet"

section \<open>Parsing capsules\<close>

declare rbind_cong [fundef_cong]

definition capsule_addr_len :: "byte \<Rightarrow> nat aresult" where
  "capsule_addr_len ip_version =
     (if ip_version = 4 then Ok 4 else if ip_version = 6 then Ok 16
      else Err (CapsuleErr (lit ''bad ip version '' @ show_nat (unat ip_version))))"

function parse_address_assign_loop ::
  "octets \<Rightarrow> assigned_address list \<Rightarrow> assigned_address list aresult" where
  "parse_address_assign_loop b out =
     (if o_cap b = 0 then Ok out
      else rbind (map_err oct (get_varint b)) (\<lambda>(rid, b1).
           rbind (map_err oct (get_u8 b1)) (\<lambda>(ver, b2).
           rbind (capsule_addr_len ver) (\<lambda>addr_len.
           rbind (map_err oct (get_bytes addr_len b2)) (\<lambda>(addr, b3).
           rbind (map_err oct (get_u8 b3)) (\<lambda>(plen, b4).
             parse_address_assign_loop b4
               (out @ [\<lparr>request_id = rid, aa_ip_version = ver, aa_address = as_ref addr,
                        prefix_len = plen\<rparr>])))))))"
  by pat_completeness auto
termination
  by (relation "measure (\<lambda>(b, out). o_cap b)")
    (auto dest!: get_u8_Ok get_bytes_Ok get_varint_Ok)

definition parse_address_assign :: "bytes \<Rightarrow> assigned_address list aresult" where
  "parse_address_assign value = parse_address_assign_loop (with_slice value) []"

function parse_route_advertisement_loop ::
  "octets \<Rightarrow> route_advertisement list \<Rightarrow> route_advertisement list aresult" where
  "parse_route_advertisement_loop b out =
     (if o_cap b = 0 then Ok out
      else rbind (map_err oct (get_u8 b)) (\<lambda>(ver, b1).
           rbind (capsule_addr_len ver) (\<lambda>addr_len.
           rbind (map_err oct (get_bytes addr_len b1)) (\<lambda>(start, b2).
           rbind (map_err oct (get_bytes addr_len b2)) (\<lambda>(stop, b3).
           rbind (map_err oct (get_u8 b3)) (\<lambda>(proto, b4).
             parse_route_advertisement_loop b4
               (out @ [\<lparr>ra_ip_version = ver, ra_start = as_ref start, ra_end = as_ref stop,
                        protocol = proto\<rparr>])))))))"
  by pat_completeness auto
termination
  by (relation "measure (\<lambda>(b, out). o_cap b)")
    (auto dest!: get_u8_Ok get_bytes_Ok)

definition parse_route_advertisement :: "bytes \<Rightarrow> route_advertisement list aresult" where
  "parse_route_advertisement value = parse_route_advertisement_loop (with_slice value) []"

declare parse_address_assign_loop.simps [simp del] parse_route_advertisement_loop.simps [simp del]

record capsule_parser =
  cp_buf :: bytes

definition cp_new :: capsule_parser where
  "cp_new = \<lparr>cp_buf = []\<rparr>"

definition cp_push :: "bytes \<Rightarrow> capsule_parser \<Rightarrow> capsule_parser" where
  "cp_push data p =
     (if saturating_add (length (cp_buf p)) (length data) > MAX_CAPSULE_BUF then p\<lparr>cp_buf := []\<rparr>
      else p\<lparr>cp_buf := cp_buf p @ data\<rparr>)"

definition capsule_of :: "u64 \<Rightarrow> bytes \<Rightarrow> capsule aresult" where
  "capsule_of kind value =
     (if kind = CAPSULE_ADDRESS_ASSIGN then
        rbind (parse_address_assign value) (\<lambda>l. Ok (AddressAssign l))
      else if kind = CAPSULE_ADDRESS_REQUEST then Ok AddressRequest
      else if kind = CAPSULE_ROUTE_ADVERTISEMENT then
        rbind (parse_route_advertisement value) (\<lambda>l. Ok (RouteAdvertisement l))
      else if kind = CAPSULE_DATAGRAM then Ok (Datagram value)
      else Ok (Unknown kind value))"

text \<open>\<open>next\<close>: the capsule at the front of the buffer, if all of it has arrived; its bytes are
  drained before its value is read, so a malformed capsule is consumed.\<close>

definition cp_next :: "capsule_parser \<Rightarrow> capsule option aresult \<times> capsule_parser" where
  "cp_next p =
     (case get_varint (with_slice (cp_buf p)) of
        Err _ \<Rightarrow> (Ok None, p)
      | Panic \<Rightarrow> (Panic, p)
      | Ok (kind, b) \<Rightarrow>
          (case get_varint b of
             Err _ \<Rightarrow> (Ok None, p)
           | Panic \<Rightarrow> (Panic, p)
           | Ok (v, b) \<Rightarrow>
               let len = unat v
               in if o_cap b < len then (Ok None, p)
                  else (case get_bytes len b of
                          Err e \<Rightarrow> (Err (oct e), p)
                        | Panic \<Rightarrow> (Panic, p)
                        | Ok (value, b) \<Rightarrow>
                            (rbind (capsule_of kind (as_ref value)) (\<lambda>c. Ok (Some c)),
                             p\<lparr>cp_buf := drop (o_off b) (cp_buf p)\<rparr>))))"

section \<open>The probe packet\<close>

definition probe_dns_query :: "u16 \<Rightarrow> bytes" where
  "probe_dns_query ident =
     be_bytes16 ident @ [0x01, 0x00] @ [0x00, 0x01] @ [0, 0, 0, 0, 0, 0] @
     concat (map (\<lambda>label. word_of_nat (length label) # label) [lit ''cloudflare'', lit ''com'']) @
     [0x00] @ [0x00, 0x01] @ [0x00, 0x01]"

text \<open>The first loop of \<open>ipv4_header_checksum\<close> adds the 16-bit words, an odd last byte as the
  high one; the second folds the carries.  \<open>u32\<close> addition wraps in a release build.\<close>

fun checksum_add :: "u32 \<Rightarrow> bytes \<Rightarrow> u32" where
  "checksum_add acc (a # b # rest) = checksum_add (acc + ucast (from_be16 a b)) rest"
| "checksum_add acc [a] = acc + push_bit 8 (ucast a)"
| "checksum_add acc [] = acc"

lemma checksum_carry: "unat ((acc AND 0xffff) + drop_bit 16 acc :: u32) = unat acc mod 65536 + unat acc div 65536"
proof -
  have m: "(0xffff :: u32) = mask 16" by (simp add: mask_eq_exp_minus_1)
  have "unat acc < 2 ^ 32" using unsigned_less [of acc, where 'a = nat] by simp
  then have "unat acc mod 65536 + unat acc div 65536 < 2 ^ 32" by simp
  then show ?thesis
    by (simp add: unat_word_ariths m unat_and_low unat_high)
qed

function checksum_fold :: "u32 \<Rightarrow> u32" where
  "checksum_fold acc =
     (if drop_bit 16 acc \<noteq> 0 then checksum_fold ((acc AND 0xffff) + drop_bit 16 acc) else acc)"
  by pat_completeness auto
termination
proof (relation "measure unat")
  fix acc :: u32
  assume "drop_bit 16 acc \<noteq> 0"
  then have "unat (drop_bit 16 acc) \<noteq> 0"
    by (simp add: word_unat_eq_iff)
  then have "0 < unat acc div 65536"
    unfolding unat_high by simp
  then have "unat acc mod 65536 + unat acc div 65536 < unat acc"
    using div_mult_mod_eq [of "unat acc" 65536] by linarith
  then show "((acc AND 0xffff) + drop_bit 16 acc, acc) \<in> measure unat"
    by (simp only: in_measure checksum_carry)
qed simp

declare checksum_fold.simps [simp del]

definition ipv4_header_checksum :: "bytes \<Rightarrow> u16" where
  "ipv4_header_checksum header = NOT (ucast (checksum_fold (checksum_add 0 header)))"

definition build_dns_probe_packet :: "u32 \<Rightarrow> u16 \<Rightarrow> u16 \<Rightarrow> u16 \<Rightarrow> bytes" where
  "build_dns_probe_packet src dns_id ident sport =
     (let dns = probe_dns_query dns_id;
          udp_len = 8 + length dns;
          total_len = 20 + udp_len;
          header = [0x45, 0x00] @ to_be 2 total_len @ be_bytes16 ident @ [0x00, 0x00] @ [64] @ [17] @
            [0x00, 0x00] @ to_be 4 (unat src) @ [8, 8, 8, 8];
          csum = ipv4_header_checksum (sub header 0 20);
          header = take 10 header @ be_bytes16 csum @ drop 12 header
      in header @ be_bytes16 sport @ be_bytes16 53 @ to_be 2 udp_len @ [0x00, 0x00] @ dns)"


section \<open>Lemmas\<close>

lemma masque_varint_len_bytes: "masque_varint_len v = length (varint_bytes (unat v))"
  by (simp add: masque_varint_len_def length_varint_bytes word_less_nat_alt)

lemma quarter_le_MAX: "quarter_stream_id s \<le> MAX_VAR_INT"
proof -
  have "unat s < 2 ^ 64" using unsigned_less [of s, where 'a = nat] by simp
  then have "unat s div 4 \<le> 4611686018427387903" by simp
  then show ?thesis
    by (simp add: quarter_stream_id_def MAX_VAR_INT_def word_le_nat_alt unat_div)
qed

lemma encode_ip_datagram_bytes:
  "encode_ip_datagram sid pkt = Ok (varint_bytes (unat (quarter_stream_id sid)) @ 0 # pkt)"
proof -
  let ?q = "varint_bytes (unat (quarter_stream_id sid))"
  have "with_slice (replicate (length ?q + 1 + length pkt) 0) =
      cursor [] (replicate (length ?q + 1 + length pkt) 0)"
    by (rule with_slice_cursor)
  then show ?thesis
    by (simp add: encode_ip_datagram_def Let_def masque_varint_len_bytes CONNECT_IP_CONTEXT_ID_def
        put_varint_cursor [OF quarter_le_MAX] put_varint_cursor [of 0] MAX_VAR_INT_def
        put_bytes_cursor o_buf_cursor)
qed

lemma decode_ip_datagram_bytes:
  assumes "v < 2 ^ 62"
  shows "decode_ip_datagram (varint_bytes v @ 0 # pkt) sid =
     (if word_of_nat v = quarter_stream_id sid then Ok (Some pkt) else Ok None)"
proof -
  have "get_varint (cursor (varint_bytes v) (0 # pkt)) = Ok (0, cursor (varint_bytes v @ [0]) pkt)"
    using get_varint_cursor [of 0 "varint_bytes v" pkt] by simp
  then show ?thesis
    by (simp add: decode_ip_datagram_def with_slice_cursor [of "varint_bytes v @ 0 # pkt"]
        get_varint_cursor [OF assms, of "[]"] CONNECT_IP_CONTEXT_ID_def o_cap_cursor get_bytes_cursor Let_def)
      (simp add: with_slice_cursor as_ref_cursor)
qed

text \<open>C36. A packet put into a datagram of a stream comes out of it unchanged: encoding never fails
  and never panics, for any stream number and any packet; decoding for the same stream gives
  the packet back, and decoding for any stream of another quarter gives nothing.\<close>

theorem ip_datagram_roundtrip:
  "\<exists>d. encode_ip_datagram sid pkt = Ok d \<and> decode_ip_datagram d sid = Ok (Some pkt) \<and>
     (\<forall>other. decode_ip_datagram d other =
        (if quarter_stream_id other = quarter_stream_id sid then Ok (Some pkt) else Ok None))"
proof -
  have "unat (quarter_stream_id sid) < 2 ^ 62"
    using quarter_le_MAX MAX_VAR_INT_small by blast
  then show ?thesis
    by (auto simp: encode_ip_datagram_bytes decode_ip_datagram_bytes)
qed

lemma looks_like_ip_first: "looks_like_ip_packet (x # xs) \<Longrightarrow> unat x div 16 = 4 \<or> unat x div 16 = 6"
  unfolding looks_like_ip_packet_def by (auto simp: word_unat_eq_iff unat_high)

text \<open>The HTTP/2 stream may or may not put the context identifier before a packet; either
  way the packet is recovered: behind the one-byte context 0 it is stripped, and a bare
  packet (an IPv4 header of at least one word, or IPv6) is taken as it is.\<close>

lemma strip_datagram_context_recovers:
  assumes "looks_like_ip_packet pkt"
  shows "strip_datagram_context (0 # pkt) = Some pkt \<and>
    (hd pkt \<noteq> 0x40 \<longrightarrow> strip_datagram_context pkt = Some pkt)"
proof
  have "get_varint (with_slice (0 # pkt)) = Ok (0, cursor [0] pkt)"
    using get_varint_cursor [of 0 "[]" pkt] by (simp add: with_slice_cursor)
  then show "strip_datagram_context (0 # pkt) = Some pkt"
    using assms by (simp add: strip_datagram_context_def CONNECT_IP_CONTEXT_ID_def o_cap_cursor Let_def)
next
  obtain x y ys where pkt: "pkt = x # y # ys"
    using assms by (cases pkt rule: remdups_adj.cases) (auto simp: looks_like_ip_packet_def)
  show "hd pkt \<noteq> 0x40 \<longrightarrow> strip_datagram_context pkt = Some pkt"
  proof
    assume "hd pkt \<noteq> 0x40"
    then have ne: "unat x \<noteq> 64" by (simp add: pkt word_unat_eq_iff)
    have x: "unat x div 16 = 4 \<or> unat x div 16 = 6"
      using looks_like_ip_first assms by (simp add: pkt)
    with ne have r: "64 < unat x" "unat x < 128"
      using div_mult_mod_eq [of "unat x" 16] mod_less_divisor [of 16 "unat x"] by auto
    then have d: "unat x div 64 = 1" by (intro div_nat_eqI) auto
    then have pos: "0 < unat x mod 64"
      using r div_mult_mod_eq [of "unat x" 64] by linarith
    from d have tag: "(2::nat) = 2 ^ (unat x div 64)" by simp
    define c where "c = (unat x * 256 + unat y) mod 2 ^ 14"
    have "c < 2 ^ 14" by (simp add: c_def)
    then have u: "unat (word_of_nat c :: u64) = c"
      by (intro unat_word_of_nat_small) simp
    have "c = 256 * (unat x mod 64) + unat y"
      using mod_mult2_eq [of "unat x * 256 + unat y" 256 64] by (simp add: c_def div_add1_eq)
    with pos have "c \<noteq> 0" by simp
    with u have "(word_of_nat c :: u64) \<noteq> 0"
      by (metis unsigned_0)
    moreover have "get_varint (with_slice pkt) = Ok (word_of_nat c, cursor [x, y] ys)"
      using get_varint_read [OF tag, of "[]" "y # ys"] by (simp add: pkt with_slice_cursor c_def)
    ultimately show "strip_datagram_context pkt = Some pkt"
      using assms by (simp add: strip_datagram_context_def CONNECT_IP_CONTEXT_ID_def Let_def)
        (simp add: pkt)
  qed
qed

section \<open>The capsule stream\<close>

text \<open>The wire format of a capsule (RFC 9297): kind, length and value.\<close>

definition capsule_bytes :: "u64 \<times> bytes \<Rightarrow> bytes" where
  "capsule_bytes c = (case c of (kind, value) \<Rightarrow>
     varint_bytes (unat kind) @ varint_bytes (length value) @ value)"

definition valid_capsule :: "u64 \<times> bytes \<Rightarrow> bool" where
  "valid_capsule c = (case c of (kind, value) \<Rightarrow> kind \<le> MAX_VAR_INT \<and> length value < 2 ^ 62)"

definition capsule_front :: "bytes \<Rightarrow> ((u64 \<times> bytes) \<times> bytes) option" where
  "capsule_front bs =
     (case dec_varint bs of None \<Rightarrow> None
      | Some (k, r) \<Rightarrow>
          (case dec_varint r of None \<Rightarrow> None
           | Some (n, r) \<Rightarrow>
               if length r < n then None else Some ((word_of_nat k, take n r), drop n r)))"

interpretation capsules: prefix_codec capsule_bytes capsule_front valid_capsule
proof unfold_locales
  fix c rest
  assume valid: "valid_capsule c"
  obtain k v where c: "c = (k, v)" by (cases c)
  from valid have k: "unat k < 2 ^ 62" and v: "length v < 2 ^ 62"
    by (auto simp: c valid_capsule_def MAX_VAR_INT_small)
  show "capsule_front (capsule_bytes c @ rest) = Some (c, rest)"
    using varint.dec_enc [OF k] varint.dec_enc [OF v]
    by (simp add: c capsule_front_def capsule_bytes_def)
qed

lemma append_capsule_bytes:
  assumes "valid_capsule (kind, value)"
  shows "append_capsule out kind value = Ok (out @ capsule_bytes (kind, value))"
proof -
  have k: "kind \<le> MAX_VAR_INT" and len: "length value < 2 ^ 62"
    using assms by (auto simp: valid_capsule_def)
  have u: "unat (word_of_nat (length value) :: u64) = length value"
    using len by (intro unat_word_of_nat_small) simp
  then have l: "(word_of_nat (length value) :: u64) \<le> MAX_VAR_INT"
    using len by (simp add: MAX_VAR_INT_small)
  show ?thesis
    by (simp add: append_capsule_def capsule_len_def masque_varint_len_bytes u Let_def with_slice_cursor
        put_varint_cursor [OF k] put_varint_cursor [OF l] put_bytes_cursor o_buf_cursor
        capsule_bytes_def)
qed

lemma cp_next_front:
  "cp_next p = (case capsule_front (cp_buf p) of
      None \<Rightarrow> (Ok None, p)
    | Some ((k, v), r) \<Rightarrow> (rbind (capsule_of k v) (\<lambda>c. Ok (Some c)), p\<lparr>cp_buf := r\<rparr>))"
proof (cases "dec_varint (cp_buf p)")
  case None
  then show ?thesis
    by (simp add: cp_next_def capsule_front_def with_slice_cursor [of "cp_buf p"] get_varint_dec)
next
  case (Some kr)
  obtain k r where kr: "kr = (k, r)" by (cases kr)
  define x where "x = take (length (cp_buf p) - length r) (cp_buf p)"
  have first: "get_varint (with_slice (cp_buf p)) = Ok (word_of_nat k, cursor x r)"
    by (simp add: with_slice_cursor [of "cp_buf p"] get_varint_dec Some kr x_def)
  have split: "cp_buf p = x @ r"
    using first get_varint_Ok_wf [OF first] by (auto simp: with_slice_def cursor_def)
  show ?thesis
  proof (cases "dec_varint r")
    case None
    with first show ?thesis
      by (simp add: cp_next_def capsule_front_def Some kr get_varint_dec)
  next
    case (Some nr)
    obtain n r' where nr: "nr = (n, r')" by (cases nr)
    define y where "y = take (length r - length r') r"
    have second: "get_varint (cursor x r) = Ok (word_of_nat n, cursor (x @ y) r')"
      by (simp add: get_varint_dec Some nr y_def)
    have split': "r = y @ r'"
      using get_varint_Ok_wf [OF second] by (auto simp: cursor_def)
    have "unat (word_of_nat n :: u64) = n"
      using dec_varint_less Some nr by (intro unat_word_of_nat_small) simp
    with first second Some \<open>dec_varint (cp_buf p) = _\<close> show ?thesis
      by (simp add: cp_next_def capsule_front_def kr nr o_cap_cursor get_bytes_cursor Let_def
          with_slice_cursor as_ref_cursor o_off_cursor split split')
  qed
qed

lemma capsule_front_append:
  "capsule_front bs = Some (c, r) \<Longrightarrow> capsule_front (bs @ m) = Some (c, r @ m)"
  by (auto simp: capsule_front_def dec_varint_append split: option.splits if_splits)

lemma capsule_front_shorter: "capsule_front bs = Some (c, r) \<Longrightarrow> length r < length bs"
  by (auto simp: capsule_front_def split: option.splits if_splits dest!: dec_varint_shorter) linarith


lemma cp_next_Some_shorter: "cp_next p = (Ok (Some c), p') \<Longrightarrow> length (cp_buf p') < length (cp_buf p)"
  by (auto simp: cp_next_front dest!: capsule_front_shorter split: option.splits prod.splits)

text \<open>The callers push what the stream delivers and then take capsules until none is complete
  or one is malformed.\<close>

function cp_drain :: "capsule_parser \<Rightarrow> capsule list \<times> capsule_parser" where
  "cp_drain p =
     (case cp_next p of
        (Ok (Some c), p') \<Rightarrow> (case cp_drain p' of (cs, q) \<Rightarrow> (c # cs, q))
      | (_, p') \<Rightarrow> ([], p'))"
  by pat_completeness auto
termination
  by (relation "measure (\<lambda>p. length (cp_buf p))") (auto intro: cp_next_Some_shorter [OF sym])

declare cp_drain.simps [simp del]

fun cp_feed :: "bytes list \<Rightarrow> capsule_parser \<Rightarrow> capsule list \<times> capsule_parser" where
  "cp_feed [] p = ([], p)"
| "cp_feed (d # ds) p =
     (case cp_drain (cp_push d p) of (cs, q) \<Rightarrow>
        (case cp_feed ds q of (cs', q') \<Rightarrow> (cs @ cs', q')))"

definition good_capsule :: "(u64 \<times> bytes) \<times> capsule \<Rightarrow> bool" where
  "good_capsule x \<longleftrightarrow> valid_capsule (fst x) \<and> capsule_of (fst (fst x)) (snd (fst x)) = Ok (snd x)"

definition stream_of :: "((u64 \<times> bytes) \<times> capsule) list \<Rightarrow> bytes" where
  "stream_of xs = concat (map (capsule_bytes \<circ> fst) xs)"

lemma stream_front:
  assumes "good_capsule x"
  shows "capsule_front (stream_of (x # xs) @ tail) = Some (fst x, stream_of xs @ tail)"
  using assms capsules.dec_enc [of "fst x" "stream_of xs @ tail"]
  by (simp add: stream_of_def good_capsule_def)

lemma cp_drain_prefix:
  assumes "cp_buf p @ m = stream_of xs @ tail" "\<forall>x\<in>set xs. good_capsule x" "capsule_front tail = None"
  shows "\<exists>ys zs q. xs = ys @ zs \<and> cp_drain p = (map snd ys, q) \<and>
    cp_buf q @ m = stream_of zs @ tail \<and> capsule_front (cp_buf q) = None"
  using assms
proof (induction xs arbitrary: p)
  case Nil
  then have "capsule_front (cp_buf p) = None"
    using capsule_front_append [of "cp_buf p" _ _ m] by (cases "capsule_front (cp_buf p)") (auto simp: stream_of_def)
  with Nil show ?case
    by (intro exI [of _ "[]"] exI [of _ p]) (simp add: cp_drain.simps [of p] cp_next_front)
next
  case (Cons x xs)
  show ?case
  proof (cases "capsule_front (cp_buf p)")
    case None
    with Cons.prems show ?thesis
      by (intro exI [of _ "[]"] exI [of _ "x # xs"] exI [of _ p])
        (simp add: cp_drain.simps [of p] cp_next_front)
  next
    case (Some cr)
    obtain c r where cr: "cr = (c, r)" by (cases cr)
    have "capsule_front (stream_of (x # xs) @ tail) = Some (c, r @ m)"
      using capsule_front_append [of "cp_buf p" c r m] Some cr Cons.prems(1) by simp
    then have c: "c = fst x" and r: "r @ m = stream_of xs @ tail"
      using stream_front [of x xs tail] Cons.prems(2) by auto
    define p' where "p' = p\<lparr>cp_buf := r\<rparr>"
    obtain ys zs q where IH: "xs = ys @ zs" "cp_drain p' = (map snd ys, q)"
      "cp_buf q @ m = stream_of zs @ tail" "capsule_front (cp_buf q) = None"
      using Cons.IH [of p'] Cons.prems r by (auto simp: p'_def)
    have "cp_next p = (Ok (Some (snd x)), p')"
      using Some Cons.prems(2) by (cases "fst x") (simp add: cp_next_front cr c p'_def good_capsule_def)
    then have "cp_drain p = (map snd (x # ys), q)"
      by (simp add: cp_drain.simps [of p] IH)
    with IH show ?thesis
      by (intro exI [of _ "x # ys"] exI [of _ zs] exI [of _ q]) simp
  qed
qed

lemma cp_push_small: "length (cp_buf p) + length d \<le> MAX_CAPSULE_BUF \<Longrightarrow>
    cp_push d p = p\<lparr>cp_buf := cp_buf p @ d\<rparr>"
  by (simp add: cp_push_def saturating_add_def MAX_CAPSULE_BUF_def)

lemma cp_feed_stream:
  assumes "cp_buf p @ concat ds = stream_of xs @ tail" "\<forall>x\<in>set xs. good_capsule x"
    "capsule_front tail = None" "capsule_front (cp_buf p) = None"
    "length (stream_of xs @ tail) \<le> MAX_CAPSULE_BUF"
  shows "\<exists>q. cp_feed ds p = (map snd xs, q) \<and> cp_buf q = tail"
  using assms
proof (induction ds arbitrary: p xs)
  case Nil
  then have "xs = []"
    using stream_front [of "hd xs" "tl xs" tail] by (cases xs) auto
  with Nil show ?case by (simp add: stream_of_def)
next
  case (Cons d ds)
  define p' where "p' = p\<lparr>cp_buf := cp_buf p @ d\<rparr>"
  have "length (cp_buf p) + length d \<le> length (cp_buf p @ concat (d # ds))"
    by simp
  also have "\<dots> \<le> MAX_CAPSULE_BUF"
    unfolding Cons.prems(1) by (rule Cons.prems(5))
  finally have push: "cp_push d p = p'"
    unfolding p'_def by (rule cp_push_small)
  have "cp_buf p' @ concat ds = stream_of xs @ tail"
    using Cons.prems(1) by (simp add: p'_def)
  then obtain ys zs q where split: "xs = ys @ zs" "cp_drain p' = (map snd ys, q)"
    "cp_buf q @ concat ds = stream_of zs @ tail" "capsule_front (cp_buf q) = None"
    using cp_drain_prefix [OF _ Cons.prems(2,3)] by blast
  have "length (stream_of zs @ tail) \<le> MAX_CAPSULE_BUF"
    using Cons.prems(5) by (simp add: split(1) stream_of_def)
  then obtain q' where "cp_feed ds q = (map snd zs, q')" "cp_buf q' = tail"
    using Cons.IH [OF split(3) _ Cons.prems(3) split(4)] Cons.prems(2) by (auto simp: split(1))
  then show ?case
    by (simp add: push split)
qed




section \<open>Bounds and panics of the parser\<close>

lemma capsule_addr_len_not_Panic: "capsule_addr_len v \<noteq> Panic"
  by (simp add: capsule_addr_len_def)

lemmas read_not_Panic = get_u8_not_Panic get_bytes_not_Panic capsule_addr_len_not_Panic
  get_varint_not_Panic
lemmas read_wf = get_u8_wf get_bytes_wf get_varint_wf

lemma parse_address_assign_loop_not_Panic:
  "wf_octets b \<Longrightarrow> parse_address_assign_loop b out \<noteq> Panic"
proof (induction b out rule: parse_address_assign_loop.induct)
  case (1 b out)
  then show ?case
    by (subst parse_address_assign_loop.simps)
      (auto simp: rbind_eq_Panic read_not_Panic, (metis get_u8_not_Panic read_wf)+)
qed

lemma parse_route_advertisement_loop_not_Panic:
  "wf_octets b \<Longrightarrow> parse_route_advertisement_loop b out \<noteq> Panic"
proof (induction b out rule: parse_route_advertisement_loop.induct)
  case (1 b out)
  then show ?case
    by (subst parse_route_advertisement_loop.simps)
      (auto simp: rbind_eq_Panic read_not_Panic, (metis get_u8_not_Panic read_wf)+)
qed

lemma capsule_of_not_Panic: "capsule_of k v \<noteq> Panic"
  by (simp add: capsule_of_def rbind_eq_Panic parse_address_assign_def parse_route_advertisement_def
      parse_address_assign_loop_not_Panic parse_route_advertisement_loop_not_Panic)

datatype cp_event = CpPush bytes | CpNext

fun cp_step :: "cp_event \<Rightarrow> capsule_parser \<Rightarrow> capsule_parser" where
  "cp_step (CpPush d) p = cp_push d p"
| "cp_step CpNext p = snd (cp_next p)"

lemma cp_next_length: "length (cp_buf (snd (cp_next p))) \<le> length (cp_buf p)"
  by (auto simp: cp_next_front dest!: capsule_front_shorter split: option.splits prod.splits)

interpretation parser: invariant_machine cp_new cp_step "\<lambda>p. length (cp_buf p) \<le> MAX_CAPSULE_BUF"
proof unfold_locales
  show "length (cp_buf cp_new) \<le> MAX_CAPSULE_BUF" by (simp add: cp_new_def)
next
  fix p :: capsule_parser and e
  assume "length (cp_buf p) \<le> MAX_CAPSULE_BUF"
  with cp_next_length [of p] show "length (cp_buf (cp_step e p)) \<le> MAX_CAPSULE_BUF"
    by (cases e) (auto simp: cp_push_def saturating_add_def MAX_CAPSULE_BUF_def)
qed

text \<open>C37. Whatever the peer sends and however the calls interleave, the parser holds at most
  \<open>MAX_CAPSULE_BUF\<close> bytes and \<open>next\<close> never panics; a malformed capsule is an error that
  consumes it, so the parser makes progress on every call that is not \<open>Ok(None)\<close>.\<close>

theorem capsule_parser_safe:
  fixes p :: capsule_parser
  shows "length (cp_buf (fold cp_step es cp_new)) \<le> MAX_CAPSULE_BUF \<and> fst (cp_next p) \<noteq> Panic \<and>
   (fst (cp_next p) = Ok None \<and> snd (cp_next p) = p \<or>
    length (cp_buf (snd (cp_next p))) < length (cp_buf p))"
proof (intro conjI)
  show "length (cp_buf (fold cp_step es cp_new)) \<le> MAX_CAPSULE_BUF"
    by (rule parser.run_inv)
  show "fst (cp_next p) \<noteq> Panic"
    by (auto simp: cp_next_front rbind_eq_Panic capsule_of_not_Panic split: option.splits prod.splits)
  show "fst (cp_next p) = Ok None \<and> snd (cp_next p) = p \<or>
    length (cp_buf (snd (cp_next p))) < length (cp_buf p)"
    by (auto simp: cp_next_front dest!: capsule_front_shorter split: option.splits prod.splits)
qed

text \<open>The entries of an ADDRESS\_ASSIGN capsule (RFC 9484).\<close>

definition aa_bytes :: "assigned_address \<Rightarrow> bytes" where
  "aa_bytes a = varint_bytes (unat (request_id a)) @ [aa_ip_version a] @ aa_address a @ [prefix_len a]"

definition aa_valid :: "assigned_address \<Rightarrow> bool" where
  "aa_valid a \<longleftrightarrow> request_id a \<le> MAX_VAR_INT \<and>
     (aa_ip_version a = 4 \<and> length (aa_address a) = 4 \<or> aa_ip_version a = 6 \<and> length (aa_address a) = 16)"

lemma get_u8_cursor: "get_u8 (cursor p (x # l)) = Ok (x, cursor (p @ [x]) l)"
  by (simp add: get_u8_def get_u_cursor)

lemma capsule_addr_len_valid: "aa_valid a \<Longrightarrow> capsule_addr_len (aa_ip_version a) = Ok (length (aa_address a))"
  by (auto simp: aa_valid_def capsule_addr_len_def)

lemma parse_address_assign_loop_step:
  assumes "aa_valid a"
  shows "parse_address_assign_loop (cursor p (aa_bytes a @ l)) out =
    parse_address_assign_loop (cursor (p @ aa_bytes a) l) (out @ [a])"
proof -
  have v: "unat (request_id a) < 2 ^ 62"
    using assms by (simp add: aa_valid_def MAX_VAR_INT_small)
  have a: "\<lparr>request_id = request_id a, aa_ip_version = aa_ip_version a, aa_address = aa_address a,
      prefix_len = prefix_len a\<rparr> = a"
    by simp
  show ?thesis
    by (subst parse_address_assign_loop.simps)
      (simp add: aa_bytes_def o_cap_cursor get_varint_cursor [OF v] get_u8_cursor
        capsule_addr_len_valid [OF assms] get_bytes_cursor with_slice_cursor as_ref_cursor
        a del: assigned_address.equality)
qed

lemma parse_address_assign_loop_all:
  "list_all aa_valid as \<Longrightarrow>
   parse_address_assign_loop (cursor p (concat (map aa_bytes as))) out = Ok (out @ as)"
proof (induction as arbitrary: p out)
  case Nil
  show ?case by (subst parse_address_assign_loop.simps) (simp add: o_cap_cursor)
next
  case (Cons a as)
  then show ?case by (simp add: parse_address_assign_loop_step)
qed

text \<open>C38. An ADDRESS\_ASSIGN capsule sent by the peer is read as the assignments it carries:
  for every list of well-formed entries (IPv4 with four address bytes or IPv6 with
  sixteen) the parser, given the capsule's bytes, gives that list and an empty buffer.\<close>

theorem address_assign_roundtrip:
  assumes "list_all aa_valid as" and "length (capsule_bytes (CAPSULE_ADDRESS_ASSIGN, concat (map aa_bytes as))) \<le> MAX_CAPSULE_BUF"
  shows "cp_next (cp_push (capsule_bytes (CAPSULE_ADDRESS_ASSIGN, concat (map aa_bytes as))) cp_new) =
    (Ok (Some (AddressAssign as)), cp_new)"
proof -
  let ?v = "concat (map aa_bytes as)"
  have "valid_capsule (CAPSULE_ADDRESS_ASSIGN, ?v)"
    using assms(2) by (simp add: valid_capsule_def capsule_kinds MAX_VAR_INT_def capsule_bytes_def MAX_CAPSULE_BUF_def)
  then have "capsule_front (capsule_bytes (CAPSULE_ADDRESS_ASSIGN, ?v)) = Some ((CAPSULE_ADDRESS_ASSIGN, ?v), [])"
    using capsules.dec_enc [of "(CAPSULE_ADDRESS_ASSIGN, ?v)" "[]"] by simp
  moreover have "parse_address_assign ?v = Ok as"
    using parse_address_assign_loop_all [OF assms(1), of "[]" "[]"]
    by (simp add: parse_address_assign_def with_slice_cursor)
  ultimately show ?thesis
    using assms(2) cp_push_small [of cp_new]
    by (simp add: cp_next_front cp_new_def capsule_of_def)
qed

theorem address_assign_roundtrip_witness:
  "cp_next (cp_push [1, 7, 0, 4, 172, 16, 0, 2, 32] cp_new) =
    (Ok (Some (AddressAssign [\<lparr>request_id = 0, aa_ip_version = 4, aa_address = [172, 16, 0, 2], prefix_len = 32\<rparr>])), cp_new)"
proof -
  let ?a = "\<lparr>request_id = 0, aa_ip_version = 4, aa_address = [172, 16, 0, 2], prefix_len = 32\<rparr>"
  have "capsule_bytes (CAPSULE_ADDRESS_ASSIGN, concat (map aa_bytes [?a])) = [1, 7, 0, 4, 172, 16, 0, 2, 32]"
    by (simp add: capsule_bytes_def capsule_kinds aa_bytes_def varint_bytes_def)
  then show ?thesis
    using address_assign_roundtrip [of "[?a]"]
    by (simp add: aa_valid_def MAX_CAPSULE_BUF_def)
qed

section \<open>The header checksum\<close>

fun words_sum :: "bytes \<Rightarrow> nat" where
  "words_sum (a # b # rest) = unat a * 256 + unat b + words_sum rest"
| "words_sum [a] = unat a * 256"
| "words_sum [] = 0"

lemma unat_checksum_add:
  "unat acc + words_sum bs < 2 ^ 32 \<Longrightarrow> unat (checksum_add acc bs) = unat acc + words_sum bs"
proof (induction acc bs rule: checksum_add.induct)
  case (1 acc a b rest)
  have c: "unat (ucast (from_be16 a b) :: u32) = unat a * 256 + unat b"
    using unat_byte_less [of a] unat_byte_less [of b]
    by (simp add: unsigned_ucast_eq take_bit_nat_eq_self_iff del: unat_byte_less)
  have "unat (acc + ucast (from_be16 a b) :: u32) = unat acc + (unat a * 256 + unat b)"
    using 1(2) by (simp add: unat_word_ariths c)
  with 1 show ?case by simp
next
  case (2 acc a)
  have "unat (ucast a :: u32) = unat a"
    using unat_byte_less [of a]
    by (simp add: unsigned_ucast_eq take_bit_nat_eq_self_iff del: unat_byte_less)
  then have "unat (push_bit 8 (ucast a) :: u32) = unat a * 256"
    using unat_byte_less [of a]
    by (simp add: push_bit_eq_mult unat_word_ariths del: unat_byte_less)
  with 2 show ?case by (simp add: unat_word_ariths)
qed simp

lemma words_sum_append: "even (length xs) \<Longrightarrow> words_sum (xs @ ys) = words_sum xs + words_sum ys"
  by (induction xs rule: words_sum.induct) auto

lemma words_sum_le: "words_sum bs \<le> 65535 * length bs"
proof (induction bs rule: words_sum.induct)
  case (1 a b rest)
  have "unat a * 256 + unat b \<le> 65535"
    using unat_byte_less [of a] unat_byte_less [of b] by linarith
  with 1 show ?case by simp
next
  case (2 a)
  then show ?case using unat_byte_less [of a] by (simp del: unat_byte_less)
qed simp

lemma checksum_fold_facts:
  "unat (checksum_fold acc) < 65536 \<and> unat (checksum_fold acc) mod 65535 = unat acc mod 65535 \<and>
   (unat (checksum_fold acc) = 0 \<longleftrightarrow> unat acc = 0)"
proof (induction acc rule: checksum_fold.induct)
  case (1 acc)
  have hi: "drop_bit 16 acc = 0 \<longleftrightarrow> unat acc div 65536 = 0"
    by (simp add: word_unat_eq_iff unat_high)
  have d: "unat acc = unat acc div 65536 * 65536 + unat acc mod 65536"
    by simp
  then have "unat acc = (unat acc mod 65536 + unat acc div 65536) + unat acc div 65536 * 65535"
    by linarith
  then have m: "(unat acc mod 65536 + unat acc div 65536) mod 65535 = unat acc mod 65535"
    by (metis mod_mult_self1)
  have z: "unat acc mod 65536 + unat acc div 65536 = 0 \<longleftrightarrow> unat acc = 0"
    using d by auto
  show ?case
  proof (cases "drop_bit 16 acc = 0")
    case True
    then show ?thesis using hi by (subst (1 2 3) checksum_fold.simps) auto
  next
    case False
    with 1 m z show ?thesis
      by (subst (1 2 3) checksum_fold.simps) (simp add: checksum_carry)
  qed
qed


lemma unat_not16: "unat (NOT (x :: u16)) = 65535 - unat x"
proof -
  have "NOT x = - 1 - x" by (simp add: not_eq_complement)
  moreover have "unat (- 1 :: u16) = 65535" by (simp add: unsigned_minus_1_eq_mask mask_eq_exp_minus_1)
  ultimately show ?thesis by (simp add: unat_sub)
qed

lemma unat_ipv4_header_checksum:
  assumes "words_sum bs < 2 ^ 32"
  shows "\<exists>f. unat (ipv4_header_checksum bs) = 65535 - f \<and> f < 65536 \<and>
    f mod 65535 = words_sum bs mod 65535 \<and> (f = 0 \<longleftrightarrow> words_sum bs = 0)"
proof -
  define w where "w = checksum_fold (checksum_add 0 bs)"
  have w: "unat w < 65536" "unat w mod 65535 = words_sum bs mod 65535" "unat w = 0 \<longleftrightarrow> words_sum bs = 0"
    using checksum_fold_facts [of "checksum_add 0 bs"] unat_checksum_add [of 0 bs] assms
    by (simp_all add: w_def)
  have "unat (ucast w :: u16) = unat w"
    using w(1) by (simp add: unsigned_ucast_eq take_bit_nat_eq_self_iff)
  then have "unat (NOT (ucast w :: u16)) = 65535 - unat w"
    by (simp add: unat_not16)
  with w show ?thesis
    by (intro exI [of _ "unat w"]) (simp add: ipv4_header_checksum_def w_def)
qed

lemma words_sum_be_bytes16: "words_sum (be_bytes16 w) = unat w"
  by (rule be_bytes16_cases [of w]) (auto dest: arg_cong [where f = unat])

lemma checksum_verifies:
  assumes "even (length pre)" and "length pre + length post < 1000" and "0 < words_sum pre"
  shows "ipv4_header_checksum (pre @ be_bytes16 (ipv4_header_checksum (pre @ [0, 0] @ post)) @ post) = 0"
proof -
  define s where "s = words_sum pre + words_sum post"
  have s0: "words_sum (pre @ [0, 0] @ post) = s"
    using assms(1) by (simp add: words_sum_append s_def)
  have small: "s < 2 ^ 31"
    using words_sum_le [of pre] words_sum_le [of post] assms(2) by (simp add: s_def)
  then obtain f where c: "unat (ipv4_header_checksum (pre @ [0, 0] @ post)) = 65535 - f" "f < 65536"
    "f mod 65535 = s mod 65535"
    using unat_ipv4_header_checksum [of "pre @ [0, 0] @ post"] unfolding s0 by auto
  let ?all = "pre @ be_bytes16 (ipv4_header_checksum (pre @ [0, 0] @ post)) @ post"
  have s1: "words_sum ?all = s + (65535 - f)"
    using assms(1) by (simp add: words_sum_append words_sum_be_bytes16 c(1) [simplified] s_def)
  have small1: "s + (65535 - f) < 2 ^ 32" using small by simp
  obtain g where g: "unat (ipv4_header_checksum ?all) = 65535 - g" "g < 65536"
    "g mod 65535 = (s + (65535 - f)) mod 65535" "g = 0 \<longleftrightarrow> s + (65535 - f) = 0"
    using unat_ipv4_header_checksum [of ?all, unfolded s1, OF small1] by (elim exE conjE) (rule that)
  have "(s + (65535 - f)) mod 65535 = (f + (65535 - f)) mod 65535"
    using c(3) by (metis mod_add_left_eq)
  then have "g mod 65535 = 0" using c(2) g(3) by simp
  moreover have "g \<noteq> 0" using g(4) assms(3) by (simp add: s_def)
  ultimately have "g = 65535" using g(2) by (auto elim!: dvdE simp: mod_eq_0_iff_dvd)
  with g(1) show ?thesis by (simp add: word_unat_eq_iff)
qed

text \<open>The probe packet is a valid IPv4 datagram for every source address and every draw of
  the identifiers: the receiver's check of its header gives zero, its total length field is
  its length, its UDP length field is the length after the IPv4 header, it is addressed to
  port 53, and its payload is the query.\<close>

lemma dns_probe_packet_valid:
  "let pkt = build_dns_probe_packet src dns_id ident sport in
     ipv4_header_checksum (take 20 pkt) = 0 \<and>
     looks_like_ip_packet pkt \<and>
     be_nat (sub pkt 2 4) = length pkt \<and>
     be_nat (sub pkt 24 26) = length pkt - 20 \<and>
     be_nat (sub pkt 22 24) = 53 \<and>
     drop 28 pkt = probe_dns_query dns_id"
proof -
  define n where "n = length (probe_dns_query dns_id)"
  have n: "n = 32" by (simp add: n_def probe_dns_query_def)
  obtain i0 i1 where i: "be_bytes16 ident = [i0, i1]" by (rule be_bytes16_cases)
  obtain p0 p1 where p: "be_bytes16 sport = [p0, p1]" by (rule be_bytes16_cases)
  have "length (to_be 4 (unat src)) = 4" by simp
  then obtain a b c d where s: "to_be 4 (unat src) = [a, b, c, d]"
    by (auto simp: length_Suc_conv eval_nat_numeral simp del: to_be.simps length_to_be)
  define pre post where "pre = [0x45, 0x00, 0, 60, i0, i1, 0, 0, 64, 17 :: byte]"
    and "post = [a, b, c, d, 8, 8, 8, 8]"
  define k where "k = ipv4_header_checksum (pre @ [0, 0] @ post)"
  obtain k0 k1 where k: "be_bytes16 k = [k0, k1]" by (rule be_bytes16_cases)
  have l60: "to_be 2 60 = [0, 60]" and l40: "to_be 2 40 = [0, 40]"
    by (simp_all add: numeral_2_eq_2)
  have l53: "be_bytes16 53 = [0, 53]" by code_simp
  have pkt: "build_dns_probe_packet src dns_id ident sport =
    pre @ [k0, k1] @ post @ [p0, p1, 0, 53, 0, 40, 0, 0] @ probe_dns_query dns_id"
    unfolding build_dns_probe_packet_def n_def [symmetric] Let_def n
    using k by (simp add: i p s l60 l40 l53 sub_def pre_def post_def k_def)
  have "ipv4_header_checksum (pre @ be_bytes16 k @ post) = 0"
    unfolding k_def by (rule checksum_verifies) (simp_all add: pre_def post_def)
  then show ?thesis
    unfolding pkt by (simp add: k pre_def post_def Let_def sub_def looks_like_ip_packet_def n n_def [symmetric])
qed

end
