(* ===== verification/Net_Addr.thy ===== *)
theory Net_Addr
  imports Rust_Str
begin

text \<open>
  What the core uses of \<open>std::net\<close>: IP and socket addresses, the address parser of the
  standard library (dotted IPv4 without leading zeros, IPv6 with \<open>::\<close> and an embedded IPv4
  tail, ports and zone numbers), the printing of addresses, and the address classes that
  the routing rules name.
\<close>

section \<open>Addresses\<close>

type_synonym ipv4 = u32
type_synonym ipv6 = "128 word"

datatype ip_addr = V4 ipv4 | V6 ipv6

text \<open>A socket address; an IPv6 one has a zone number.\<close>

datatype socket_addr = SockV4 ipv4 u16 | SockV6 ipv6 u16 nat

fun sock_ip :: "socket_addr \<Rightarrow> ip_addr" where
  "sock_ip (SockV4 a p) = V4 a"
| "sock_ip (SockV6 a p z) = V6 a"

fun sock_port :: "socket_addr \<Rightarrow> u16" where
  "sock_port (SockV4 a p) = p"
| "sock_port (SockV6 a p z) = p"

fun sock_new :: "ip_addr \<Rightarrow> u16 \<Rightarrow> socket_addr" where
  "sock_new (V4 a) p = SockV4 a p"
| "sock_new (V6 a) p = SockV6 a p 0"

definition v4_octets :: "ipv4 \<Rightarrow> bytes" where
  "v4_octets a = to_be 4 (unat a)"

definition v6_octets :: "ipv6 \<Rightarrow> bytes" where
  "v6_octets a = to_be 16 (unat a)"

definition v4_of_octets :: "bytes \<Rightarrow> ipv4" where
  "v4_of_octets bs = word_of_nat (be_nat bs)"

definition v6_of_octets :: "bytes \<Rightarrow> ipv6" where
  "v6_of_octets bs = word_of_nat (be_nat bs)"

text \<open>The eight groups of an IPv6 address, most significant first.\<close>

fun groups_value :: "nat \<Rightarrow> nat list \<Rightarrow> nat" where
  "groups_value acc [] = acc"
| "groups_value acc (g # gs) = groups_value (acc * 65536 + g) gs"

definition v6_of_groups :: "nat list \<Rightarrow> ipv6" where
  "v6_of_groups gs = word_of_nat (groups_value 0 gs)"

fun to_groups :: "nat \<Rightarrow> nat \<Rightarrow> nat list" where
  "to_groups 0 x = []"
| "to_groups (Suc n) x = to_groups n (x div 65536) @ [x mod 65536]"

definition v6_segments :: "ipv6 \<Rightarrow> nat list" where
  "v6_segments a = to_groups 8 (unat a)"

lemma length_v4_octets [simp]: "length (v4_octets a) = 4"
  by (simp add: v4_octets_def)

lemma length_v6_octets [simp]: "length (v6_octets a) = 16"
  by (simp add: v6_octets_def)

lemma v4_of_octets_octets [simp]: "v4_of_octets (v4_octets a) = a"
  using unsigned_less [of a, where 'a = nat]
  by (simp add: v4_of_octets_def v4_octets_def be_nat_to_be word_unat_eq_iff unat_word_of_nat_small)

lemma v6_of_octets_octets [simp]: "v6_of_octets (v6_octets a) = a"
  using unsigned_less [of a, where 'a = nat]
  by (simp add: v6_of_octets_def v6_octets_def be_nat_to_be word_unat_eq_iff unat_word_of_nat_small)

lemma v4_octets_of_octets: "length bs = 4 \<Longrightarrow> v4_octets (v4_of_octets bs) = bs"
  using be_nat_less [of bs]
  by (simp add: v4_of_octets_def v4_octets_def unat_word_of_nat_small to_be_be_nat)

lemma v6_octets_of_octets: "length bs = 16 \<Longrightarrow> v6_octets (v6_of_octets bs) = bs"
  using be_nat_less [of bs]
  by (simp add: v6_of_octets_def v6_octets_def unat_word_of_nat_small to_be_be_nat)

section \<open>The parser\<close>

text \<open>Each reader takes the text left and gives a value and the rest, or nothing, in which
  case its caller goes on from where it was.\<close>

definition hex_digit_value :: "byte \<Rightarrow> nat option" where
  "hex_digit_value b =
     (if is_ascii_digit b then Some (unat b - 48)
      else if 97 \<le> b \<and> b \<le> 102 then Some (unat b - 87)
      else if 65 \<le> b \<and> b \<le> 70 then Some (unat b - 55)
      else None)"

definition to_digit :: "nat \<Rightarrow> byte \<Rightarrow> nat option" where
  "to_digit radix b =
     (case hex_digit_value b of Some d \<Rightarrow> if d < radix then Some d else None | None \<Rightarrow> None)"

fun radix_value :: "nat \<Rightarrow> nat \<Rightarrow> bytes \<Rightarrow> nat" where
  "radix_value radix acc [] = acc"
| "radix_value radix acc (b # bs) =
     radix_value radix (acc * radix + (case to_digit radix b of Some d \<Rightarrow> d | None \<Rightarrow> 0)) bs"

definition read_number :: "nat \<Rightarrow> nat option \<Rightarrow> bool \<Rightarrow> nat \<Rightarrow> bytes \<Rightarrow> (nat \<times> bytes) option" where
  "read_number radix max_digits allow_zero_prefix bound s =
     (let ds = takeWhile (\<lambda>b. to_digit radix b \<noteq> None) s;
          v = radix_value radix 0 ds
      in if (case max_digits of Some m \<Rightarrow> m < length ds | None \<Rightarrow> False) then None
         else if ds = [] then None
         else if \<not> allow_zero_prefix \<and> hd ds = 48 \<and> 1 < length ds then None
         else if bound \<le> v then None
         else Some (v, drop (length ds) s))"

definition read_given_char :: "byte \<Rightarrow> bytes \<Rightarrow> bytes option" where
  "read_given_char c s = (case s of b # r \<Rightarrow> if b = c then Some r else None | [] \<Rightarrow> None)"

definition read_separator :: "byte \<Rightarrow> nat \<Rightarrow> (bytes \<Rightarrow> ('a \<times> bytes) option) \<Rightarrow> bytes \<Rightarrow> ('a \<times> bytes) option" where
  "read_separator sep index inner s =
     (if 0 < index then (case read_given_char sep s of Some r \<Rightarrow> inner r | None \<Rightarrow> None) else inner s)"

fun read_octets :: "nat \<Rightarrow> nat \<Rightarrow> bytes \<Rightarrow> (nat list \<times> bytes) option" where
  "read_octets 0 i s = Some ([], s)"
| "read_octets (Suc n) i s =
     (case read_separator 46 i (read_number 10 (Some 3) False 256) s of None \<Rightarrow> None
      | Some (v, r) \<Rightarrow>
          (case read_octets n (Suc i) r of None \<Rightarrow> None | Some (vs, r') \<Rightarrow> Some (v # vs, r')))"

definition read_ipv4_addr :: "bytes \<Rightarrow> (ipv4 \<times> bytes) option" where
  "read_ipv4_addr s =
     (case read_octets 4 0 s of None \<Rightarrow> None
      | Some (vs, r) \<Rightarrow> Some (v4_of_octets (map word_of_nat vs), r))"

text \<open>\<open>read_groups\<close> with the groups still to fill: the groups read, whether they end with an
  embedded IPv4 address, and the rest.\<close>

fun read_groups :: "nat \<Rightarrow> nat \<Rightarrow> bytes \<Rightarrow> nat list \<times> bool \<times> bytes" where
  "read_groups 0 i s = ([], False, s)"
| "read_groups (Suc left) i s =
     (case (if 0 < left then read_separator 58 i read_ipv4_addr s else None) of
        Some (a, r) \<Rightarrow> ([unat a div 65536, unat a mod 65536], True, r)
      | None \<Rightarrow>
          (case read_separator 58 i (read_number 16 (Some 4) True 65536) s of
             Some (g, r) \<Rightarrow>
               (case read_groups left (Suc i) r of (gs, v4, r') \<Rightarrow> (g # gs, v4, r'))
           | None \<Rightarrow> ([], False, s)))"

definition read_ipv6_addr :: "bytes \<Rightarrow> (ipv6 \<times> bytes) option" where
  "read_ipv6_addr s =
     (case read_groups 8 0 s of (head, head_ipv4, r) \<Rightarrow>
        if length head = 8 then Some (v6_of_groups head, r)
        else if head_ipv4 then None
        else (case read_given_char 58 r of None \<Rightarrow> None
          | Some r \<Rightarrow> (case read_given_char 58 r of None \<Rightarrow> None
          | Some r \<Rightarrow>
              (case read_groups (8 - (length head + 1)) 0 r of (tail, _, r) \<Rightarrow>
                 Some (v6_of_groups (head @ replicate (8 - (length head + length tail)) 0 @ tail), r)))))"

definition read_port :: "bytes \<Rightarrow> (u16 \<times> bytes) option" where
  "read_port s =
     (case read_given_char 58 s of None \<Rightarrow> None
      | Some r \<Rightarrow> (case read_number 10 None True 65536 r of None \<Rightarrow> None
                   | Some (p, r) \<Rightarrow> Some (word_of_nat p, r)))"

definition read_scope_id :: "bytes \<Rightarrow> (nat \<times> bytes) option" where
  "read_scope_id s =
     (case read_given_char 37 s of None \<Rightarrow> None
      | Some r \<Rightarrow> read_number 10 None True (2 ^ 32) r)"

definition read_socket_addr_v4 :: "bytes \<Rightarrow> (socket_addr \<times> bytes) option" where
  "read_socket_addr_v4 s =
     (case read_ipv4_addr s of None \<Rightarrow> None
      | Some (a, r) \<Rightarrow> (case read_port r of None \<Rightarrow> None | Some (p, r) \<Rightarrow> Some (SockV4 a p, r)))"

definition read_socket_addr_v6 :: "bytes \<Rightarrow> (socket_addr \<times> bytes) option" where
  "read_socket_addr_v6 s =
     (case read_given_char 91 s of None \<Rightarrow> None
      | Some r \<Rightarrow> (case read_ipv6_addr r of None \<Rightarrow> None
      | Some (a, r) \<Rightarrow>
          (case (case read_scope_id r of Some zr \<Rightarrow> zr | None \<Rightarrow> (0, r)) of (z, r) \<Rightarrow>
             (case read_given_char 93 r of None \<Rightarrow> None
              | Some r \<Rightarrow> (case read_port r of None \<Rightarrow> None
                           | Some (p, r) \<Rightarrow> Some (SockV6 a p z, r))))))"

definition all_read :: "('a \<times> bytes) option \<Rightarrow> 'a option" where
  "all_read m = (case m of Some (x, []) \<Rightarrow> Some x | _ \<Rightarrow> None)"

text \<open>\<open>str::parse\<close> to the address types; IPv4 text longer than fifteen bytes is refused
  unread.\<close>

definition parse_ipv4 :: "str \<Rightarrow> ipv4 option" where
  "parse_ipv4 s = (if 15 < length s then None else all_read (read_ipv4_addr s))"

definition parse_ipv6 :: "str \<Rightarrow> ipv6 option" where
  "parse_ipv6 s = all_read (read_ipv6_addr s)"

definition parse_ip :: "str \<Rightarrow> ip_addr option" where
  "parse_ip s =
     all_read (case read_ipv4_addr s of Some (a, r) \<Rightarrow> Some (V4 a, r)
               | None \<Rightarrow> (case read_ipv6_addr s of Some (a, r) \<Rightarrow> Some (V6 a, r) | None \<Rightarrow> None))"

definition parse_socket_addr :: "str \<Rightarrow> socket_addr option" where
  "parse_socket_addr s =
     all_read (case read_socket_addr_v4 s of Some x \<Rightarrow> Some x | None \<Rightarrow> read_socket_addr_v6 s)"

section \<open>Printing\<close>

definition show_ipv4 :: "ipv4 \<Rightarrow> str" where
  "show_ipv4 a =
     (case v4_octets a of
        [b0, b1, b2, b3] \<Rightarrow> show_nat (unat b0) @ lit ''.'' @ show_nat (unat b1) @ lit ''.'' @
          show_nat (unat b2) @ lit ''.'' @ show_nat (unat b3)
      | _ \<Rightarrow> [])"

fun show_hex :: "nat \<Rightarrow> str" where
  "show_hex n = (let d = n mod 16; c = word_of_nat (if d < 10 then 48 + d else 87 + d)
     in if n < 16 then [c] else show_hex (n div 16) @ [c])"

declare show_hex.simps [simp del]

text \<open>The first longest run of zero groups, as its start and length.\<close>

fun zero_run :: "nat list \<Rightarrow> nat" where
  "zero_run (g # gs) = (if g = 0 then Suc (zero_run gs) else 0)"
| "zero_run [] = 0"

fun longest_zero_run :: "nat \<Rightarrow> nat list \<Rightarrow> nat \<times> nat" where
  "longest_zero_run i [] = (0, 0)"
| "longest_zero_run i (g # gs) =
     (let here = zero_run (g # gs); (s, n) = longest_zero_run (Suc i) gs
      in if n \<le> here \<and> 0 < here then (i, here) else (s, n))"

fun show_groups :: "nat list \<Rightarrow> str" where
  "show_groups [] = []"
| "show_groups [g] = show_hex g"
| "show_groups (g # gs) = show_hex g @ lit '':'' @ show_groups gs"

definition show_ipv6 :: "ipv6 \<Rightarrow> str" where
  "show_ipv6 a =
     (let gs = v6_segments a
      in if take 6 gs = [0, 0, 0, 0, 0, 65535]
         then lit ''::ffff:'' @ show_ipv4 (ucast a)
         else (case longest_zero_run 0 gs of (start, n) \<Rightarrow>
           if 1 < n then show_groups (take start gs) @ lit ''::'' @ show_groups (drop (start + n) gs)
           else show_groups gs))"

fun show_ip :: "ip_addr \<Rightarrow> str" where
  "show_ip (V4 a) = show_ipv4 a"
| "show_ip (V6 a) = show_ipv6 a"

fun show_socket_addr :: "socket_addr \<Rightarrow> str" where
  "show_socket_addr (SockV4 a p) = show_ipv4 a @ lit '':'' @ show_nat (unat p)"
| "show_socket_addr (SockV6 a p z) =
     lit ''['' @ show_ipv6 a @ (if z = 0 then [] else lit ''%'' @ show_nat z) @ lit '']:'' @ show_nat (unat p)"

section \<open>Address classes\<close>

definition oct_at :: "nat \<Rightarrow> ipv4 \<Rightarrow> nat" where
  "oct_at i a = unat a div 256 ^ (3 - i) mod 256"

definition v4_is_private :: "ipv4 \<Rightarrow> bool" where
  "v4_is_private a \<longleftrightarrow> oct_at 0 a = 10 \<or> oct_at 0 a = 172 \<and> 16 \<le> oct_at 1 a \<and> oct_at 1 a \<le> 31 \<or>
     oct_at 0 a = 192 \<and> oct_at 1 a = 168"

definition v4_is_loopback :: "ipv4 \<Rightarrow> bool" where
  "v4_is_loopback a \<longleftrightarrow> oct_at 0 a = 127"

definition v4_is_link_local :: "ipv4 \<Rightarrow> bool" where
  "v4_is_link_local a \<longleftrightarrow> oct_at 0 a = 169 \<and> oct_at 1 a = 254"

definition v4_is_broadcast :: "ipv4 \<Rightarrow> bool" where
  "v4_is_broadcast a \<longleftrightarrow> a = 0xFFFFFFFF"

definition v4_is_documentation :: "ipv4 \<Rightarrow> bool" where
  "v4_is_documentation a \<longleftrightarrow>
     oct_at 0 a = 192 \<and> oct_at 1 a = 0 \<and> oct_at 2 a = 2 \<or>
     oct_at 0 a = 198 \<and> oct_at 1 a = 51 \<and> oct_at 2 a = 100 \<or>
     oct_at 0 a = 203 \<and> oct_at 1 a = 0 \<and> oct_at 2 a = 113"

definition v4_is_unspecified :: "ipv4 \<Rightarrow> bool" where
  "v4_is_unspecified a \<longleftrightarrow> a = 0"

definition v4_is_multicast :: "ipv4 \<Rightarrow> bool" where
  "v4_is_multicast a \<longleftrightarrow> 224 \<le> oct_at 0 a \<and> oct_at 0 a \<le> 239"

definition v6_is_loopback :: "ipv6 \<Rightarrow> bool" where
  "v6_is_loopback a \<longleftrightarrow> a = 1"

definition v6_is_unspecified :: "ipv6 \<Rightarrow> bool" where
  "v6_is_unspecified a \<longleftrightarrow> a = 0"

definition v6_first_segment :: "ipv6 \<Rightarrow> u16" where
  "v6_first_segment a = ucast (drop_bit 112 a)"

lemmas v4_class_defs = v4_is_private_def v4_is_loopback_def v4_is_link_local_def v4_is_broadcast_def
  v4_is_documentation_def v4_is_unspecified_def v4_is_multicast_def

section \<open>Text that is no address\<close>

lemma read_number_None: "to_digit r b = None \<Longrightarrow> read_number r m z bound (b # s) = None"
  by (simp add: read_number_def split: option.splits)

lemma to_digit_10: "to_digit 16 b = None \<Longrightarrow> to_digit 10 b = None"
  by (auto simp: to_digit_def split: option.splits if_splits)

lemma parse_ip_letter:
  assumes "to_digit 16 b = None" "b \<noteq> 58"
  shows "parse_ip (b # s) = None"
proof -
  have "read_octets (Suc 3) 0 (b # s) = None"
    unfolding read_octets.simps read_separator_def
    by (simp add: read_number_None [OF to_digit_10 [OF assms(1)]])
  then have 4: "read_ipv4_addr (b # s) = None"
    by (simp add: read_ipv4_addr_def)
  have "read_groups (Suc 7) 0 (b # s) = ([], False, b # s)"
    unfolding read_groups.simps read_separator_def
    by (simp add: 4 read_number_None [OF assms(1)])
  then have "read_ipv6_addr (b # s) = None"
    using assms(2) by (simp add: read_ipv6_addr_def read_given_char_def)
  with 4 show ?thesis by (simp add: parse_ip_def all_read_def)
qed

end
