(* ===== verification/Sniff.thy ===== *)
theory Sniff
  imports Net_Addr
begin

text \<open>
  \<^verbatim>\<open>sniff.rs\<close>: the name of the server a new connection is for, read from its first bytes: the
  server name extension of a TLS ClientHello, or the \<open>Host\<close> header of an HTTP request.
  The accepted names are ASCII, so the lower-casing is the ASCII one.  The theory also holds
  the layout of a ClientHello, against which the readers are proved.
\<close>

section \<open>The readers\<close>

definition TLS_HANDSHAKE :: byte where "TLS_HANDSHAKE = 0x16"
definition TLS_CLIENT_HELLO :: byte where "TLS_CLIENT_HELLO = 0x01"
definition EXT_SERVER_NAME :: nat where "EXT_SERVER_NAME = 0x0000"
definition SNI_HOST_NAME :: byte where "SNI_HOST_NAME = 0x00"
definition MAX_HOST_LEN :: nat where "MAX_HOST_LEN = 253"
definition PEEK_BUDGET :: nat where "PEEK_BUDGET = 4096"

lemmas sniff_consts = TLS_HANDSHAKE_def TLS_CLIENT_HELLO_def EXT_SERVER_NAME_def SNI_HOST_NAME_def
  MAX_HOST_LEN_def PEEK_BUDGET_def

definition be16 :: "bytes \<Rightarrow> nat \<Rightarrow> nat option" where
  "be16 buf at =
     (case get_at buf at of None \<Rightarrow> None
      | Some hi \<Rightarrow> (case get_at buf (at + 1) of None \<Rightarrow> None
      | Some lo \<Rightarrow> Some (push_bit 8 (unat hi) OR unat lo)))"

definition be24 :: "bytes \<Rightarrow> nat \<Rightarrow> nat option" where
  "be24 buf at =
     (case get_at buf at of None \<Rightarrow> None
      | Some a \<Rightarrow> (case get_at buf (at + 1) of None \<Rightarrow> None
      | Some b \<Rightarrow> (case get_at buf (at + 2) of None \<Rightarrow> None
      | Some c \<Rightarrow> Some (push_bit 16 (unat a) OR push_bit 8 (unat b) OR unat c))))"

definition host_byte :: "byte \<Rightarrow> bool" where
  "host_byte b \<longleftrightarrow> is_ascii_alphanumeric b \<or> b = 45 \<or> b = 46 \<or> b = 95"

definition plausible_host :: "bytes \<Rightarrow> str option" where
  "plausible_host raw =
     (if raw = [] \<or> length raw > MAX_HOST_LEN then None
      else if \<not> utf8_valid raw then None
      else let name = trim_end_matches 46 (trim raw)
        in if name = [] \<or> length name > MAX_HOST_LEN then None
           else if \<not> list_all host_byte name \<or> 46 \<notin> set name then None
           else if parse_ip name \<noteq> None then None
           else Some (to_ascii_lowercase name))"

text \<open>The loop over the names of the extension.\<close>

function first_name_loop :: "bytes \<Rightarrow> nat \<Rightarrow> nat \<Rightarrow> str option" where
  "first_name_loop data list_end at =
     (if at + 3 \<le> list_end then
        (case get_at data at of None \<Rightarrow> None
         | Some kind \<Rightarrow> (case be16 data (at + 1) of None \<Rightarrow> None
         | Some len \<Rightarrow>
             let start = at + 3
             in (case checked_add start len of None \<Rightarrow> None
                 | Some stop \<Rightarrow>
                     if stop > list_end then None
                     else if kind = SNI_HOST_NAME then
                       (case get_range data start stop of None \<Rightarrow> None | Some raw \<Rightarrow> plausible_host raw)
                     else first_name_loop data list_end stop)))
      else None)"
  by pat_completeness auto
termination
  by (relation "measure (\<lambda>(data, list_end, at). list_end - at)") (auto simp: checked_add_Some)

definition first_server_name :: "bytes \<Rightarrow> str option" where
  "first_server_name data =
     (case be16 data 0 of None \<Rightarrow> None
      | Some list_len \<Rightarrow>
          (case checked_add 2 list_len of None \<Rightarrow> None
           | Some list_end \<Rightarrow> first_name_loop data (min list_end (length data)) 2))"

text \<open>The loop over the extensions.\<close>

function extension_loop :: "bytes \<Rightarrow> nat \<Rightarrow> nat \<Rightarrow> str option" where
  "extension_loop hello extensions_end at =
     (if at + 4 \<le> extensions_end then
        (case be16 hello at of None \<Rightarrow> None
         | Some kind \<Rightarrow> (case be16 hello (at + 2) of None \<Rightarrow> None
         | Some len \<Rightarrow>
             let data_start = at + 4
             in (case checked_add data_start len of None \<Rightarrow> None
                 | Some data_end \<Rightarrow>
                     if data_end > extensions_end then None
                     else if kind = EXT_SERVER_NAME then
                       (case get_range hello data_start data_end of None \<Rightarrow> None
                        | Some data \<Rightarrow> first_server_name data)
                     else extension_loop hello extensions_end data_end)))
      else None)"
  by pat_completeness auto
termination
  by (relation "measure (\<lambda>(hello, extensions_end, at). extensions_end - at)") (auto simp: checked_add_Some)

declare first_name_loop.simps [simp del] extension_loop.simps [simp del]

definition hello_sni :: "bytes \<Rightarrow> str option" where
  "hello_sni hello =
     (let at = 2 + 32
      in case get_at hello at of None \<Rightarrow> None
      | Some session_len \<Rightarrow> (case checked_add at (1 + unat session_len) of None \<Rightarrow> None
      | Some at \<Rightarrow> (case be16 hello at of None \<Rightarrow> None
      | Some cipher_len \<Rightarrow> (case checked_add at (2 + cipher_len) of None \<Rightarrow> None
      | Some at \<Rightarrow> (case get_at hello at of None \<Rightarrow> None
      | Some compression_len \<Rightarrow> (case checked_add at (1 + unat compression_len) of None \<Rightarrow> None
      | Some at \<Rightarrow> (case be16 hello at of None \<Rightarrow> None
      | Some extensions_len \<Rightarrow> (case checked_add at 2 of None \<Rightarrow> None
      | Some at \<Rightarrow> (case checked_add at extensions_len of None \<Rightarrow> None
      | Some extensions_end \<Rightarrow> extension_loop hello (min extensions_end (length hello)) at)))))))))"

definition tls_sni :: "bytes \<Rightarrow> str option" where
  "tls_sni buf =
     (case get_at buf 0 of None \<Rightarrow> None
      | Some first \<Rightarrow>
          if first \<noteq> TLS_HANDSHAKE then None
          else (case be16 buf 3 of None \<Rightarrow> None
      | Some record_len \<Rightarrow> (case checked_add 5 record_len of None \<Rightarrow> None
      | Some record_end \<Rightarrow> (case get_range buf 5 (min record_end (length buf)) of None \<Rightarrow> None
      | Some body \<Rightarrow> (case get_at body 0 of None \<Rightarrow> None
      | Some kind \<Rightarrow>
          if kind \<noteq> TLS_CLIENT_HELLO then None
          else (case be24 body 1 of None \<Rightarrow> None
      | Some hello_len \<Rightarrow> (case checked_add 4 hello_len of None \<Rightarrow> None
      | Some hello_end \<Rightarrow> (case get_range body 4 (min hello_end (length body)) of None \<Rightarrow> None
      | Some hello \<Rightarrow> hello_sni hello))))))))"

definition http_methods :: "str list" where
  "http_methods = [lit ''GET '', lit ''POST '', lit ''PUT '', lit ''HEAD '', lit ''DELETE '',
     lit ''OPTIONS '', lit ''PATCH '', lit ''TRACE '', lit ''CONNECT '']"

definition looks_like_http :: "str \<Rightarrow> bool" where
  "looks_like_http line \<longleftrightarrow> list_ex (\<lambda>method. starts_with line method) http_methods \<and> contains line (lit ''HTTP/'')"

definition host_without_port :: "str \<Rightarrow> str" where
  "host_without_port value =
     (case rsplit_once 58 value of
        Some (host, port) \<Rightarrow> if list_all is_ascii_digit port then host else value
      | None \<Rightarrow> value)"

fun host_header :: "str list \<Rightarrow> str option" where
  "host_header [] = None"
| "host_header (line # lines) =
     (if line = [] then None
      else (case split_once 58 line of
              None \<Rightarrow> host_header lines
            | Some (name, value) \<Rightarrow>
                if \<not> eq_ignore_ascii_case name (lit ''host'') then host_header lines
                else plausible_host (host_without_port (trim value))))"

definition http_host :: "bytes \<Rightarrow> str option" where
  "http_host buf =
     (let head_end = min (length buf) PEEK_BUDGET
      in case get_range buf 0 head_end of None \<Rightarrow> None
         | Some head \<Rightarrow>
             (case split_str [13, 10] [] (from_utf8_lossy head) of
                [] \<Rightarrow> None
              | request_line # lines \<Rightarrow>
                  if \<not> looks_like_http request_line then None else host_header lines))"

definition hostname :: "bytes \<Rightarrow> str option" where
  "hostname buf = (case tls_sni buf of Some h \<Rightarrow> Some h | None \<Rightarrow> http_host buf)"

section \<open>Big-endian fields\<close>

lemma push_or_add:
  assumes "b < 2 ^ k"
  shows "push_bit k a OR b = a * 2 ^ k + (b :: nat)"
proof -
  have "push_bit k a AND b = 0"
  proof (rule bit_eqI)
    fix n
    have "bit b n \<Longrightarrow> n < k"
      using assms by (metis bit_take_bit_iff take_bit_nat_eq_self)
    then show "bit (push_bit k a AND b) n = bit (0 :: nat) n"
      by (auto simp: bit_and_iff bit_push_bit_iff)
  qed
  then show ?thesis
    by (simp add: push_bit_eq_mult flip: disjunctive_add_eq_or)
qed

lemma be16_alt: "be16 buf at = (if at + 1 < length buf then Some (be_nat [buf ! at, buf ! (at + 1)]) else None)"
  using push_or_add [of "unat (buf ! (at + 1))" 8 "unat (buf ! at)"]
  by (auto simp: be16_def get_at_def)

lemma be24_alt: "be24 buf at = (if at + 2 < length buf then
    Some (be_nat [buf ! at, buf ! (at + 1), buf ! (at + 2)]) else None)"
proof -
  let ?a = "unat (buf ! at)" and ?b = "unat (buf ! (at + 1))" and ?c = "unat (buf ! (at + 2))"
  have c: "push_bit 8 ?b OR ?c = ?b * 256 + ?c"
    using push_or_add [of ?c 8 ?b] by simp
  have "?b * 256 + ?c < 2 ^ 16"
    using unat_byte_less [of "buf ! (at + 1)"] unat_byte_less [of "buf ! (at + 2)"]
    by (simp del: unat_byte_less)
  then have "push_bit 16 ?a OR (?b * 256 + ?c) = ?a * 65536 + ?b * 256 + ?c"
    using push_or_add [of "?b * 256 + ?c" 16 ?a] by simp
  then show ?thesis
    using c by (auto simp: be24_def get_at_def be_nat_def)
qed

text \<open>A field written in place is read back.\<close>

lemma be16_written:
  assumes "n < 65536" "length pre = i"
  shows "be16 (pre @ to_be 2 n @ rest) i = Some n"
proof -
  have "length (to_be 2 n) = 2" by simp
  then obtain a b where ab: "to_be 2 n = [a, b]" by (auto simp: length_Suc_conv numeral_2_eq_2 simp del: to_be.simps length_to_be)
  have "be_nat [a, b] = n"
    using be_nat_to_be [of 2 n] assms(1) unfolding ab by simp
  then show ?thesis using assms(2) by (auto simp: be16_alt ab nth_append)
qed

lemma be24_written:
  assumes "n < 16777216" "length pre = i"
  shows "be24 (pre @ to_be 3 n @ rest) i = Some n"
proof -
  have "length (to_be 3 n) = 3" by simp
  then obtain a b c where abc: "to_be 3 n = [a, b, c]" by (auto simp: length_Suc_conv numeral_3_eq_3 simp del: to_be.simps length_to_be)
  have "be_nat [a, b, c] = n"
    using be_nat_to_be [of 3 n] assms(1) unfolding abc by simp
  then show ?thesis using assms(2) by (auto simp: be24_alt abc nth_append)
qed

lemma get_at_written: "length pre = i \<Longrightarrow> get_at (pre @ x # rest) i = Some x"
  by auto

lemma get_range_written: "length pre = i \<Longrightarrow> i + length mid = j \<Longrightarrow> get_range (pre @ mid @ rest) i j = Some mid"
  by auto

lemmas written = be16_written be24_written get_at_written get_range_written

section \<open>The layout of a ClientHello\<close>

text \<open>An extension is its kind and its data; the server name extension holds one host name.\<close>

definition ext_bytes :: "nat \<times> bytes \<Rightarrow> bytes" where
  "ext_bytes e = to_be 2 (fst e) @ to_be 2 (length (snd e)) @ snd e"

definition exts_bytes :: "(nat \<times> bytes) list \<Rightarrow> bytes" where
  "exts_bytes es = concat (map ext_bytes es)"

definition sni_data :: "bytes \<Rightarrow> bytes" where
  "sni_data h = to_be 2 (3 + length h) @ [0] @ to_be 2 (length h) @ h"

record client_hello =
  ch_version :: bytes
  ch_random :: bytes
  ch_session :: bytes
  ch_ciphers :: bytes
  ch_compression :: bytes
  ch_before :: "(nat \<times> bytes) list"
  ch_host :: bytes
  ch_after :: "(nat \<times> bytes) list"

definition ch_extensions :: "client_hello \<Rightarrow> (nat \<times> bytes) list" where
  "ch_extensions c = ch_before c @ [(0, sni_data (ch_host c))] @ ch_after c"

definition ch_head :: "client_hello \<Rightarrow> bytes" where
  "ch_head c = ch_version c @ ch_random c @ [word_of_nat (length (ch_session c))] @ ch_session c @
     to_be 2 (length (ch_ciphers c)) @ ch_ciphers c @ [word_of_nat (length (ch_compression c))] @ ch_compression c"

definition hello_bytes :: "client_hello \<Rightarrow> bytes" where
  "hello_bytes c = ch_head c @ to_be 2 (length (exts_bytes (ch_extensions c))) @ exts_bytes (ch_extensions c)"

definition record_bytes :: "client_hello \<Rightarrow> bytes" where
  "record_bytes c =
     (let body = [0x01] @ to_be 3 (length (hello_bytes c)) @ hello_bytes c
      in [0x16, 0x03, 0x01] @ to_be 2 (length body) @ body)"

definition valid_ext :: "nat \<times> bytes \<Rightarrow> bool" where
  "valid_ext e \<longleftrightarrow> 0 < fst e \<and> fst e < 65536 \<and> length (snd e) < 65536"

definition valid_hello :: "client_hello \<Rightarrow> bool" where
  "valid_hello c \<longleftrightarrow> length (ch_version c) = 2 \<and> length (ch_random c) = 32 \<and>
     length (ch_session c) < 256 \<and> length (ch_ciphers c) < 65536 \<and> length (ch_compression c) < 256 \<and>
     list_all valid_ext (ch_before c) \<and> ch_host c \<noteq> [] \<and> length (hello_bytes c) < 65532"


lemma length_ext_bytes [simp]: "length (ext_bytes e) = 4 + length (snd e)"
  by (simp add: ext_bytes_def)

lemma length_sni_data [simp]: "length (sni_data h) = 5 + length h"
  by (simp add: sni_data_def)

lemma first_server_name_sni:
  assumes "length h < 65533"
  shows "first_server_name (sni_data h) = plausible_host h"
proof -
  have list_len: "be16 (sni_data h) 0 = Some (3 + length h)"
    using be16_written [of "3 + length h" "[]" 0] assms by (simp add: sni_data_def)
  have kind: "get_at (sni_data h) 2 = Some 0"
    using get_at_written [of "to_be 2 (3 + length h)" 2] by (simp add: sni_data_def)
  have len: "be16 (sni_data h) (2 + 1) = Some (length h)"
    using be16_written [of "length h" "to_be 2 (3 + length h) @ [0]" 3] assms by (simp add: sni_data_def)
  have raw: "get_range (sni_data h) 5 (5 + length h) = Some h"
    using get_range_written [of "to_be 2 (3 + length h) @ [0] @ to_be 2 (length h)" 5 h "5 + length h" "[]"]
    by (simp add: sni_data_def)
  have "first_name_loop (sni_data h) (5 + length h) 2 = plausible_host h"
    by (subst first_name_loop.simps, unfold kind len)
      (use assms raw in \<open>simp add: checked_add_def SNI_HOST_NAME_def\<close>)
  then show ?thesis
    using assms list_len by (simp add: first_server_name_def checked_add_def)
qed

lemma extension_loop_skip:
  assumes "valid_ext e" "length pre + length (ext_bytes e) \<le> stop" "stop < usize_bound"
  shows "extension_loop (pre @ ext_bytes e @ r) stop (length pre) =
    extension_loop (pre @ ext_bytes e @ r) stop (length pre + length (ext_bytes e))"
proof -
  let ?m = "pre @ ext_bytes e @ r"
  have kind: "be16 ?m (length pre) = Some (fst e)"
    using be16_written [of "fst e" pre] assms(1) by (simp add: ext_bytes_def valid_ext_def)
  have len: "be16 ?m (length pre + 2) = Some (length (snd e))"
    using be16_written [of "length (snd e)" "pre @ to_be 2 (fst e)"] assms(1) by (simp add: ext_bytes_def valid_ext_def)
  show ?thesis
    by (subst extension_loop.simps, unfold kind len)
      (use assms in \<open>simp add: valid_ext_def checked_add_def EXT_SERVER_NAME_def add.assoc\<close>)
qed

lemma extension_loop_sni:
  assumes "length h < 65530" "length pre + 9 + length h \<le> stop" "stop < usize_bound"
  shows "extension_loop (pre @ ext_bytes (0, sni_data h) @ r) stop (length pre) = plausible_host h"
proof -
  let ?m = "pre @ ext_bytes (0, sni_data h) @ r"
  have kind: "be16 ?m (length pre) = Some 0"
    using be16_written [of 0 pre] by (simp add: ext_bytes_def)
  have len: "be16 ?m (length pre + 2) = Some (5 + length h)"
    using be16_written [of "5 + length h" "pre @ to_be 2 0"] assms(1) by (simp add: ext_bytes_def)
  have data: "get_range ?m (length pre + 4) (length pre + 4 + (5 + length h)) = Some (sni_data h)"
    using get_range_written [of "pre @ to_be 2 0 @ to_be 2 (5 + length h)" "length pre + 4" "sni_data h"]
    by (simp add: ext_bytes_def)
  show ?thesis
    by (subst extension_loop.simps, unfold kind len)
      (use assms data in \<open>simp add: checked_add_def EXT_SERVER_NAME_def first_server_name_sni\<close>)
qed

lemma extension_loop_finds:
  assumes "list_all valid_ext es" "length h < 65530" "stop < usize_bound"
    "length pre + length (exts_bytes es) + 9 + length h \<le> stop"
  shows "extension_loop (pre @ exts_bytes es @ ext_bytes (0, sni_data h) @ r) stop (length pre) = plausible_host h"
  using assms
proof (induction es arbitrary: pre)
  case Nil
  then show ?case using extension_loop_sni [of h pre stop r] by (simp add: exts_bytes_def)
next
  case (Cons e es)
  have "extension_loop (pre @ ext_bytes e @ exts_bytes es @ ext_bytes (0, sni_data h) @ r) stop (length pre) =
      extension_loop ((pre @ ext_bytes e) @ exts_bytes es @ ext_bytes (0, sni_data h) @ r) stop (length (pre @ ext_bytes e))"
    using extension_loop_skip [of e pre stop] Cons.prems by (simp add: exts_bytes_def)
  also have "\<dots> = plausible_host h"
    using Cons.prems by (intro Cons.IH) (simp_all add: exts_bytes_def)
  finally show ?case by (simp add: exts_bytes_def)
qed

lemma exts_bytes_append [simp]: "exts_bytes (a @ b) = exts_bytes a @ exts_bytes b"
  by (simp add: exts_bytes_def)

lemma exts_bytes_Nil [simp]: "exts_bytes [] = []"
  by (simp add: exts_bytes_def)

lemma exts_bytes_Cons [simp]: "exts_bytes (e # es) = ext_bytes e @ exts_bytes es"
  by (simp add: exts_bytes_def)

lemma unat_len_byte: "n < 256 \<Longrightarrow> unat (word_of_nat n :: byte) = n"
  by (rule unat_word_of_nat_small) simp

text \<open>The offsets at which the readers look.\<close>

lemma hello_fields:
  assumes "valid_hello c"
  defines "s \<equiv> 35 + length (ch_session c)"
  defines "p \<equiv> s + 2 + length (ch_ciphers c)"
  defines "x \<equiv> p + 1 + length (ch_compression c)"
  shows "get_at (hello_bytes c) 34 = Some (word_of_nat (length (ch_session c)))"
    and "be16 (hello_bytes c) s = Some (length (ch_ciphers c))"
    and "get_at (hello_bytes c) p = Some (word_of_nat (length (ch_compression c)))"
    and "be16 (hello_bytes c) x = Some (length (exts_bytes (ch_extensions c)))"
    and "length (hello_bytes c) = x + 2 + length (exts_bytes (ch_extensions c))"
    and "length (ch_head c) = x"
proof -
  note l = assms(1) [unfolded valid_hello_def]
  have parts: "length (ch_version c @ ch_random c) = 34" using l by simp
  show "get_at (hello_bytes c) 34 = Some (word_of_nat (length (ch_session c)))"
    using get_at_written [OF parts] by (simp add: hello_bytes_def ch_head_def)
  show "be16 (hello_bytes c) s = Some (length (ch_ciphers c))"
    using be16_written [of "length (ch_ciphers c)" "ch_version c @ ch_random c @ [word_of_nat (length (ch_session c))] @ ch_session c" s] l
    by (simp add: hello_bytes_def ch_head_def s_def)
  show "get_at (hello_bytes c) p = Some (word_of_nat (length (ch_compression c)))"
    using get_at_written [of "ch_version c @ ch_random c @ [word_of_nat (length (ch_session c))] @ ch_session c @
      to_be 2 (length (ch_ciphers c)) @ ch_ciphers c" p] l
    by (simp add: hello_bytes_def ch_head_def p_def s_def)
  show head: "length (ch_head c) = x"
    using l by (simp add: ch_head_def x_def p_def s_def)
  show len: "length (hello_bytes c) = x + 2 + length (exts_bytes (ch_extensions c))"
    by (simp add: hello_bytes_def head)
  show "be16 (hello_bytes c) x = Some (length (exts_bytes (ch_extensions c)))"
    using be16_written [OF _ head] l len by (simp add: hello_bytes_def)
qed

lemma hello_sni_written:
  assumes "valid_hello c"
  shows "hello_sni (hello_bytes c) = plausible_host (ch_host c)"
proof -
  let ?pre = "ch_head c @ to_be 2 (length (exts_bytes (ch_extensions c)))"
  let ?x = "35 + length (ch_session c) + 2 + length (ch_ciphers c) + 1 + length (ch_compression c)"
  note f = hello_fields [OF assms]
  have small: "length (hello_bytes c) < 65532" "length (ch_session c) < 256" "length (ch_compression c) < 256"
    "list_all valid_ext (ch_before c)"
    using assms by (auto simp: valid_hello_def)
  have h: "length (ch_host c) < 65530"
    using small(1) f(5) by (simp add: ch_extensions_def)
  have "extension_loop (?pre @ exts_bytes (ch_before c) @ ext_bytes (0, sni_data (ch_host c)) @ exts_bytes (ch_after c))
      (length (hello_bytes c)) (length ?pre) = plausible_host (ch_host c)"
    using small h f(5,6) by (intro extension_loop_finds) (simp_all add: ch_extensions_def)
  then have loop: "extension_loop (hello_bytes c) (length (hello_bytes c)) (?x + 2) = plausible_host (ch_host c)"
    using f(6) by (simp add: hello_bytes_def ch_extensions_def)
  show ?thesis
    unfolding hello_sni_def Let_def using f small loop
    by (simp add: checked_add_def unat_len_byte add.assoc)
qed


lemma tls_sni_record:
  assumes "valid_hello c"
  shows "tls_sni (record_bytes c @ rest) = plausible_host (ch_host c)"
proof -
  let ?h = "hello_bytes c"
  let ?body = "[0x01] @ to_be 3 (length ?h) @ ?h"
  let ?n = "length ?h"
  have n: "?n < 65532" using assms by (simp add: valid_hello_def)
  have buf: "record_bytes c @ rest = [0x16, 0x03, 0x01] @ to_be 2 (length ?body) @ ?body @ rest"
    by (simp add: record_bytes_def Let_def)
  have 1: "get_at (record_bytes c @ rest) 0 = Some 0x16" by (simp add: buf)
  have 2: "be16 (record_bytes c @ rest) 3 = Some (4 + ?n)"
    unfolding buf using n be16_written [of "4 + ?n" "[0x16, 0x03, 0x01]" 3] by simp
  have 3: "get_range (record_bytes c @ rest) 5 (min (9 + ?n) (length (record_bytes c @ rest))) = Some ?body"
    unfolding buf using get_range_written [of "[0x16, 0x03, 0x01] @ to_be 2 (length ?body)" 5 ?body "9 + ?n" rest] by simp
  have 4: "be24 ?body 1 = Some ?n"
    using n be24_written [of ?n "[0x01]" 1] by simp
  have 5: "get_range ?body 4 (min (4 + ?n) (length ?body)) = Some ?h"
    using get_range_written [of "[0x01] @ to_be 3 ?n" 4 ?h "4 + ?n" "[]"] by simp
  show ?thesis
    unfolding tls_sni_def 1 option.case 2
    using n 3 4 5 hello_sni_written [OF assms]
    by (simp add: checked_add_def sniff_consts)
qed

text \<open>C22. The server name of a ClientHello is found wherever it stands: for every well-formed
  hello (any session, ciphers, compression methods, any extensions before and after the
  server name), followed by any bytes, the name reported is that of the server name
  extension, when it is a plausible host name, and nothing otherwise.\<close>

theorem tls_sni_finds:
  assumes "valid_hello c"
  shows "tls_sni (record_bytes c @ rest) = plausible_host (ch_host c)"
  by (rule tls_sni_record [OF assms])

definition demo_hello :: client_hello where
  "demo_hello = \<lparr>ch_version = [3, 3], ch_random = replicate 32 7, ch_session = [], ch_ciphers = [0x13, 0x01],
     ch_compression = [0], ch_before = [(10, [0, 2, 0, 29])], ch_host = lit ''www.Example'', ch_after = []\<rparr>"

lemma demo_hello_valid: "valid_hello demo_hello"
  by (simp add: valid_hello_def demo_hello_def hello_bytes_def ch_head_def ch_extensions_def valid_ext_def)

lemma demo_host: "plausible_host (ch_host demo_hello) = Some (lit ''www.example'')"
proof -
  have "ch_host demo_hello = lit ''www.Example''" by (simp add: demo_hello_def)
  moreover have "utf8_valid (lit ''www.Example'')" by code_simp
  moreover have "trim_end_matches 46 (trim (lit ''www.Example'')) = lit ''www.Example''" by code_simp
  moreover have "list_all host_byte (lit ''www.Example'')" "to_ascii_lowercase (lit ''www.Example'') = lit ''www.example''"
    "46 \<in> set (lit ''www.Example'')" "lit ''www.Example'' \<noteq> []" by code_simp+
  moreover have "to_digit 16 119 = None" by code_simp
  then have "parse_ip (lit ''www.Example'') = None"
    using parse_ip_letter [of 119 "lit ''ww.Example''"] by simp
  ultimately show ?thesis
    unfolding plausible_host_def by (simp add: MAX_HOST_LEN_def Let_def del: lit_Cons)
qed

theorem tls_sni_finds_witness: "tls_sni (record_bytes demo_hello @ [1, 2]) = Some (lit ''www.example'')"
  using tls_sni_finds [OF demo_hello_valid, of "[1, 2]"] demo_host by simp

section \<open>What is reported\<close>

lemma host_byte_lower: "host_byte b \<Longrightarrow> host_byte (lower_byte b)"
proof -
  assume h: "host_byte b"
  show ?thesis
  proof (cases "65 \<le> b \<and> b \<le> 90")
    case True
    then have "65 \<le> unat b" "unat b \<le> 90" by (auto simp: word_le_nat_alt)
    then have "unat (b + 32) = unat b + 32" by (simp add: unat_word_ariths)
    with True \<open>unat b \<le> 90\<close> \<open>65 \<le> unat b\<close> show ?thesis
      by (simp add: lower_byte_def host_byte_def is_ascii_alphanumeric_def is_ascii_alpha_def word_le_nat_alt)
  qed (use h in \<open>auto simp: lower_byte_def\<close>)
qed

lemma last_trim_end_matches: "trim_end_matches c s \<noteq> [] \<Longrightarrow> last (trim_end_matches c s) \<noteq> c"
  using hd_dropWhile [of "\<lambda>b. b = c" "rev s"] by (simp add: trim_end_matches_def last_rev)

lemma lower_byte_dot: "lower_byte b = 46 \<longleftrightarrow> b = 46"
proof (cases "65 \<le> b \<and> b \<le> 90")
  case True
  then have "65 \<le> unat b" "unat b \<le> 90" by (auto simp: word_le_nat_alt)
  then have "unat (b + 32) = unat b + 32" by (simp add: unat_word_ariths)
  then have "unat (b + 32) \<noteq> unat (46 :: byte)" using \<open>65 \<le> unat b\<close> by simp
  then have "b + 32 \<noteq> 46" by metis
  with True show ?thesis by (auto simp: lower_byte_def)
qed (auto simp: lower_byte_def)


definition host_name :: "str \<Rightarrow> bool" where
  "host_name h \<longleftrightarrow> h \<noteq> [] \<and> length h \<le> MAX_HOST_LEN \<and> list_all host_byte h \<and> 46 \<in> set h \<and> last h \<noteq> 46 \<and>
     to_ascii_lowercase h = h"

lemma plausible_host_name:
  assumes "plausible_host raw = Some h"
  shows "host_name h"
proof -
  let ?n = "trim_end_matches 46 (trim raw)"
  have n: "?n \<noteq> []" "length ?n \<le> MAX_HOST_LEN" "list_all host_byte ?n" "46 \<in> set ?n" and h: "h = to_ascii_lowercase ?n"
    using assms by (auto simp: plausible_host_def Let_def split: if_splits)
  have "last (map lower_byte ?n) \<noteq> 46"
    using n(1) last_trim_end_matches [OF n(1)] by (simp add: last_map lower_byte_dot)
  moreover have "46 \<in> lower_byte ` set ?n"
    using n(4) lower_byte_dot [of 46] by force
  ultimately show ?thesis
    using n by (auto simp: host_name_def h to_ascii_lowercase_def list_all_iff host_byte_lower)
qed

lemma first_name_loop_host: "first_name_loop d e at = Some h \<Longrightarrow> host_name h"
proof (induction d e at rule: first_name_loop.induct)
  case (1 d e at)
  show ?case
    using 1(2) by (subst (asm) first_name_loop.simps)
      (auto simp: Let_def split: if_splits option.splits intro: plausible_host_name 1(1))
qed

lemma extension_loop_host: "extension_loop d e at = Some h \<Longrightarrow> host_name h"
proof (induction d e at rule: extension_loop.induct)
  case (1 d e at)
  show ?case
    using 1(2) by (subst (asm) extension_loop.simps)
      (auto simp: Let_def first_server_name_def split: if_splits option.splits intro: first_name_loop_host 1(1))
qed

lemma host_header_host: "host_header ls = Some h \<Longrightarrow> host_name h"
  by (induction ls) (auto split: if_splits option.splits intro: plausible_host_name)

text \<open>Whatever the first bytes of a connection are, a name is reported only if it is one:
  non-empty, at most 253 bytes, letters, digits, hyphens, underscores and dots, at least one
  dot, none at the end, and lower case.  So a rule can never be matched against bytes a
  hostile client placed in a name field.\<close>

lemma hostname_well_formed:
  assumes "hostname buf = Some h"
  shows "h \<noteq> [] \<and> length h \<le> 253 \<and> list_all host_byte h \<and> 46 \<in> set h \<and> last h \<noteq> 46 \<and> to_ascii_lowercase h = h"
proof -
  have "host_name h"
    using assms
    by (auto simp: hostname_def tls_sni_def hello_sni_def http_host_def Let_def
        split: option.splits if_splits list.splits intro: extension_loop_host host_header_host)
  then show ?thesis by (simp add: host_name_def MAX_HOST_LEN_def)
qed

section \<open>HTTP\<close>

lemma split_crlf:
  assumes "13 \<notin> set a"
  shows "split_str [13, 10] acc (a @ 13 # 10 # b) = (rev acc @ a) # split_str [13, 10] [] (b :: bytes)"
  using assms
proof (induction a arbitrary: acc)
  case Nil
  show ?case by (subst split_str.simps) (simp add: starts_with_def)
next
  case (Cons x a)
  then show ?case by (subst split_str.simps) (simp add: starts_with_def)
qed

definition request_text :: "str \<Rightarrow> str list \<Rightarrow> str \<Rightarrow> bytes" where
  "request_text line headers rest = line @ [13, 10] @ concat (map (\<lambda>h. h @ [13, 10]) headers) @ rest"

definition other_header :: "str \<Rightarrow> bool" where
  "other_header h \<longleftrightarrow> h \<noteq> [] \<and> 13 \<notin> set h \<and> is_ascii h \<and>
     (case split_once 58 h of None \<Rightarrow> True | Some (name, _) \<Rightarrow> \<not> eq_ignore_ascii_case name (lit ''host''))"

lemma split_headers:
  assumes "list_all (\<lambda>h. 13 \<notin> set h) hs"
  shows "split_str [13, 10] [] (concat (map (\<lambda>h. h @ [13, 10]) hs) @ rest) = hs @ split_str [13, 10] [] (rest :: bytes)"
  using assms
proof (induction hs)
  case (Cons h hs)
  then show ?case using split_crlf [of h "[]"] by simp
qed simp

lemma host_header_skip: "list_all other_header hs \<Longrightarrow> host_header (hs @ ls) = host_header ls"
  by (induction hs) (auto simp: other_header_def split: option.splits)


lemma from_utf8_lossy_ascii_prefix: "is_ascii a \<Longrightarrow> from_utf8_lossy (a @ r) = a @ from_utf8_lossy r"
proof (induction a)
  case (Cons b a)
  then show ?case
    by (subst from_utf8_lossy.simps) (simp add: is_ascii_def utf8_step_ascii)
qed simp

lemma is_ascii_request:
  "is_ascii line \<Longrightarrow> list_all is_ascii hs \<Longrightarrow> is_ascii (request_text line hs [])"
  by (induction hs) (auto simp: request_text_def is_ascii_def)

text \<open>The \<open>Host\<close> header of an HTTP request is found among any other headers before it,
  whatever the case of its name and whatever follows it: the name reported is the header's
  value, trimmed and without a port, when it is a plausible host name.\<close>

lemma http_host_finds:
  assumes "looks_like_http line" and "13 \<notin> set line" and "is_ascii line"
    and "list_all other_header headers"
    and "eq_ignore_ascii_case name (lit ''host'')" and "58 \<notin> set name" and "13 \<notin> set (name @ value)"
    and "is_ascii (name @ value)"
    and "length (request_text line (headers @ [name @ [58] @ value]) rest) \<le> PEEK_BUDGET"
  shows "http_host (request_text line (headers @ [name @ [58] @ value]) rest) =
    plausible_host (host_without_port (trim value))"
proof -
  let ?hs = "headers @ [name @ [58] @ value]"
  have asc: "is_ascii (request_text line ?hs [])"
    using assms by (intro is_ascii_request) (auto simp: list_all_iff other_header_def is_ascii_def)
  have split: "request_text line ?hs rest = request_text line ?hs [] @ rest"
    by (simp add: request_text_def)
  have lossy: "from_utf8_lossy (request_text line ?hs rest) = request_text line ?hs (from_utf8_lossy rest)"
    unfolding split from_utf8_lossy_ascii_prefix [OF asc] by (simp add: request_text_def)
  have cr: "list_all (\<lambda>h. 13 \<notin> set h) ?hs"
    using assms by (auto simp: list_all_iff other_header_def)
  have lines: "split_str [13, 10] [] (request_text line ?hs (from_utf8_lossy rest)) =
      line # ?hs @ split_str [13, 10] [] (from_utf8_lossy rest)"
    using split_crlf [OF assms(2), of "[]"] split_headers [OF cr] by (simp add: request_text_def)
  have "split_once 58 (name @ [58] @ value) = Some (name, value)"
    using assms(6) by (simp add: split_once_Some)
  then have "host_header (?hs @ split_str [13, 10] [] (from_utf8_lossy rest)) = plausible_host (host_without_port (trim value))"
    using assms(4,5) by (simp add: host_header_skip)
  with lines lossy assms(1,9) show ?thesis
    by (simp add: http_host_def Let_def get_range_def min_absorb1)
qed

end
