(* ===== verification/Fragment.thy ===== *)
theory Fragment
  imports Sniff
begin

text \<open>
  \<^verbatim>\<open>fragment.rs\<close>: the stream wrapper that cuts the first writes of a connection into small
  chunks with pauses between them, the first cut inside the server name.  A random draw from
  a range is an argument reduced into the range, so that every value of the range is drawn
  for some argument.  The inner stream's answer to a write, whether a pause has passed, and
  the draws of one poll are the inputs of the poll; what the inner stream has accepted is
  part of the state.
\<close>

section \<open>Configuration\<close>

record fragment_config =
  fc_enabled :: bool
  size_min :: nat
  size_max :: nat
  delay_min_ms :: nat
  delay_max_ms :: nat
  sni_split :: bool

definition fc_disabled :: fragment_config where
  "fc_disabled = \<lparr>fc_enabled = False, size_min = 1, size_max = 1, delay_min_ms = 0, delay_max_ms = 0,
     sni_split = False\<rparr>"

definition is_truthy :: "(str \<Rightarrow> str) \<Rightarrow> str \<Rightarrow> bool" where
  "is_truthy lc v \<longleftrightarrow> lc (trim v) \<in> {lit ''1'', lit ''true'', lit ''yes'', lit ''on''}"

definition parse_range :: "str \<Rightarrow> nat \<times> nat \<Rightarrow> nat \<times> nat" where
  "parse_range spec0 dflt =
     (let spec = trim spec0
      in if spec = [] then dflt
         else (case split_once 45 spec of
                 Some (a, b) \<Rightarrow>
                   (let lo = (case parse_u64 (trim a) of Some v \<Rightarrow> v | None \<Rightarrow> fst dflt);
                        hi = (case parse_u64 (trim b) of Some v \<Rightarrow> v | None \<Rightarrow> snd dflt)
                    in if hi < lo then (hi, lo) else (lo, hi))
               | None \<Rightarrow>
                   (let v = (case parse_u64 spec of Some v \<Rightarrow> v | None \<Rightarrow> fst dflt) in (v, v))))"

definition fc_from_env :: "(str \<Rightarrow> str) \<Rightarrow> (str \<Rightarrow> str option) \<Rightarrow> fragment_config" where
  "fc_from_env lc env =
     (let flag = (\<lambda>name. case env name of Some v \<Rightarrow> is_truthy lc v | None \<Rightarrow> False);
          text = (\<lambda>name. case env name of Some v \<Rightarrow> v | None \<Rightarrow> []);
          enabled = flag (lit ''AETHER_MASQUE_H2_FRAGMENT'');
          size = parse_range (text (lit ''AETHER_MASQUE_H2_FRAGMENT_SIZE'')) (8, 16);
          delay = parse_range (text (lit ''AETHER_MASQUE_H2_FRAGMENT_DELAY'')) (2, 10);
          smin = max (fst size) 1;
          smax = max (snd size) smin
      in \<lparr>fc_enabled = enabled, size_min = smin, size_max = smax, delay_min_ms = fst delay,
          delay_max_ms = max (snd delay) (fst delay),
          sni_split = flag (lit ''AETHER_MASQUE_H2_FRAGMENT_SNI'')\<rparr>)"

definition random_range :: "nat \<Rightarrow> nat \<Rightarrow> nat \<Rightarrow> nat" where
  "random_range lo hi r = lo + r mod (hi - lo + 1)"

definition pick_chunk_len :: "fragment_config \<Rightarrow> nat \<Rightarrow> nat \<Rightarrow> nat" where
  "pick_chunk_len cfg remaining r =
     (let hi = min (max (size_max cfg) 1) remaining;
          lo = min (max (size_min cfg) 1) hi
      in if lo \<ge> hi then hi else random_range lo hi r)"

definition pick_delay :: "fragment_config \<Rightarrow> nat \<Rightarrow> nat" where
  "pick_delay cfg r =
     (if delay_max_ms cfg = 0 then 0
      else if delay_max_ms cfg \<le> delay_min_ms cfg then delay_min_ms cfg
      else random_range (delay_min_ms cfg) (delay_max_ms cfg) r)"

section \<open>The server name's place\<close>

definition take_be :: "bytes \<Rightarrow> nat \<Rightarrow> nat \<Rightarrow> nat option" where
  "take_be buf at n =
     (case checked_add at n of None \<Rightarrow> None
      | Some stop \<Rightarrow>
          (case get_range buf at stop of None \<Rightarrow> None
           | Some field \<Rightarrow> Some (fold (\<lambda>b acc. push_bit 8 acc OR unat b) field 0)))"

function sni_range_loop :: "bytes \<Rightarrow> nat \<Rightarrow> nat \<Rightarrow> (nat \<times> nat) option" where
  "sni_range_loop buf extensions_end at =
     (if at + 4 \<le> extensions_end then
        (case take_be buf at 2 of None \<Rightarrow> None
         | Some kind \<Rightarrow> (case take_be buf (at + 2) 2 of None \<Rightarrow> None
         | Some len \<Rightarrow>
             let body = at + 4
             in if kind = 0 then
                  let entry = body + 2
                  in (case take_be buf entry 1 of None \<Rightarrow> None
                      | Some t \<Rightarrow>
                          if t \<noteq> 0 then None
                          else (case take_be buf (entry + 1) 2 of None \<Rightarrow> None
                            | Some host_len \<Rightarrow>
                                let host = entry + 3
                                in if host_len = 0 \<or> host + host_len > length buf then None
                                   else Some (host, host + host_len)))
                else sni_range_loop buf extensions_end (body + len)))
      else None)"
  by pat_completeness auto
termination
  by (relation "measure (\<lambda>(buf, extensions_end, at). extensions_end - at)") auto

declare sni_range_loop.simps [simp del]

definition sni_host_range :: "bytes \<Rightarrow> (nat \<times> nat) option" where
  "sni_host_range buf =
     (case get_at buf 0 of None \<Rightarrow> None
      | Some b0 \<Rightarrow> if b0 \<noteq> 0x16 then None
          else (case get_at buf 5 of None \<Rightarrow> None
      | Some b5 \<Rightarrow> if b5 \<noteq> 0x01 then None
          else let at = 43
            in (case take_be buf at 1 of None \<Rightarrow> None
      | Some n \<Rightarrow> let at = at + 1 + n
            in (case take_be buf at 2 of None \<Rightarrow> None
      | Some n \<Rightarrow> let at = at + 2 + n
            in (case take_be buf at 1 of None \<Rightarrow> None
      | Some n \<Rightarrow> let at = at + 1 + n
            in (case take_be buf at 2 of None \<Rightarrow> None
      | Some n \<Rightarrow> sni_range_loop buf (at + 2 + n) (at + 2)))))))"

section \<open>The stream\<close>

datatype poll = Pending | Ready nat | Failed str

text \<open>\<open>pending_delay\<close> is the pause still to wait, in milliseconds.\<close>

record fragmenting_stream =
  fs_accepted :: bytes
  fs_cfg :: fragment_config
  fragmenting :: bool
  first_write :: bool
  pending_delay :: "nat option"

definition fs_new :: "fragment_config \<Rightarrow> fragmenting_stream" where
  "fs_new cfg = \<lparr>fs_accepted = [], fs_cfg = cfg, fragmenting = fc_enabled cfg, first_write = True,
     pending_delay = None\<rparr>"

definition poll_read :: "fragmenting_stream \<Rightarrow> fragmenting_stream" where
  "poll_read s = s\<lparr>fragmenting := False\<rparr>"

text \<open>The inner stream answers an offer of \<open>buf\<close> with \<open>answer\<close>: of a write it accepts at most
  what it was offered.\<close>

definition inner_write :: "(bytes \<Rightarrow> poll) \<Rightarrow> bytes \<Rightarrow> fragmenting_stream \<Rightarrow> poll \<times> fragmenting_stream" where
  "inner_write answer buf s =
     (case answer buf of
        Ready n \<Rightarrow> (Ready (min n (length buf)), s\<lparr>fs_accepted := fs_accepted s @ take n buf\<rparr>)
      | other \<Rightarrow> (other, s))"

definition chunk_len :: "fragmenting_stream \<Rightarrow> bytes \<Rightarrow> nat \<Rightarrow> nat" where
  "chunk_len s buf r =
     (let targeted =
        (if first_write s \<and> sni_split (fs_cfg s)
         then map_option (\<lambda>(start, stop). start + (stop - start) div 2) (sni_host_range buf) else None)
      in case targeted of
           Some split \<Rightarrow> if split > 0 \<and> split < length buf then split
             else pick_chunk_len (fs_cfg s) (length buf) r
         | None \<Rightarrow> pick_chunk_len (fs_cfg s) (length buf) r)"

definition poll_write :: "(bytes \<Rightarrow> poll) \<Rightarrow> bool \<Rightarrow> nat \<Rightarrow> nat \<Rightarrow> bytes \<Rightarrow> fragmenting_stream \<Rightarrow> poll \<times> fragmenting_stream" where
  "poll_write answer slept r_len r_delay buf s =
     (if buf = [] \<or> \<not> fragmenting s then inner_write answer buf s
      else if pending_delay s \<noteq> None \<and> \<not> slept then (Pending, s)
      else
        let s = s\<lparr>pending_delay := None\<rparr>
        in (case inner_write answer (take (chunk_len s buf r_len) buf) s of
              (Ready n, s) \<Rightarrow>
                (if n > 0 then
                   let s = s\<lparr>first_write := False\<rparr>;
                       delay = pick_delay (fs_cfg s) r_delay
                   in (Ready n, if delay \<noteq> 0 then s\<lparr>pending_delay := Some delay\<rparr> else s)
                 else (Ready n, s))
            | other \<Rightarrow> other))"


section \<open>Bounds\<close>

lemma random_range_bounds: "lo \<le> hi \<Longrightarrow> lo \<le> random_range lo hi r \<and> random_range lo hi r \<le> hi"
  using mod_less_divisor [of "hi - lo + 1" r] unfolding random_range_def by linarith

lemma random_range_reaches: "lo \<le> v \<Longrightarrow> v \<le> hi \<Longrightarrow> \<exists>r. random_range lo hi r = v"
  by (rule exI [of _ "v - lo"]) (simp add: random_range_def)

lemma pick_chunk_len_bounds:
  assumes "0 < n"
  shows "1 \<le> pick_chunk_len cfg n r \<and> pick_chunk_len cfg n r \<le> n \<and> pick_chunk_len cfg n r \<le> max (size_max cfg) 1"
proof -
  define hi where "hi = min (max (size_max cfg) 1) n"
  define lo where "lo = min (max (size_min cfg) 1) hi"
  have "lo \<le> hi" "1 \<le> lo" "hi \<le> n" "hi \<le> max (size_max cfg) 1"
    using assms by (auto simp: lo_def hi_def)
  moreover have "pick_chunk_len cfg n r = (if lo \<ge> hi then hi else random_range lo hi r)"
    by (simp only: pick_chunk_len_def Let_def hi_def lo_def)
  ultimately show ?thesis
    using random_range_bounds [of lo hi r] by auto
qed

lemma chunk_len_bounds: "buf \<noteq> [] \<Longrightarrow> 1 \<le> chunk_len s buf r \<and> chunk_len s buf r \<le> length buf"
  using pick_chunk_len_bounds [of "length buf" "fs_cfg s" r]
  by (auto simp: chunk_len_def Let_def split: option.splits)

lemma parse_range_ordered: "fst d \<le> snd d \<Longrightarrow> fst (parse_range spec d) \<le> snd (parse_range spec d)"
  by (auto simp: parse_range_def Let_def split: option.splits)

text \<open>C25. Whatever the environment holds, the configuration is usable: chunks are at least one
  byte, the bounds of the sizes and of the pauses are in order, so that every range drawn
  from is non-empty; and for any configuration and any non-empty buffer the chunk offered is
  non-empty and within the buffer, so slicing it never panics.\<close>

theorem fragment_bounds:
  assumes "buf \<noteq> []"
  shows "1 \<le> size_min (fc_from_env lc env) \<and> size_min (fc_from_env lc env) \<le> size_max (fc_from_env lc env) \<and>
    delay_min_ms (fc_from_env lc env) \<le> delay_max_ms (fc_from_env lc env) \<and>
    1 \<le> chunk_len s buf r \<and> chunk_len s buf r \<le> length buf"
  using chunk_len_bounds [OF assms] by (simp add: fc_from_env_def Let_def)

theorem fragment_bounds_witness:
  "[7 :: byte] \<noteq> [] \<and> 1 \<le> chunk_len (fs_new fc_disabled) [7] 3 \<and> chunk_len (fs_new fc_disabled) [7] 3 \<le> length [7 :: byte]"
  using fragment_bounds [of "[7]" id "\<lambda>_. None" "fs_new fc_disabled" 3] by simp

section \<open>Nothing is lost\<close>

text \<open>A caller that has \<open>data\<close> left to write polls, and drops what was accepted; reads may come
  between.\<close>

datatype fs_event = Write "bytes \<Rightarrow> poll" bool nat nat | Read

fun drive :: "fs_event \<Rightarrow> bytes \<times> fragmenting_stream \<Rightarrow> bytes \<times> fragmenting_stream" where
  "drive (Write answer slept r_len r_delay) (data, s) =
     (case poll_write answer slept r_len r_delay data s of
        (Ready n, s') \<Rightarrow> (drop n data, s')
      | (_, s') \<Rightarrow> (data, s'))"
| "drive Read (data, s) = (data, poll_read s)"

lemma inner_write_accepts:
  "inner_write answer buf s = (p, s') \<Longrightarrow>
   (case p of Ready n \<Rightarrow> n \<le> length buf \<and> fs_accepted s' = fs_accepted s @ take n buf
    | _ \<Rightarrow> fs_accepted s' = fs_accepted s)"
  by (auto simp: inner_write_def min_def split: poll.splits)

lemma poll_write_accepts:
  assumes "poll_write answer slept r1 r2 buf s = (p, s')"
  shows "case p of Ready n \<Rightarrow> n \<le> length buf \<and> fs_accepted s' = fs_accepted s @ take n buf
    | _ \<Rightarrow> fs_accepted s' = fs_accepted s"
proof (cases "buf = [] \<or> \<not> fragmenting s")
  case True
  with assms inner_write_accepts [of answer buf s p s'] show ?thesis by (simp add: poll_write_def)
next
  case False
  show ?thesis
  proof (cases "pending_delay s \<noteq> None \<and> \<not> slept")
    case True
    with False assms show ?thesis by (auto simp: poll_write_def)
  next
    case ready: False
    let ?s = "s\<lparr>pending_delay := None\<rparr>"
    let ?k = "chunk_len ?s buf r1"
    obtain p1 s1 where w: "inner_write answer (take ?k buf) ?s = (p1, s1)" by fastforce
    have k: "?k \<le> length buf" using False chunk_len_bounds by auto
    have "p = p1" "fs_accepted s' = fs_accepted s1"
      using assms False ready w by (auto simp: poll_write_def Let_def split: poll.splits if_splits)
    moreover have "min (length buf) ?k = ?k" using k by simp
    ultimately show ?thesis
      using inner_write_accepts [OF w] k by (cases p1) (simp_all add: min_absorb1)
  qed
qed

lemma drive_conserves:
  assumes "drive e (d, s) = (d', s')"
  shows "fs_accepted s' @ d' = fs_accepted s @ d"
proof (cases e)
  case (Write a sl r1 r2)
  obtain p t where w: "poll_write a sl r1 r2 d s = (p, t)" by fastforce
  with assms Write poll_write_accepts [OF w] show ?thesis by (cases p) auto
next
  case Read
  with assms show ?thesis by (auto simp: poll_read_def)
qed

interpretation fragments: invariant_machine "(data, fs_new cfg)" drive "\<lambda>(d, s). fs_accepted s @ d = data" for data cfg
proof unfold_locales
  show "case (data, fs_new cfg) of (d, s) \<Rightarrow> fs_accepted s @ d = data" by (simp add: fs_new_def)
next
  fix x :: "bytes \<times> fragmenting_stream" and e
  assume "case x of (d, s) \<Rightarrow> fs_accepted s @ d = data"
  with drive_conserves [of e "fst x" "snd x" "fst (drive e x)" "snd (drive e x)"]
  show "case drive e x of (d, s) \<Rightarrow> fs_accepted s @ d = data" by (auto simp: case_prod_beta)
qed

text \<open>C13. Cutting never changes what is sent: for every configuration, every data, every
  interleaving of polls and reads, whatever the inner stream accepts of each offer and
  however the pauses end, the bytes the inner stream has accepted followed by the bytes
  still to be written are the data, in order.\<close>

theorem fragments_conserve:
  "case fold drive es (data, fs_new cfg) of (rest, s) \<Rightarrow> fs_accepted s @ rest = data"
  by (rule fragments.run_inv)


section \<open>The cut falls inside the server name\<close>

lemma fold_be: "fold (\<lambda>b acc. push_bit 8 acc OR unat b) bs a = be_nat_acc a bs"
proof (induction bs arbitrary: a)
  case (Cons b bs)
  have "push_bit 8 a OR unat b = a * 256 + unat b"
    using push_or_add [of "unat b" 8 a] by simp
  with Cons show ?case by simp
qed simp

lemma take_be_range: "at + n < usize_bound \<Longrightarrow> take_be buf at n = map_option be_nat (get_range buf at (at + n))"
  by (auto simp: take_be_def checked_add_def fold_be be_nat_def split: option.splits)

lemma take_be_1: "at + 1 < usize_bound \<Longrightarrow> take_be buf at 1 = map_option unat (get_at buf at)"
  by (auto simp: take_be_range get_range_def get_at_def take_Suc_conv_app_nth hd_drop_conv_nth take_Suc)

lemma take_be_2: "at + 2 < usize_bound \<Longrightarrow> take_be buf at 2 = be16 buf at"
  using sub_two [of at buf] by (auto simp: take_be_range get_range_def be16_alt sub_def)

lemma be16_shift: "be16 h i = Some v \<Longrightarrow> length pre = k \<Longrightarrow> be16 (pre @ h @ rest) (k + i) = Some v"
  by (auto simp: be16_alt nth_append split: if_splits)

lemma get_at_shift: "get_at h i = Some v \<Longrightarrow> length pre = k \<Longrightarrow> get_at (pre @ h @ rest) (k + i) = Some v"
  by (auto simp: get_at_def nth_append split: if_splits)

lemma sni_range_skip:
  assumes "valid_ext e" "length pre + length (ext_bytes e) \<le> stop" "stop < usize_bound"
  shows "sni_range_loop (pre @ ext_bytes e @ r) stop (length pre) =
    sni_range_loop (pre @ ext_bytes e @ r) stop (length pre + length (ext_bytes e))"
proof -
  let ?m = "pre @ ext_bytes e @ r"
  have kind: "take_be ?m (length pre) 2 = Some (fst e)"
    using be16_written [of "fst e" pre] assms by (simp add: ext_bytes_def valid_ext_def take_be_2)
  have len: "take_be ?m (length pre + 2) 2 = Some (length (snd e))"
    using be16_written [of "length (snd e)" "pre @ to_be 2 (fst e)"] assms by (simp add: ext_bytes_def valid_ext_def take_be_2)
  show ?thesis
    by (subst sni_range_loop.simps, unfold kind len)
      (use assms in \<open>simp add: valid_ext_def add.assoc\<close>)
qed

lemma sni_range_found:
  assumes "h \<noteq> []" "length h < 65530" "length pre + 9 + length h \<le> stop" "stop + 65536 < usize_bound"
  shows "sni_range_loop (pre @ ext_bytes (0, sni_data h) @ r) stop (length pre) =
    Some (length pre + 9, length pre + 9 + length h)"
proof -
  let ?m = "pre @ ext_bytes (0, sni_data h) @ r"
  have kind: "take_be ?m (length pre) 2 = Some 0"
    using be16_written [of 0 pre] assms by (simp add: ext_bytes_def take_be_2)
  have len: "take_be ?m (length pre + 2) 2 = Some (5 + length h)"
    using be16_written [of "5 + length h" "pre @ to_be 2 0"] assms by (simp add: ext_bytes_def take_be_2)
  have ext: "ext_bytes (0, sni_data h) = to_be 2 0 @ to_be 2 (5 + length h) @ sni_data h"
    by (simp add: ext_bytes_def)
  have m: "?m = (pre @ to_be 2 0 @ to_be 2 (5 + length h) @ to_be 2 (3 + length h)) @ 0 # to_be 2 (length h) @ h @ r"
    unfolding ext by (simp add: sni_data_def)
  have g: "get_at ?m (length pre + 4 + 2) = Some 0"
    unfolding m by (rule get_at_written) simp
  have "take_be ?m (length pre + 4 + 2) 1 = map_option unat (get_at ?m (length pre + 4 + 2))"
    by (rule take_be_1) (use assms in simp)
  then have t: "take_be ?m (length pre + 4 + 2) 1 = Some 0"
    unfolding g by simp
  have m': "?m = (pre @ to_be 2 0 @ to_be 2 (5 + length h) @ to_be 2 (3 + length h) @ [0]) @ to_be 2 (length h) @ h @ r"
    unfolding m by simp
  have g': "be16 ?m (length pre + 4 + 2 + 1) = Some (length h)"
    unfolding m' using assms by (intro be16_written) simp_all
  have "take_be ?m (length pre + 4 + 2 + 1) 2 = be16 ?m (length pre + 4 + 2 + 1)"
    by (rule take_be_2) (use assms in simp)
  then have hl: "take_be ?m (length pre + 4 + 2 + 1) 2 = Some (length h)"
    unfolding g' .
  show ?thesis
    by (subst sni_range_loop.simps, unfold kind len option.case Let_def t hl)
      (use assms in \<open>simp add: add.assoc\<close>)
qed

lemma sni_range_finds:
  assumes "list_all valid_ext es" "h \<noteq> []" "length h < 65530" "stop + 65536 < usize_bound"
    "length pre + length (exts_bytes es) + 9 + length h \<le> stop"
  shows "sni_range_loop (pre @ exts_bytes es @ ext_bytes (0, sni_data h) @ r) stop (length pre) =
    Some (length (pre @ exts_bytes es) + 9, length (pre @ exts_bytes es) + 9 + length h)"
  using assms
proof (induction es arbitrary: pre)
  case Nil
  then show ?case using sni_range_found [of h pre stop r] by simp
next
  case (Cons e es)
  have "sni_range_loop (pre @ ext_bytes e @ exts_bytes es @ ext_bytes (0, sni_data h) @ r) stop (length pre) =
      sni_range_loop ((pre @ ext_bytes e) @ exts_bytes es @ ext_bytes (0, sni_data h) @ r) stop (length (pre @ ext_bytes e))"
    using sni_range_skip [of e pre stop] Cons.prems by simp
  also have "\<dots> = Some (length ((pre @ ext_bytes e) @ exts_bytes es) + 9, length ((pre @ ext_bytes e) @ exts_bytes es) + 9 + length h)"
    using Cons.prems by (intro Cons.IH) simp_all
  finally show ?case by simp
qed

definition host_offset :: "client_hello \<Rightarrow> nat" where
  "host_offset c = 9 + length (ch_head c) + 2 + length (exts_bytes (ch_before c)) + 9"

lemma sni_host_range_record:
  assumes "valid_hello c"
  shows "sni_host_range (record_bytes c @ rest) = Some (host_offset c, host_offset c + length (ch_host c))"
proof -
  let ?h = "hello_bytes c"
  let ?front = "[0x16, 0x03, 0x01] @ to_be 2 (4 + length ?h) @ [0x01] @ to_be 3 (length ?h)"
  have buf: "record_bytes c @ rest = ?front @ ?h @ rest"
    by (simp add: record_bytes_def Let_def)
  have front: "length ?front = 9" by simp
  note f = hello_fields [OF assms]
  have small: "length ?h < 65532" "list_all valid_ext (ch_before c)" "ch_host c \<noteq> []"
    "length (ch_session c) < 256" "length (ch_compression c) < 256"
    using assms by (auto simp: valid_hello_def)
  have host: "length (ch_host c) < 65530"
    using small(1) f(5) by (simp add: ch_extensions_def)
  have first: "get_at (record_bytes c @ rest) 0 = Some 0x16" by (simp add: buf)
  have kind: "get_at (record_bytes c @ rest) 5 = Some 0x01"
    using get_at_written [of "[0x16, 0x03, 0x01] @ to_be 2 (4 + length ?h)" 5 "0x01"] by (simp add: buf)
  have at1: "take_be (record_bytes c @ rest) i 1 = Some (unat v)"
    if "get_at ?h k = Some v" "i = 9 + k" "k < 65536" for i k v
    using get_at_shift [OF that(1) front, of rest] that(2,3) by (subst take_be_1) (simp_all add: buf)
  have at2: "take_be (record_bytes c @ rest) i 2 = Some v"
    if "be16 ?h k = Some v" "i = 9 + k" "k < 65536" for i k v
    using be16_shift [OF that(1) front, of rest] that(2,3) by (subst take_be_2) (simp_all add: buf)
  have 1: "take_be (record_bytes c @ rest) 43 1 = Some (length (ch_session c))"
    using at1 [OF f(1)] small by (simp add: unat_len_byte)
  have 2: "take_be (record_bytes c @ rest) (43 + 1 + length (ch_session c)) 2 = Some (length (ch_ciphers c))"
    using small f(5) by (intro at2 [OF f(2)]) simp_all
  have 3: "take_be (record_bytes c @ rest) (43 + 1 + length (ch_session c) + 2 + length (ch_ciphers c)) 1 = Some (length (ch_compression c))"
    using at1 [OF f(3), of "43 + 1 + length (ch_session c) + 2 + length (ch_ciphers c)"] small f(5) by (simp add: unat_len_byte)
  have 4: "take_be (record_bytes c @ rest) (43 + 1 + length (ch_session c) + 2 + length (ch_ciphers c) + 1 + length (ch_compression c)) 2 =
      Some (length (exts_bytes (ch_extensions c)))"
    using small f(5) by (intro at2 [OF f(4)]) simp_all
  let ?pre = "?front @ ch_head c @ to_be 2 (length (exts_bytes (ch_extensions c)))"
  have "sni_range_loop (?pre @ exts_bytes (ch_before c) @ ext_bytes (0, sni_data (ch_host c)) @ exts_bytes (ch_after c) @ rest)
      (9 + length ?h) (length ?pre) = Some (length (?pre @ exts_bytes (ch_before c)) + 9, length (?pre @ exts_bytes (ch_before c)) + 9 + length (ch_host c))"
    using small host f(5,6) by (intro sni_range_finds) (simp_all add: ch_extensions_def)
  then have loop: "sni_range_loop (record_bytes c @ rest) (9 + length ?h) (11 + length (ch_head c)) =
      Some (host_offset c, host_offset c + length (ch_host c))"
    by (simp add: buf hello_bytes_def ch_extensions_def host_offset_def add.assoc)
  show ?thesis
    unfolding sni_host_range_def first kind option.case Let_def 1 2 3 4
    using loop f(5,6) by (simp add: add.assoc)
qed


lemma host_slice:
  assumes "valid_hello c"
  shows "sub (record_bytes c @ rest) (host_offset c) (host_offset c + length (ch_host c)) = ch_host c"
    and "host_offset c + length (ch_host c) \<le> length (record_bytes c @ rest)"
proof -
  let ?h = "hello_bytes c"
  let ?pre = "[0x16, 0x03, 0x01] @ to_be 2 (4 + length ?h) @ [0x01] @ to_be 3 (length ?h) @ ch_head c @
    to_be 2 (length (exts_bytes (ch_extensions c))) @ exts_bytes (ch_before c) @
    to_be 2 0 @ to_be 2 (5 + length (ch_host c)) @ to_be 2 (3 + length (ch_host c)) @ [0] @ to_be 2 (length (ch_host c))"
  have ext: "ext_bytes (0, sni_data (ch_host c)) = to_be 2 0 @ to_be 2 (5 + length (ch_host c)) @ sni_data (ch_host c)"
    by (simp add: ext_bytes_def)
  have "record_bytes c @ rest = ?pre @ ch_host c @ exts_bytes (ch_after c) @ rest"
    by (simp add: record_bytes_def Let_def hello_bytes_def ch_extensions_def ext) (simp add: sni_data_def)
  moreover have "length ?pre = host_offset c" by (simp add: host_offset_def)
  ultimately show "sub (record_bytes c @ rest) (host_offset c) (host_offset c + length (ch_host c)) = ch_host c"
    and "host_offset c + length (ch_host c) \<le> length (record_bytes c @ rest)"
    using sub_append_mid [of ?pre "ch_host c" "exts_bytes (ch_after c) @ rest"] by auto
qed

text \<open>C23. The sniffer and the fragmenter see the same server name: on every well-formed
  ClientHello, followed by any bytes, the range the fragmenter finds holds exactly the
  extension's host name, and the name the sniffer reports is that of the range.\<close>

theorem sni_readers_agree:
  assumes "valid_hello c"
  shows "\<exists>a b. sni_host_range (record_bytes c @ rest) = Some (a, b) \<and> b \<le> length (record_bytes c @ rest) \<and>
    sub (record_bytes c @ rest) a b = ch_host c \<and>
    tls_sni (record_bytes c @ rest) = plausible_host (sub (record_bytes c @ rest) a b)"
  using sni_host_range_record [OF assms] host_slice [OF assms] tls_sni_record [OF assms] by simp

theorem sni_readers_agree_witness:
  "\<exists>a b. sni_host_range (record_bytes demo_hello) = Some (a, b) \<and> sub (record_bytes demo_hello) a b = lit ''www.Example''"
  using sni_readers_agree [OF demo_hello_valid, of "[]"] by (auto simp: demo_hello_def)

lemma first_poll:
  assumes "fc_enabled cfg" "buf \<noteq> []" "chunk_len (fs_new cfg\<lparr>pending_delay := None\<rparr>) buf r1 = k" "0 < k" "k < length buf"
  shows "\<exists>s'. poll_write (\<lambda>b. Ready (length b)) slept r1 r2 buf (fs_new cfg) = (Ready k, s') \<and>
    fs_accepted s' = take k buf \<and> \<not> first_write s'"
  using assms by (simp add: poll_write_def inner_write_def fs_new_def Let_def)

text \<open>C24. With the server name split on, the first write of a ClientHello ends strictly inside
  the host name, so no single chunk carries it whole: whatever the sizes configured, the
  stream offers exactly the bytes up to the middle of the name.\<close>

theorem sni_cut_inside_host:
  assumes "valid_hello c" and "2 \<le> length (ch_host c)" and "fc_enabled cfg" and "sni_split cfg"
  shows "\<exists>k s'. poll_write (\<lambda>b. Ready (length b)) slept r1 r2 (record_bytes c @ rest) (fs_new cfg) = (Ready k, s') \<and>
    fs_accepted s' = take k (record_bytes c @ rest) \<and>
    host_offset c < k \<and> k < host_offset c + length (ch_host c) \<and> \<not> first_write s'"
proof -
  let ?buf = "record_bytes c @ rest"
  let ?k = "host_offset c + length (ch_host c) div 2"
  have ne: "?buf \<noteq> []" by (simp add: record_bytes_def Let_def)
  have k: "host_offset c < ?k" "?k < host_offset c + length (ch_host c)" using assms(2) by auto
  then have kl: "?k < length ?buf" using host_slice(2) [OF assms(1), of rest] by linarith
  have "chunk_len (fs_new cfg\<lparr>pending_delay := None\<rparr>) ?buf r1 = ?k"
    using assms(4) kl sni_host_range_record [OF assms(1)]
    by (simp add: chunk_len_def fs_new_def Let_def host_offset_def)
  then obtain s' where "poll_write (\<lambda>b. Ready (length b)) slept r1 r2 ?buf (fs_new cfg) = (Ready ?k, s')"
    "fs_accepted s' = take ?k ?buf" "\<not> first_write s'"
    using first_poll [OF assms(3) ne _ _ kl, of r1 slept r2] k(1) by auto
  with k show ?thesis
    by (intro exI [of _ ?k] exI [of _ s'] conjI) assumption+
qed

theorem sni_cut_inside_host_witness:
  "\<exists>k s'. poll_write (\<lambda>b. Ready (length b)) True 0 0 (record_bytes demo_hello)
      (fs_new (fc_disabled\<lparr>fc_enabled := True, sni_split := True\<rparr>)) = (Ready k, s') \<and>
     host_offset demo_hello < k \<and> k < host_offset demo_hello + 11"
proof -
  have "2 \<le> length (ch_host demo_hello)" "length (ch_host demo_hello) = 11" by (simp_all add: demo_hello_def)
  then show ?thesis
    using sni_cut_inside_host [OF demo_hello_valid, of "fc_disabled\<lparr>fc_enabled := True, sni_split := True\<rparr>" True 0 0 "[]"]
    by auto
qed

end
