(* ===== verification/Routing.thy ===== *)
theory Routing
  imports Net_Addr "HOL-Library.Product_Lexorder"
begin

text \<open>
  \<^verbatim>\<open>routing.rs\<close>: the rules that send a flow to the tunnel, past it, or nowhere.  A rule list is
  parsed into matchers, and the matchers are indexed (hash sets of domains, merged and
  sorted IPv4 ranges, a short list of the rest).  The regular expressions, the CIDR type of
  the \<open>ipnet\<close> crate and Unicode's lower-casing are the parameter \<open>crates\<close>.
\<close>

section \<open>Rules\<close>

datatype ('n4, 'n6) ipnet = Net4 'n4 | Net6 'n6

record ('n4, 'n6, 're) crates =
  to_lowercase :: "str \<Rightarrow> str"
  regex_new :: "str \<Rightarrow> 're option"
  regex_is_match :: "'re \<Rightarrow> str \<Rightarrow> bool"
  ipnet_parse :: "str \<Rightarrow> ('n4, 'n6) ipnet option"
  ipnet_from :: "ip_addr \<Rightarrow> ('n4, 'n6) ipnet"
  ipnet_contains :: "('n4, 'n6) ipnet \<Rightarrow> ip_addr \<Rightarrow> bool"
  net_network :: "'n4 \<Rightarrow> ipv4"
  net_broadcast :: "'n4 \<Rightarrow> ipv4"

datatype action = Proxy | Direct | Block

fun action_label :: "action \<Rightarrow> str" where
  "action_label Proxy = lit ''proxy''"
| "action_label Direct = lit ''direct''"
| "action_label Block = lit ''block''"

datatype host = Domain str | Ip ip_addr

datatype ('n4, 'n6, 're) matcher =
    DomainSuffix str
  | DomainFull str
  | DomainKeyword str
  | DomainRegex 're
  | Net "('n4, 'n6) ipnet"
  | Ports u16 u16
  | Private

definition normalize_domain :: "('n4, 'n6, 're) crates \<Rightarrow> str \<Rightarrow> str option" where
  "normalize_domain k value =
     (let cleaned = to_lowercase k
            (trim_end_matches 46 (trim_start_matches 46 (trim_start_matches 42 (trim value))))
      in if cleaned = [] then None else Some cleaned)"

definition parse_net :: "('n4, 'n6, 're) crates \<Rightarrow> str \<Rightarrow> ('n4, 'n6) ipnet option" where
  "parse_net k value =
     (let value = trim value
      in case ipnet_parse k value of Some net \<Rightarrow> Some net
         | None \<Rightarrow> map_option (ipnet_from k) (parse_ip value))"

definition parse_ports :: "str \<Rightarrow> (u16 \<times> u16) option" where
  "parse_ports value =
     (let value = trim value
      in case split_once 45 value of
           Some (lo, hi) \<Rightarrow>
             (case parse_u16 (trim lo) of None \<Rightarrow> None
              | Some lo \<Rightarrow>
                  (case parse_u16 (trim hi) of None \<Rightarrow> None
                   | Some hi \<Rightarrow> Some (if hi < lo then (hi, lo) else (lo, hi))))
         | None \<Rightarrow> map_option (\<lambda>single. (single, single)) (parse_u16 value))"

definition is_private :: "ip_addr \<Rightarrow> bool" where
  "is_private ip =
     (case ip of
        V4 a \<Rightarrow> v4_is_private a \<or> v4_is_loopback a \<or> v4_is_link_local a \<or> v4_is_broadcast a \<or>
          v4_is_documentation a \<or> v4_is_unspecified a \<or>
          oct_at 0 a = 100 \<and> 64 \<le> oct_at 1 a \<and> oct_at 1 a < 128
      | V6 a \<Rightarrow> v6_is_loopback a \<or> v6_is_unspecified a \<or>
          v6_first_segment a AND 0xfe00 = 0xfc00 \<or> v6_first_segment a AND 0xffc0 = 0xfe80)"

definition matcher_kind_value :: "('n4, 'n6, 're) crates \<Rightarrow> str \<Rightarrow> str \<times> str" where
  "matcher_kind_value k entry =
     (case split_once 58 entry of
        Some (kind, value) \<Rightarrow>
          if 46 \<notin> set kind \<and> 47 \<notin> set kind
          then (to_lowercase k (trim kind), trim value) else ([], entry)
      | None \<Rightarrow> ([], entry))"

definition matcher_parse :: "('n4, 'n6, 're) crates \<Rightarrow> str \<Rightarrow> ('n4, 'n6, 're) matcher option" where
  "matcher_parse k entry0 =
     (let entry = trim entry0
      in if entry = [] \<or> hd entry = 35 then None
         else (case matcher_kind_value k entry of (kind, value) \<Rightarrow>
           if kind = lit ''domain'' \<or> kind = lit ''suffix'' then
             map_option DomainSuffix (normalize_domain k value)
           else if kind = lit ''full'' \<or> kind = lit ''exact'' then
             map_option DomainFull (normalize_domain k value)
           else if kind = lit ''keyword'' then
             (let needle = to_lowercase k (trim value)
              in if needle = [] then None else Some (DomainKeyword needle))
           else if kind = lit ''regexp'' \<or> kind = lit ''regex'' then
             map_option DomainRegex (regex_new k value)
           else if kind = lit ''ip'' \<or> kind = lit ''cidr'' then
             map_option Net (parse_net k value)
           else if kind = lit ''port'' then
             map_option (\<lambda>(lo, hi). Ports lo hi) (parse_ports value)
           else if kind = lit ''geoip'' \<or> kind = lit ''geosite'' then
             (if eq_ignore_ascii_case value (lit ''private'') then Some Private else None)
           else if kind = [] then
             (if eq_ignore_ascii_case value (lit ''private'') then Some Private
              else (case parse_net k value of
                      Some net \<Rightarrow> Some (Net net)
                    | None \<Rightarrow> map_option DomainSuffix (normalize_domain k value)))
           else None))"

fun matcher_matches :: "('n4, 'n6, 're) crates \<Rightarrow> ('n4, 'n6, 're) matcher \<Rightarrow> host \<Rightarrow> u16 \<Rightarrow> bool" where
  "matcher_matches k (Ports lo hi) h port = (lo \<le> port \<and> port \<le> hi)"
| "matcher_matches k Private h port =
     (case h of Ip ip \<Rightarrow> is_private ip | Domain name \<Rightarrow> eq_ignore_ascii_case name (lit ''localhost''))"
| "matcher_matches k (Net net) h port =
     (case h of Ip ip \<Rightarrow> ipnet_contains k net ip | Domain _ \<Rightarrow> False)"
| "matcher_matches k (DomainSuffix suffix) h port =
     (case h of
        Domain name \<Rightarrow>
          (let name = to_lowercase k name in name = suffix \<or> ends_with name (46 # suffix))
      | Ip _ \<Rightarrow> False)"
| "matcher_matches k (DomainFull full) h port =
     (case h of Domain name \<Rightarrow> eq_ignore_ascii_case name full | Ip _ \<Rightarrow> False)"
| "matcher_matches k (DomainKeyword needle) h port =
     (case h of Domain name \<Rightarrow> contains (to_lowercase k name) needle | Ip _ \<Rightarrow> False)"
| "matcher_matches k (DomainRegex pattern) h port =
     (case h of Domain name \<Rightarrow> regex_is_match k pattern name | Ip _ \<Rightarrow> False)"

section \<open>The index\<close>

record ('n4, 'n6, 're) rules =
  suffixes :: "str set"
  fulls :: "str set"
  v4_ranges :: "(ipv4 \<times> ipv4) list"
  v6_nets :: "('n4, 'n6) ipnet list"
  others :: "('n4, 'n6, 're) matcher list"
  rule_count :: nat

definition rules_default :: "('n4, 'n6, 're) rules" where
  "rules_default = \<lparr>suffixes = {}, fulls = {}, v4_ranges = [], v6_nets = [], others = [], rule_count = 0\<rparr>"

text \<open>One pass of the first loop of \<open>from_matchers\<close>, on the rules and the collected ranges.\<close>

fun index_matcher :: "('n4, 'n6, 're) crates \<Rightarrow> ('n4, 'n6, 're) matcher \<Rightarrow>
    ('n4, 'n6, 're) rules \<times> (ipv4 \<times> ipv4) list \<Rightarrow> ('n4, 'n6, 're) rules \<times> (ipv4 \<times> ipv4) list" where
  "index_matcher k m (rules0, v4) =
     (let rules = rules0\<lparr>rule_count := rule_count rules0 + 1\<rparr>
      in case m of
           DomainSuffix suffix \<Rightarrow> (rules\<lparr>suffixes := insert suffix (suffixes rules)\<rparr>, v4)
         | DomainFull full \<Rightarrow> (rules\<lparr>fulls := insert full (fulls rules)\<rparr>, v4)
         | Net (Net4 net) \<Rightarrow> (rules, v4 @ [(net_network k net, net_broadcast k net)])
         | Net (Net6 net) \<Rightarrow> (rules\<lparr>v6_nets := v6_nets rules @ [Net6 net]\<rparr>, v4)
         | other \<Rightarrow> (rules\<lparr>others := others rules @ [other]\<rparr>, v4))"

text \<open>One pass of the merging loop.\<close>

definition merge_range :: "ipv4 \<times> ipv4 \<Rightarrow> (ipv4 \<times> ipv4) list \<Rightarrow> (ipv4 \<times> ipv4) list" where
  "merge_range r merged =
     (case r of (start, stop) \<Rightarrow>
        if merged \<noteq> [] \<and> unat start \<le> unat (snd (last merged)) + 1 then
          (if snd (last merged) < stop then butlast merged @ [(fst (last merged), stop)] else merged)
        else merged @ [(start, stop)])"

definition from_matchers :: "('n4, 'n6, 're) crates \<Rightarrow> ('n4, 'n6, 're) matcher list \<Rightarrow> ('n4, 'n6, 're) rules" where
  "from_matchers k list =
     (case fold (index_matcher k) list (rules_default, []) of (rules, v4) \<Rightarrow>
        rules\<lparr>v4_ranges := fold merge_range (sort v4) []\<rparr>)"

definition rules_len :: "('n4, 'n6, 're) rules \<Rightarrow> nat" where
  "rules_len r = rule_count r"

definition rules_is_empty :: "('n4, 'n6, 're) rules \<Rightarrow> bool" where
  "rules_is_empty r \<longleftrightarrow> rule_count r = 0"

definition is_name_matcher :: "('n4, 'n6, 're) matcher \<Rightarrow> bool" where
  "is_name_matcher m = (case m of DomainKeyword _ \<Rightarrow> True | DomainRegex _ \<Rightarrow> True | _ \<Rightarrow> False)"

definition rules_has_domain_rules :: "('n4, 'n6, 're) rules \<Rightarrow> bool" where
  "rules_has_domain_rules r \<longleftrightarrow> suffixes r \<noteq> {} \<or> fulls r \<noteq> {} \<or> list_ex is_name_matcher (others r)"

text \<open>The loop over the labels of a name.\<close>

function label_walk :: "str set \<Rightarrow> str \<Rightarrow> bool" where
  "label_walk S rest =
     (if rest \<in> S then True
      else (case find_byte 46 rest of
              Some dot \<Rightarrow> label_walk S (drop (dot + 1) rest)
            | None \<Rightarrow> False))"
  by pat_completeness auto
termination
  by (relation "measure (\<lambda>(S, rest). length rest)") (auto simp: find_byte_def split: if_splits intro!: diff_less length_pos_if_in_set)

declare label_walk.simps [simp del]

text \<open>\<open>slice::partition_point\<close>: the binary search of the standard library.\<close>

function pp_loop :: "(nat \<Rightarrow> bool) \<Rightarrow> nat \<Rightarrow> nat \<Rightarrow> nat" where
  "pp_loop p base n =
     (if 1 < n then
        let half = n div 2; mid = base + half
        in pp_loop p (if p mid then mid else base) (n - half)
      else base)"
  by pat_completeness auto
termination
  by (relation "measure (\<lambda>(p, base, n). n)") auto

declare pp_loop.simps [simp del]

definition partition_point :: "('a \<Rightarrow> bool) \<Rightarrow> 'a list \<Rightarrow> nat" where
  "partition_point P xs =
     (if xs = [] then 0
      else let base = pp_loop (\<lambda>i. P (xs ! i)) 0 (length xs)
           in if P (xs ! base) then base + 1 else base)"

definition rules_matches :: "('n4, 'n6, 're) crates \<Rightarrow> ('n4, 'n6, 're) rules \<Rightarrow> host \<Rightarrow> u16 \<Rightarrow> bool" where
  "rules_matches k r h port =
     ((case h of
         Domain name \<Rightarrow>
           (if suffixes r \<noteq> {} \<or> fulls r \<noteq> {} then
              let lowered = to_ascii_lowercase (trim_end_matches 46 name)
              in lowered \<in> fulls r \<or> suffixes r \<noteq> {} \<and> label_walk (suffixes r) lowered
            else False)
       | Ip (V4 x) \<Rightarrow>
           (let idx = partition_point (\<lambda>(start, _). start \<le> x) (v4_ranges r)
            in 0 < idx \<and> x \<le> snd (v4_ranges r ! (idx - 1)))
       | Ip (V6 a) \<Rightarrow> list_ex (\<lambda>net. ipnet_contains k net (V6 a)) (v6_nets r)) \<or>
      list_ex (\<lambda>m. matcher_matches k m h port) (others r))"

section \<open>Rule sets\<close>

record ('n4, 'n6, 're) rule_set =
  rs_block :: "('n4, 'n6, 're) rules"
  rs_direct :: "('n4, 'n6, 're) rules"

definition list_entries :: "str \<Rightarrow> str list" where
  "list_entries raw = split_pred (\<lambda>c. c = 10 \<or> c = 44 \<or> c = 59) raw"

definition parse_list :: "('n4, 'n6, 're) crates \<Rightarrow> str \<Rightarrow> ('n4, 'n6, 're) rules" where
  "parse_list k raw = from_matchers k (List.map_filter (matcher_parse k) (list_entries raw))"

definition rule_set_parse :: "('n4, 'n6, 're) crates \<Rightarrow> str \<Rightarrow> str \<Rightarrow> ('n4, 'n6, 're) rule_set" where
  "rule_set_parse k block direct = \<lparr>rs_block = parse_list k block, rs_direct = parse_list k direct\<rparr>"

definition rule_set_is_empty :: "('n4, 'n6, 're) rule_set \<Rightarrow> bool" where
  "rule_set_is_empty s \<longleftrightarrow> rules_is_empty (rs_block s) \<and> rules_is_empty (rs_direct s)"

definition rule_set_has_domain_rules :: "('n4, 'n6, 're) rule_set \<Rightarrow> bool" where
  "rule_set_has_domain_rules s \<longleftrightarrow> rules_has_domain_rules (rs_block s) \<or> rules_has_domain_rules (rs_direct s)"

definition decide :: "('n4, 'n6, 're) crates \<Rightarrow> ('n4, 'n6, 're) rule_set \<Rightarrow> host \<Rightarrow> u16 \<Rightarrow> action" where
  "decide k s h port =
     (if rules_matches k (rs_block s) h port then Block
      else if rules_matches k (rs_direct s) h port then Direct
      else Proxy)"

definition push_list :: "str \<Rightarrow> str \<Rightarrow> str" where
  "push_list target extra =
     (if trim extra = [] then target
      else (if trim target \<noteq> [] then target @ [10] else target) @ extra)"

datatype section_state = InBlock | InDirect

fun split_sections_loop :: "('n4, 'n6, 're) crates \<Rightarrow> str list \<Rightarrow> str \<Rightarrow> str \<Rightarrow> section_state option \<Rightarrow> str \<times> str" where
  "split_sections_loop k [] block direct current = (block, direct)"
| "split_sections_loop k (line # lines) block direct current =
     (let trimmed = trim line
      in if trimmed = [] \<or> hd trimmed = 35 then split_sections_loop k lines block direct current
         else let lowered = to_lowercase k trimmed
           in if lowered = lit ''[block]'' then split_sections_loop k lines block direct (Some InBlock)
              else if lowered = lit ''[direct]'' then split_sections_loop k lines block direct (Some InDirect)
              else if starts_with lowered (lit ''['') then split_sections_loop k lines block direct None
              else (case current of
                      Some InBlock \<Rightarrow> split_sections_loop k lines (block @ trimmed @ [10]) direct current
                    | Some InDirect \<Rightarrow> split_sections_loop k lines block (direct @ trimmed @ [10]) current
                    | None \<Rightarrow> split_sections_loop k lines block direct current))"

definition split_sections :: "('n4, 'n6, 're) crates \<Rightarrow> str \<Rightarrow> str \<times> str" where
  "split_sections k text = split_sections_loop k (str_lines text) [] [] None"

text \<open>The environment and the file system are arguments.\<close>

definition rule_set_from_env ::
  "('n4, 'n6, 're) crates \<Rightarrow> (str \<Rightarrow> str option) \<Rightarrow> (str \<Rightarrow> str option) \<Rightarrow> ('n4, 'n6, 're) rule_set" where
  "rule_set_from_env k env read_file =
     (let block = (case env (lit ''AETHER_ROUTE_BLOCK'') of Some v \<Rightarrow> v | None \<Rightarrow> []);
          direct = (case env (lit ''AETHER_ROUTE_DIRECT'') of Some v \<Rightarrow> v | None \<Rightarrow> [])
      in case env (lit ''AETHER_ROUTES_FILE'') of
           None \<Rightarrow> rule_set_parse k block direct
         | Some path \<Rightarrow>
             (case read_file path of
                None \<Rightarrow> rule_set_parse k block direct
              | Some text \<Rightarrow>
                  (case split_sections k text of (file_block, file_direct) \<Rightarrow>
                     rule_set_parse k (push_list block file_block) (push_list direct file_direct))))"


section \<open>Binary search and merged ranges\<close>

lemma pp_loop_inv:
  assumes "\<And>i. i < len \<Longrightarrow> p i \<longleftrightarrow> i < c" and "base = 0 \<or> base < c" and "c \<le> base + n"
    and "base + n \<le> len" and "0 < n"
  shows "pp_loop p base n < len \<and> (pp_loop p base n = 0 \<or> pp_loop p base n < c) \<and> c \<le> pp_loop p base n + 1"
  using assms
proof (induction p base n rule: pp_loop.induct)
  case (1 p base n)
  show ?case
  proof (cases "1 < n")
    case True
    define half where "half = n div 2"
    have half: "0 < half" "half < n" "half \<le> n - half" using True by (auto simp: half_def)
    let ?b = "if p (base + half) then base + half else base"
    have "pp_loop p base n = pp_loop p ?b (n - half)"
      using True by (subst pp_loop.simps) (simp add: half_def Let_def)
    moreover have "pp_loop p ?b (n - half) < len \<and>
      (pp_loop p ?b (n - half) = 0 \<or> pp_loop p ?b (n - half) < c) \<and> c \<le> pp_loop p ?b (n - half) + 1"
      using half 1(2-6) by (intro 1(1) [OF True half_def refl]) auto
    ultimately show ?thesis by simp
  next
    case False
    with 1(2-6) show ?thesis by (subst (1 2 3 4) pp_loop.simps) auto
  qed
qed

lemma partition_point_count:
  assumes "\<And>i. i < length xs \<Longrightarrow> P (xs ! i) \<longleftrightarrow> i < c" and "c \<le> length xs"
  shows "partition_point P xs = c"
proof (cases "xs = []")
  case True
  with assms show ?thesis by (simp add: partition_point_def)
next
  case False
  define base where "base = pp_loop (\<lambda>i. P (xs ! i)) 0 (length xs)"
  have "base < length xs" "base = 0 \<or> base < c" "c \<le> base + 1"
    using pp_loop_inv [of "length xs" "\<lambda>i. P (xs ! i)" c 0 "length xs"] assms False
    by (auto simp: base_def)
  with assms(1) [of base] show ?thesis
    using False by (auto simp: partition_point_def Let_def base_def [symmetric])
qed

definition covers :: "(ipv4 \<times> ipv4) list \<Rightarrow> ipv4 \<Rightarrow> bool" where
  "covers rs x \<longleftrightarrow> (\<exists>(s, e) \<in> set rs. s \<le> x \<and> x \<le> e)"

definition ordered_ranges :: "(ipv4 \<times> ipv4) list \<Rightarrow> bool" where
  "ordered_ranges rs \<longleftrightarrow> (\<forall>(s, e) \<in> set rs. s \<le> e)"

text \<open>Apart: in increasing order with a gap of at least one address between neighbours.\<close>

definition apart :: "(ipv4 \<times> ipv4) list \<Rightarrow> bool" where
  "apart rs \<longleftrightarrow> sorted_wrt (\<lambda>(s1, e1) (s2, e2). unat e1 + 1 < unat s2) rs"

lemma covers_append [simp]: "covers (xs @ ys) x \<longleftrightarrow> covers xs x \<or> covers ys x"
  by (auto simp: covers_def)

lemma covers_Nil [simp]: "\<not> covers [] x"
  by (simp add: covers_def)

lemma covers_Cons [simp]: "covers ((s, e) # r) x \<longleftrightarrow> s \<le> x \<and> x \<le> e \<or> covers r x"
  by (auto simp: covers_def)

lemma ordered_ranges_simps [simp]:
  "ordered_ranges []" "ordered_ranges ((s, e) # r) \<longleftrightarrow> s \<le> e \<and> ordered_ranges r"
  "ordered_ranges (xs @ ys) \<longleftrightarrow> ordered_ranges xs \<and> ordered_ranges ys"
  by (auto simp: ordered_ranges_def)

lemma merge_range_keeps:
  assumes "apart m" "ordered_ranges m" "s \<le> e" "m \<noteq> [] \<Longrightarrow> fst (last m) \<le> s"
  shows "apart (merge_range (s, e) m) \<and> ordered_ranges (merge_range (s, e) m) \<and>
    fst (last (merge_range (s, e) m)) \<le> s \<and> merge_range (s, e) m \<noteq> [] \<and>
    (\<forall>x. covers (merge_range (s, e) m) x \<longleftrightarrow> covers m x \<or> s \<le> x \<and> x \<le> e)"
proof (cases m rule: rev_cases)
  case Nil
  with assms show ?thesis by (simp add: merge_range_def apart_def)
next
  case (snoc init l)
  obtain ls le where l: "l = (ls, le)" by (cases l)
  have le: "ls \<le> le" and s: "ls \<le> s" and init: "\<forall>r\<in>set init. unat (snd r) + 1 < unat ls"
    using assms by (auto simp: snoc l apart_def sorted_wrt_append)
  show ?thesis
  proof (cases "unat s \<le> unat le + 1")
    case False
    then have m: "merge_range (s, e) m = m @ [(s, e)]"
      by (simp add: merge_range_def snoc l)
    have "unat le + 1 < unat s" using False by simp
    moreover have "unat (snd r) + 1 < unat s" if "r \<in> set init" for r
      using init that le s unfolding word_le_nat_alt by fastforce
    ultimately have "apart (m @ [(s, e)])"
      using assms(1) by (auto simp: apart_def snoc l sorted_wrt_append)
    with m assms show ?thesis by simp
  next
    case True
    have "\<And>x. (ls \<le> x \<and> x \<le> le \<or> s \<le> x \<and> x \<le> e) \<longleftrightarrow> ls \<le> x \<and> (x \<le> le \<or> x \<le> e)"
      using True s by (auto simp: word_le_nat_alt)
    with True assms init le s show ?thesis
      by (auto simp: merge_range_def snoc l apart_def sorted_wrt_append word_le_nat_alt word_less_nat_alt)
  qed
qed

lemma merge_all:
  assumes "sorted rs" "ordered_ranges rs" "apart m" "ordered_ranges m"
    "m \<noteq> [] \<Longrightarrow> \<forall>r\<in>set rs. fst (last m) \<le> fst r"
  shows "apart (fold merge_range rs m) \<and> ordered_ranges (fold merge_range rs m) \<and>
    (\<forall>x. covers (fold merge_range rs m) x \<longleftrightarrow> covers m x \<or> covers rs x)"
  using assms
proof (induction rs arbitrary: m)
  case (Cons r rs)
  obtain s e where r: "r = (s, e)" by (cases r)
  have k: "apart (merge_range (s, e) m)" "ordered_ranges (merge_range (s, e) m)"
    "fst (last (merge_range (s, e) m)) \<le> s"
    "\<And>x. covers (merge_range (s, e) m) x \<longleftrightarrow> covers m x \<or> s \<le> x \<and> x \<le> e"
    using merge_range_keeps [of m s e] Cons.prems by (auto simp: r)
  have "\<forall>q\<in>set rs. s \<le> fst q"
    using Cons.prems(1) by (auto simp: r less_eq_prod_def)
  then have "\<forall>q\<in>set rs. fst (last (merge_range (s, e) m)) \<le> fst q"
    using k(3) by (meson order_trans)
  with Cons.IH [of "merge_range (s, e) m"] Cons.prems k show ?case
    by (auto simp: r)
qed simp

lemma lookup_apart:
  assumes "apart rs" "ordered_ranges rs"
  shows "(let idx = partition_point (\<lambda>(start, _). start \<le> x) rs
    in 0 < idx \<and> x \<le> snd (rs ! (idx - 1))) \<longleftrightarrow> covers rs x"
proof -
  define c where "c = length (takeWhile (\<lambda>(start, _). start \<le> x) rs)"
  have step: "fst (rs ! i) \<le> snd (rs ! i) \<and> (i < j \<longrightarrow> unat (snd (rs ! i)) + 1 < unat (fst (rs ! j)))"
    if "i < length rs" "j < length rs" for i j
    using that assms by (auto simp: apart_def ordered_ranges_def sorted_wrt_iff_nth_less case_prod_beta)
  have c_le: "c \<le> length rs" by (simp add: c_def length_takeWhile_le)
  have below: "fst (rs ! i) \<le> x" if "i < c" for i
    using that nth_mem [of i "takeWhile (\<lambda>(start, _). start \<le> x) rs"]
    by (auto simp: c_def takeWhile_nth dest!: set_takeWhileD)
  have above: "\<not> fst (rs ! i) \<le> x" if "c \<le> i" "i < length rs" for i
  proof -
    have "\<not> fst (rs ! c) \<le> x"
      using that nth_length_takeWhile [of "\<lambda>(start, _). start \<le> x" rs] by (auto simp: c_def case_prod_beta)
    moreover have "c < i \<Longrightarrow> fst (rs ! c) \<le> fst (rs ! i)"
      using step [of c i] that by (auto simp: word_le_nat_alt)
    ultimately show ?thesis using that(1) by (cases "c = i") auto
  qed
  have pp: "partition_point (\<lambda>(start, _). start \<le> x) rs = c"
    using below above c_le by (intro partition_point_count) (auto simp: case_prod_beta, meson not_less)
  have "covers rs x \<longleftrightarrow> (\<exists>i<length rs. fst (rs ! i) \<le> x \<and> x \<le> snd (rs ! i))"
    unfolding covers_def Bex_def in_set_conv_nth case_prod_beta by blast
  also have "\<dots> \<longleftrightarrow> 0 < c \<and> x \<le> snd (rs ! (c - 1))"
  proof
    assume "\<exists>i<length rs. fst (rs ! i) \<le> x \<and> x \<le> snd (rs ! i)"
    then obtain i where i: "i < length rs" "fst (rs ! i) \<le> x" "x \<le> snd (rs ! i)" by blast
    then have "i < c" using above not_less by blast
    moreover have "\<not> i < c - 1"
      using step [of i "c - 1"] below [of "c - 1"] i c_le \<open>i < c\<close> by (auto simp: word_le_nat_alt)
    ultimately have "i = c - 1" by simp
    with i \<open>i < c\<close> show "0 < c \<and> x \<le> snd (rs ! (c - 1))" by simp
  next
    assume "0 < c \<and> x \<le> snd (rs ! (c - 1))"
    then show "\<exists>i<length rs. fst (rs ! i) \<le> x \<and> x \<le> snd (rs ! i)"
      using below [of "c - 1"] c_le by (intro exI [of _ "c - 1"]) auto
  qed
  finally show ?thesis by (simp add: pp Let_def)
qed


section \<open>The index answers what the rules say\<close>

text \<open>What the code relies on of the \<open>ipnet\<close> crate and of Unicode's lower-casing.\<close>

definition ipnet_laws :: "('n4, 'n6, 're) crates \<Rightarrow> bool" where
  "ipnet_laws k \<longleftrightarrow>
     (\<forall>n a. ipnet_contains k (Net4 n) (V4 a) \<longleftrightarrow> net_network k n \<le> a \<and> a \<le> net_broadcast k n) \<and>
     (\<forall>n a. \<not> ipnet_contains k (Net4 n) (V6 a)) \<and> (\<forall>n a. \<not> ipnet_contains k (Net6 n) (V4 a)) \<and>
     (\<forall>n. net_network k n \<le> net_broadcast k n)"

definition lowercase_laws :: "('n4, 'n6, 're) crates \<Rightarrow> bool" where
  "lowercase_laws k \<longleftrightarrow> ascii_lowercases (to_lowercase k) \<and>
     (\<forall>s. to_ascii_lowercase (to_lowercase k s) = to_lowercase k s)"

definition plain_host :: "host \<Rightarrow> bool" where
  "plain_host h = (case h of Domain name \<Rightarrow> is_ascii name \<and> (name = [] \<or> last name \<noteq> 46) | Ip _ \<Rightarrow> True)"

text \<open>The flat list walked with \<open>any\<close>, which the index replaces.\<close>

definition any_matches :: "('n4, 'n6, 're) crates \<Rightarrow> ('n4, 'n6, 're) matcher list \<Rightarrow> host \<Rightarrow> u16 \<Rightarrow> bool" where
  "any_matches k ms h port = list_ex (\<lambda>m. matcher_matches k m h port) ms"

lemma ends_with_dot:
  fixes a b r :: str
  assumes "46 \<notin> set a"
  shows "(a @ 46 # b = r \<or> ends_with (a @ 46 # b) (46 # r)) \<longleftrightarrow> a @ 46 # b = r \<or> b = r \<or> ends_with b (46 # r)"
proof -
  have "ends_with s (46 # r) \<longleftrightarrow> (\<exists>p. s = p @ 46 # r)" for s :: str
    unfolding ends_with_def by (auto simp: append_eq_conv_conj) (metis append_take_drop_id)
  moreover have "(\<exists>p. a @ 46 # b = p @ 46 # r) \<longleftrightarrow> b = r \<or> (\<exists>p. b = p @ 46 # r)"
  proof
    assume "\<exists>p. a @ 46 # b = p @ 46 # r"
    then obtain p where p: "a @ 46 # b = p @ 46 # r" ..
    then consider us where "a = p @ us" "us @ 46 # b = 46 # r" | us where "a @ us = p" "46 # b = us @ 46 # r"
      by (auto simp: append_eq_append_conv2)
    then show "b = r \<or> (\<exists>p. b = p @ 46 # r)"
    proof cases
      case 1
      then show ?thesis using assms by (cases us) auto
    next
      case 2
      then show ?thesis by (cases us) auto
    qed
  next
    assume "b = r \<or> (\<exists>p. b = p @ 46 # r)"
    then show "\<exists>p. a @ 46 # b = p @ 46 # r"
      by (metis append_Cons append_assoc)
  qed
  ultimately show ?thesis by auto
qed

lemma find_byte_Some: "find_byte c s = Some i \<longleftrightarrow> (\<exists>a b. s = a @ c # b \<and> c \<notin> set a \<and> i = length a)"
proof -
  have "(\<exists>a b. s = a @ c # b \<and> c \<notin> set a \<and> i = length a) \<longleftrightarrow> (\<exists>a b. split_once c s = Some (a, b) \<and> i = length a)"
    by (simp add: split_once_Some)
  also have "\<dots> \<longleftrightarrow> find_byte c s = Some i"
    by (auto simp: split_once_def find_byte_def)
  finally show ?thesis by simp
qed

lemma ends_with_mem: "ends_with s (c # r) \<Longrightarrow> c \<in> set s"
  unfolding ends_with_def by (metis in_set_dropD list.set_intros(1))

lemma label_walk_suffix: "label_walk S s \<longleftrightarrow> (\<exists>r\<in>S. s = r \<or> ends_with s (46 # r))"
proof (induction S s rule: label_walk.induct)
  case (1 S s)
  show ?case
  proof (cases "find_byte 46 s")
    case None
    then have "46 \<notin> set s" by (auto simp: find_byte_def split: if_splits)
    with None show ?thesis
      by (subst label_walk.simps) (auto dest: ends_with_mem)
  next
    case (Some dot)
    then obtain a b where s: "s = a @ 46 # b" "46 \<notin> set a" "dot = length a"
      by (auto simp: find_byte_Some)
    have walk: "label_walk S s \<longleftrightarrow> s \<in> S \<or> label_walk S b"
      by (subst label_walk.simps) (simp add: Some, simp add: s)
    have "s \<notin> S \<Longrightarrow> label_walk S b \<longleftrightarrow> (\<exists>r\<in>S. b = r \<or> ends_with b (46 # r))"
      using 1 [OF _ Some] s by simp
    with walk show ?thesis
      using ends_with_dot [OF s(2), of b] by (auto simp: s(1))
  qed
qed

definition is_other :: "('n4, 'n6, 're) matcher \<Rightarrow> bool" where
  "is_other m = (case m of DomainSuffix _ \<Rightarrow> False | DomainFull _ \<Rightarrow> False | Net _ \<Rightarrow> False | _ \<Rightarrow> True)"

lemma index_fold:
  "\<exists>r' v'. fold (index_matcher k) ms (r, v) = (r', v') \<and>
     suffixes r' = suffixes r \<union> {s. DomainSuffix s \<in> set ms} \<and>
     fulls r' = fulls r \<union> {s. DomainFull s \<in> set ms} \<and>
     set v' = set v \<union> {(net_network k n, net_broadcast k n) | n. Net (Net4 n) \<in> set ms} \<and>
     set (v6_nets r') = set (v6_nets r) \<union> {Net6 n | n. Net (Net6 n) \<in> set ms} \<and>
     set (others r') = set (others r) \<union> {m \<in> set ms. is_other m} \<and>
     rule_count r' = rule_count r + length ms"
proof (induction ms arbitrary: r v)
  case (Cons m ms)
  obtain r1 v1 where rv: "index_matcher k m (r, v) = (r1, v1)"
    by (cases "index_matcher k m (r, v)")
  obtain r' v' where IH: "fold (index_matcher k) ms (r1, v1) = (r', v')"
     "suffixes r' = suffixes r1 \<union> {s. DomainSuffix s \<in> set ms}"
     "fulls r' = fulls r1 \<union> {s. DomainFull s \<in> set ms}"
     "set v' = set v1 \<union> {(net_network k n, net_broadcast k n) | n. Net (Net4 n) \<in> set ms}"
     "set (v6_nets r') = set (v6_nets r1) \<union> {Net6 n | n. Net (Net6 n) \<in> set ms}"
     "set (others r') = set (others r1) \<union> {m \<in> set ms. is_other m}"
     "rule_count r' = rule_count r1 + length ms"
    using Cons.IH [of r1 v1] by blast
  have step: "suffixes r1 = suffixes r \<union> {s. DomainSuffix s = m}" "fulls r1 = fulls r \<union> {s. DomainFull s = m}"
     "set v1 = set v \<union> {(net_network k n, net_broadcast k n) | n. Net (Net4 n) = m}"
     "set (v6_nets r1) = set (v6_nets r) \<union> {Net6 n | n. Net (Net6 n) = m}"
     "set (others r1) = set (others r) \<union> (if is_other m then {m} else {})"
     "rule_count r1 = rule_count r + 1"
    using rv by (auto simp: Let_def is_other_def split: matcher.splits ipnet.splits)
  show ?case
    by (intro exI [of _ r'] exI [of _ v'], simp only: fold.simps comp_def rv IH(1), intro conjI refl)
      (use IH step in auto)
qed simp

lemma from_matchers_facts:
  assumes "ipnet_laws k"
  shows "suffixes (from_matchers k ms) = {s. DomainSuffix s \<in> set ms}"
    and "fulls (from_matchers k ms) = {s. DomainFull s \<in> set ms}"
    and "set (v6_nets (from_matchers k ms)) = {Net6 n | n. Net (Net6 n) \<in> set ms}"
    and "set (others (from_matchers k ms)) = {m \<in> set ms. is_other m}"
    and "rule_count (from_matchers k ms) = length ms"
    and "apart (v4_ranges (from_matchers k ms))" and "ordered_ranges (v4_ranges (from_matchers k ms))"
    and "covers (v4_ranges (from_matchers k ms)) x \<longleftrightarrow> (\<exists>n. Net (Net4 n) \<in> set ms \<and> net_network k n \<le> x \<and> x \<le> net_broadcast k n)"
proof -
  obtain r' v' where f: "fold (index_matcher k) ms (rules_default, []) = (r', v')"
     "suffixes r' = {s. DomainSuffix s \<in> set ms}"
     "fulls r' = {s. DomainFull s \<in> set ms}"
     "set v' = {(net_network k n, net_broadcast k n) | n. Net (Net4 n) \<in> set ms}"
     "set (v6_nets r') = {Net6 n | n. Net (Net6 n) \<in> set ms}"
     "set (others r') = {m \<in> set ms. is_other m}" "rule_count r' = length ms"
    using index_fold [of k ms rules_default "[]"] by (auto simp: rules_default_def)
  have "ordered_ranges (sort v')"
    using assms f(4) by (auto simp: ordered_ranges_def ipnet_laws_def)
  then have m: "apart (fold merge_range (sort v') [])" "ordered_ranges (fold merge_range (sort v') [])"
    "covers (fold merge_range (sort v') []) x \<longleftrightarrow> covers (sort v') x"
    using merge_all [of "sort v'" "[]"] by (auto simp: apart_def)
  have fm: "from_matchers k ms = r'\<lparr>v4_ranges := fold merge_range (sort v') []\<rparr>"
    by (simp add: from_matchers_def f(1))
  show "suffixes (from_matchers k ms) = {s. DomainSuffix s \<in> set ms}"
    "fulls (from_matchers k ms) = {s. DomainFull s \<in> set ms}"
    "set (v6_nets (from_matchers k ms)) = {Net6 n | n. Net (Net6 n) \<in> set ms}"
    "set (others (from_matchers k ms)) = {m \<in> set ms. is_other m}"
    "rule_count (from_matchers k ms) = length ms"
    "apart (v4_ranges (from_matchers k ms))" "ordered_ranges (v4_ranges (from_matchers k ms))"
    by (simp_all add: fm f m)
  show "covers (v4_ranges (from_matchers k ms)) x \<longleftrightarrow> (\<exists>n. Net (Net4 n) \<in> set ms \<and> net_network k n \<le> x \<and> x \<le> net_broadcast k n)"
    unfolding fm by (simp add: m(3)) (auto simp: covers_def f(4))
qed


lemma trim_end_matches_plain: "name = [] \<or> last name \<noteq> c \<Longrightarrow> trim_end_matches c name = name"
  by (cases name rule: rev_cases) (auto simp: trim_end_matches_def)

lemma other_Net: "is_other m \<Longrightarrow> m \<noteq> Net n"
  by (auto simp: is_other_def)

lemma any_matches_split: "any_matches k ms h port \<longleftrightarrow>
    (\<exists>m\<in>set ms. is_other m \<and> matcher_matches k m h port) \<or>
    (\<exists>s. DomainSuffix s \<in> set ms \<and> matcher_matches k (DomainSuffix s) h port) \<or>
    (\<exists>s. DomainFull s \<in> set ms \<and> matcher_matches k (DomainFull s) h port) \<or>
    (\<exists>n. Net n \<in> set ms \<and> matcher_matches k (Net n) h port)"
proof -
  have "is_other m \<or> (\<exists>s. m = DomainSuffix s) \<or> (\<exists>s. m = DomainFull s) \<or> (\<exists>n. m = Net n)"
    for m :: "('a, 'b, 'c) matcher"
    by (cases m) (auto simp: is_other_def)
  then show ?thesis unfolding any_matches_def list_ex_iff by blast
qed

lemma index_domain:
  assumes "ipnet_laws k" "lowercase_laws k" "\<And>f. DomainFull f \<in> set ms \<Longrightarrow> to_ascii_lowercase f = f"
    and "plain_host (Domain name)"
  shows "rules_matches k (from_matchers k ms) (Domain name) port \<longleftrightarrow> any_matches k ms (Domain name) port"
proof -
  have lc: "to_lowercase k name = to_ascii_lowercase name"
    using assms by (simp add: lowercase_laws_def ascii_lowercases_def plain_host_def)
  have tr: "trim_end_matches 46 name = name"
    using assms(4) by (intro trim_end_matches_plain) (simp add: plain_host_def)
  have full: "(\<exists>s. DomainFull s \<in> set ms \<and> eq_ignore_ascii_case name s) \<longleftrightarrow> DomainFull (to_ascii_lowercase name) \<in> set ms"
    using assms(3) by (auto simp: eq_ignore_ascii_case_def)
  show ?thesis
    unfolding any_matches_split rules_matches_def from_matchers_facts(1,2) [OF assms(1)]
    by (auto simp: list_ex_iff from_matchers_facts(4) [OF assms(1)] Let_def tr lc full label_walk_suffix)
qed

lemma index_v4:
  assumes "ipnet_laws k"
  shows "rules_matches k (from_matchers k ms) (Ip (V4 a)) port \<longleftrightarrow> any_matches k ms (Ip (V4 a)) port"
proof -
  have net: "ipnet_contains k n (V4 a) \<longleftrightarrow> (\<exists>m. n = Net4 m \<and> net_network k m \<le> a \<and> a \<le> net_broadcast k m)" for n
    using assms by (cases n) (auto simp: ipnet_laws_def)
  show ?thesis
    unfolding any_matches_split rules_matches_def host.case ip_addr.case
      lookup_apart [OF from_matchers_facts(6,7) [OF assms]]
    by (simp add: from_matchers_facts [OF assms] list_ex_iff net) blast
qed

lemma index_v6:
  assumes "ipnet_laws k"
  shows "rules_matches k (from_matchers k ms) (Ip (V6 a)) port \<longleftrightarrow> any_matches k ms (Ip (V6 a)) port"
proof -
  have net: "ipnet_contains k n (V6 a) \<longleftrightarrow> (\<exists>m. n = Net6 m \<and> ipnet_contains k (Net6 m) (V6 a))" for n
    using assms by (cases n) (auto simp: ipnet_laws_def)
  show ?thesis
    unfolding any_matches_split rules_matches_def
    by (simp add: from_matchers_facts [OF assms] list_ex_iff) (metis net)
qed

lemma index_equiv:
  assumes "ipnet_laws k" "lowercase_laws k" "\<And>f. DomainFull f \<in> set ms \<Longrightarrow> to_ascii_lowercase f = f"
    and "plain_host h"
  shows "rules_matches k (from_matchers k ms) h port \<longleftrightarrow> any_matches k ms h port"
proof (cases h)
  case (Domain name)
  with assms index_domain [of k ms name port] show ?thesis by simp
next
  case (Ip ip)
  with assms(1) show ?thesis by (cases ip) (simp_all add: index_v4 index_v6)
qed

definition parsed_rules :: "('n4, 'n6, 're) crates \<Rightarrow> str \<Rightarrow> ('n4, 'n6, 're) matcher list" where
  "parsed_rules k raw = List.map_filter (matcher_parse k) (list_entries raw)"

lemma parse_full_lower:
  assumes "lowercase_laws k" "matcher_parse k e = Some (DomainFull f)"
  shows "to_ascii_lowercase f = f"
  using assms
  by (auto simp: matcher_parse_def normalize_domain_def lowercase_laws_def Let_def
      split: if_splits prod.splits option.splits)

lemma parse_list_equiv:
  assumes "ipnet_laws k" "lowercase_laws k" "plain_host h"
  shows "rules_matches k (parse_list k raw) h port \<longleftrightarrow> any_matches k (parsed_rules k raw) h port"
proof -
  have "to_ascii_lowercase f = f" if "DomainFull f \<in> set (parsed_rules k raw)" for f
    using that parse_full_lower [OF assms(2)] by (auto simp: parsed_rules_def map_filter_def)
  with assms show ?thesis
    unfolding parse_list_def parsed_rules_def [symmetric] by (intro index_equiv)
qed


section \<open>Properties\<close>

text \<open>An instance of the crates for the witnesses: a network is an address and a prefix
  length, a regular expression is a literal.\<close>

definition demo_parse_net :: "str \<Rightarrow> (ipv4 \<times> nat, ipv6 \<times> nat) ipnet option" where
  "demo_parse_net s =
     (case split_once 47 s of None \<Rightarrow> None
      | Some (a, p) \<Rightarrow>
          (case (parse_ip a, parse_uint 129 p) of
             (Some (V4 x), Some n) \<Rightarrow> if n \<le> 32 then Some (Net4 (x, n)) else None
           | (Some (V6 x), Some n) \<Rightarrow> Some (Net6 (x, n))
           | _ \<Rightarrow> None))"

fun demo_from :: "ip_addr \<Rightarrow> (ipv4 \<times> nat, ipv6 \<times> nat) ipnet" where
  "demo_from (V4 x) = Net4 (x, 32)"
| "demo_from (V6 x) = Net6 (x, 128)"

definition demo_network :: "ipv4 \<times> nat \<Rightarrow> ipv4" where
  "demo_network n = (case n of (x, p) \<Rightarrow> x AND NOT (mask (32 - p)))"

definition demo_broadcast :: "ipv4 \<times> nat \<Rightarrow> ipv4" where
  "demo_broadcast n = (case n of (x, p) \<Rightarrow> x OR mask (32 - p))"

fun demo_contains :: "(ipv4 \<times> nat, ipv6 \<times> nat) ipnet \<Rightarrow> ip_addr \<Rightarrow> bool" where
  "demo_contains (Net4 n) (V4 a) = (demo_network n \<le> a \<and> a \<le> demo_broadcast n)"
| "demo_contains (Net6 (x, p)) (V6 a) = (drop_bit (128 - p) x = drop_bit (128 - p) a)"
| "demo_contains _ _ = False"

definition demo :: "(ipv4 \<times> nat, ipv6 \<times> nat, str) crates" where
  "demo = \<lparr>to_lowercase = to_ascii_lowercase, regex_new = Some, regex_is_match = (\<lambda>p s. contains s p),
     ipnet_parse = demo_parse_net, ipnet_from = demo_from, ipnet_contains = demo_contains,
     net_network = demo_network, net_broadcast = demo_broadcast\<rparr>"

lemma demo_laws: "ipnet_laws demo" "lowercase_laws demo"
proof -
  have "x AND NOT (mask m) \<le> x OR mask m" for x :: ipv4 and m
    using word_and_le2 [of x "NOT (mask m)"] le_word_or2 [of x "mask m"] order_trans by blast
  then show "ipnet_laws demo"
    by (auto simp: ipnet_laws_def demo_def demo_network_def demo_broadcast_def split: prod.splits)
  show "lowercase_laws demo"
    by (simp add: lowercase_laws_def demo_def ascii_lowercases_def)
qed

lemma matcher_parse_demo: "matcher_parse demo (lit ''tracker.example'') = Some (DomainSuffix (lit ''tracker.example''))"
proof -
  have 1: "trim (lit ''tracker.example'') = lit ''tracker.example''" by code_simp
  have 2: "matcher_kind_value demo (lit ''tracker.example'') = ([], lit ''tracker.example'')" by code_simp
  have 3: "normalize_domain demo (lit ''tracker.example'') = Some (lit ''tracker.example'')" by code_simp
  have 4: "split_once 47 (lit ''tracker.example'') = None" by code_simp
  have "to_digit 16 116 = None" by code_simp
  then have 5: "parse_ip (lit ''tracker.example'') = None" 
    using parse_ip_letter [of 116 "lit ''racker.example''"] by simp
  have 6: "\<not> eq_ignore_ascii_case (lit ''tracker.example'') (lit ''private'')" by code_simp
  have 7: "hd (lit ''tracker.example'') \<noteq> 35" by code_simp
  have 8: "lit ''tracker.example'' \<noteq> []" by code_simp
  have "ipnet_parse demo (lit ''tracker.example'') = None"
    by (simp add: demo_def demo_parse_net_def 4 del: lit_Cons)
  then have "parse_net demo (lit ''tracker.example'') = None"
    unfolding parse_net_def Let_def 1 5 by simp
  then show ?thesis
    unfolding matcher_parse_def Let_def 1 2 prod.case 3
    using 6 7 8 by (simp del: lit_Cons add: lit_def)
qed

text \<open>C1. The index answers what the flat rule list says: for every rule text, every address
  and every ASCII name without a trailing dot, the hash sets, the merged and binary-searched
  IPv4 ranges and the short list match exactly when some parsed rule matches by itself.\<close>

theorem rules_index_equiv:
  assumes "ipnet_laws k" and "lowercase_laws k" and "plain_host h"
  shows "rules_matches k (parse_list k raw) h port \<longleftrightarrow>
    (\<exists>entry \<in> set (list_entries raw). \<exists>m. matcher_parse k entry = Some m \<and> matcher_matches k m h port)"
proof -
  have "any_matches k (parsed_rules k raw) h port \<longleftrightarrow>
    (\<exists>entry \<in> set (list_entries raw). \<exists>m. matcher_parse k entry = Some m \<and> matcher_matches k m h port)"
    by (auto simp: any_matches_def parsed_rules_def list_ex_iff map_filter_def) (metis option.sel)
  with parse_list_equiv [OF assms] show ?thesis by simp
qed

theorem rules_index_equiv_witness:
  "rules_matches demo (parse_list demo (lit ''tracker.example'')) (Domain (lit ''x.tracker.example'')) 443"
proof -
  have "lit ''tracker.example'' \<in> set (list_entries (lit ''tracker.example''))" by code_simp
  moreover have "matcher_matches demo (DomainSuffix (lit ''tracker.example'')) (Domain (lit ''x.tracker.example'')) 443"
    by code_simp
  moreover have "plain_host (Domain (lit ''x.tracker.example''))" by code_simp
  ultimately show ?thesis
    using rules_index_equiv [OF demo_laws] matcher_parse_demo by blast
qed



text \<open>The IPv4 index is canonical: whatever networks the rules list, in whatever order and
  however they overlap, the stored ranges are non-empty, in increasing order, separated by
  at least one address, and cover exactly the addresses of the listed networks.\<close>

lemma v4_ranges_canonical:
  assumes "ipnet_laws k"
  shows "sorted_wrt (\<lambda>(s1, e1) (s2, e2). unat e1 + 1 < unat s2) (v4_ranges (from_matchers k ms)) \<and>
    (\<forall>(s, e) \<in> set (v4_ranges (from_matchers k ms)). s \<le> e) \<and>
    (\<forall>x. (\<exists>(s, e) \<in> set (v4_ranges (from_matchers k ms)). s \<le> x \<and> x \<le> e) \<longleftrightarrow>
       (\<exists>n. Net (Net4 n) \<in> set ms \<and> ipnet_contains k (Net4 n) (V4 x)))"
  using from_matchers_facts(6-8) [OF assms, of ms] assms
  unfolding apart_def ordered_ranges_def covers_def ipnet_laws_def by simp

text \<open>A domain rule covers the name and its subdomains and nothing else, in any letter case
  and with or without trailing dots: the walk over the labels of the asked name succeeds
  exactly when the lower-cased name is a stored suffix or ends with a dot and a stored
  suffix.  So a rule for \<open>ads.example\<close> never matches \<open>notads.example\<close>.\<close>

lemma suffix_rules_by_label:
  assumes "suffixes r \<noteq> {}" and "others r = []" and "fulls r = {}"
  shows "rules_matches k r (Domain name) port \<longleftrightarrow>
    (let n = to_ascii_lowercase (trim_end_matches 46 name)
     in n \<in> suffixes r \<or> (\<exists>s\<in>suffixes r. \<exists>p. n = p @ [46] @ s))"
proof -
  have "ends_with n (46 # s) \<longleftrightarrow> (\<exists>p. n = p @ [46] @ s)" for n s :: str
    unfolding ends_with_def by (auto simp: append_eq_conv_conj) (metis append_take_drop_id)
  then show ?thesis
    using assms by (auto simp: rules_matches_def label_walk_suffix Let_def)
qed

text \<open>The rules file adds to the rules of the environment: appending the lines of a file
  section to a list keeps every rule of both, and no rule is lost or fused at the seam (each
  of the two texts being empty or not blank).\<close>

lemma push_list_rules:
  assumes "target = [] \<or> trim target \<noteq> []" and "extra = [] \<or> trim extra \<noteq> []"
  shows "any_matches k (parsed_rules k (push_list target extra)) h port \<longleftrightarrow>
    any_matches k (parsed_rules k target) h port \<or> any_matches k (parsed_rules k extra) h port"
proof -
  have nil: "trim [] = []" by code_simp
  then have empty: "parsed_rules k [] = []"
    by (simp add: parsed_rules_def list_entries_def map_filter_def matcher_parse_def)
  have sep: "list_entries (a @ 10 # b) = list_entries a @ list_entries b" for a b
    unfolding list_entries_def by (rule split_pred_append_sep) simp
  show ?thesis
    using assms sep [of target extra] empty
    by (auto simp: push_list_def parsed_rules_def map_filter_def any_matches_def nil)
qed

text \<open>A rule that is an IPv6 address or network written without the \<open>ip:\<close> prefix is
  dropped: its text before the first colon is taken for the kind of the rule, and no kind
  is a hexadecimal group.\<close>

lemma bare_ipv6_dropped:
  assumes "lowercase_laws k"
  shows "matcher_parse k (lit ''2001:db8::/32'') = None"
proof -
  have "trim (lit ''2001:db8::/32'') = lit ''2001:db8::/32''" by code_simp
  moreover have "split_once 58 (lit ''2001:db8::/32'') = Some (lit ''2001'', lit ''db8::/32'')" by code_simp
  moreover have "to_lowercase k (trim (lit ''2001'')) = lit ''2001''"
  proof -
    have "trim (lit ''2001'') = lit ''2001''" "is_ascii (lit ''2001'')" "to_ascii_lowercase (lit ''2001'') = lit ''2001''"
      by code_simp+
    with assms show ?thesis by (simp add: lowercase_laws_def ascii_lowercases_def del: lit_Cons)
  qed
  ultimately show ?thesis
    unfolding matcher_parse_def matcher_kind_value_def Let_def by simp
qed

end
