(* ===== verification/Route_Dns.thy ===== *)
theory Route_Dns
  imports Routing "HOL-Library.AList"
begin

text \<open>
  The DNS half of \<^verbatim>\<open>routing.rs\<close>: the sinkhole that answers a blocked name with NXDOMAIN, the
  readers of DNS names, and the memory that maps the addresses of past answers back to the
  names they were asked for.  An index out of range is a panic.  The memory is an
  association list with one entry per address; an instant is a number of nanoseconds.
\<close>

section \<open>Names\<close>

definition join_label :: "str \<Rightarrow> bytes \<Rightarrow> str" where
  "join_label name label =
     (if name \<noteq> [] then name @ [46] else name) @ to_ascii_lowercase (from_utf8_lossy label)"

function read_plain_name_loop :: "bytes \<Rightarrow> nat \<Rightarrow> str \<Rightarrow> nat \<Rightarrow> (str \<times> nat) option" where
  "read_plain_name_loop msg at name labels =
     (case get_at msg at of
        None \<Rightarrow> None
      | Some b \<Rightarrow>
          (let len = unat b
           in if len = 0 then (if name = [] then None else Some (name, at + 1))
              else if b AND 0xc0 \<noteq> 0 \<or> 127 < labels then None
              else (case get_range msg (at + 1) (at + 1 + len) of
                      None \<Rightarrow> None
                    | Some label \<Rightarrow>
                        read_plain_name_loop msg (at + 1 + len) (join_label name label) (labels + 1))))"
  by pat_completeness auto
termination
  by (relation "measure (\<lambda>(msg, at, name, labels). length msg - at)") (auto simp: get_at_Some)

declare read_plain_name_loop.simps [simp del]

definition read_plain_name :: "bytes \<Rightarrow> nat \<Rightarrow> (str \<times> nat) option" where
  "read_plain_name msg at = read_plain_name_loop msg at [] 0"

function skip_dns_name_loop :: "bytes \<Rightarrow> nat \<Rightarrow> nat \<Rightarrow> nat option" where
  "skip_dns_name_loop msg at hops =
     (case get_at msg at of
        None \<Rightarrow> None
      | Some b \<Rightarrow>
          if b AND 0xc0 = 0xc0 then Some (at + 2)
          else if b = 0 then Some (at + 1)
          else if hops + 1 > 128 then None
          else skip_dns_name_loop msg (at + 1 + unat b) (hops + 1))"
  by pat_completeness auto
termination
  by (relation "measure (\<lambda>(msg, at, hops). length msg - at)") (auto simp: get_at_Some)

declare skip_dns_name_loop.simps [simp del]

definition skip_dns_name :: "bytes \<Rightarrow> nat \<Rightarrow> nat option" where
  "skip_dns_name msg at = skip_dns_name_loop msg at 0"

definition dns_question :: "bytes \<Rightarrow> ((str \<times> nat) option, unit) res" where
  "dns_question msg =
     (if length msg < 17 then Ok None
      else rbind (idx msg 2) (\<lambda>flags.
        if flags AND 0x80 \<noteq> 0 then Ok None
        else rbind (idx msg 4) (\<lambda>c4. rbind (idx msg 5) (\<lambda>c5.
          if from_be16 c4 c5 \<noteq> 1 then Ok None
          else (case read_plain_name msg 12 of
                  None \<Rightarrow> Ok None
                | Some (name, stop) \<Rightarrow>
                    (case checked_add stop 4 of
                       None \<Rightarrow> Ok None
                     | Some stop \<Rightarrow> if stop > length msg then Ok None else Ok (Some (name, stop))))))))"

section \<open>The sinkhole\<close>

fun zero_range :: "nat \<Rightarrow> nat \<Rightarrow> bytes \<Rightarrow> bytes" where
  "zero_range a 0 bs = bs"
| "zero_range a (Suc n) bs = zero_range (Suc a) n (bs[a := 0])"

definition dns_block_reply :: "('n4, 'n6, 're) crates \<Rightarrow> ('n4, 'n6, 're) rule_set \<Rightarrow> bytes \<Rightarrow> (bytes option, unit) res" where
  "dns_block_reply k s query =
     (if rules_is_empty (rs_block s) then Ok None
      else rbind (dns_question query) (\<lambda>q.
        case q of
          None \<Rightarrow> Ok None
        | Some (name, question_end) \<Rightarrow>
            if \<not> rules_matches k (rs_block s) (Domain name) 53 then Ok None
            else (case get_range query 0 question_end of
                    None \<Rightarrow> Ok None
                  | Some reply \<Rightarrow>
                      rbind (idx query 2) (\<lambda>q2.
                      rbind (upd reply 2 ((q2 AND 0x01) OR 0x80)) (\<lambda>reply.
                      rbind (upd reply 3 0x83) (\<lambda>reply.
                      rbind (idx_range reply 6 12) (\<lambda>_.
                      Ok (Some (zero_range 6 6 reply)))))))))"

section \<open>The memory of names\<close>

type_synonym name_memory = "(ip_addr \<times> (str \<times> nat)) list"

definition NAME_MEMORY_MAX :: nat where "NAME_MEMORY_MAX = 8192"
definition NAME_MEMORY_MIN_TTL :: nat where "NAME_MEMORY_MIN_TTL = 60 * 1000000000"
definition NAME_MEMORY_MAX_TTL :: nat where "NAME_MEMORY_MAX_TTL = 3600 * 1000000000"

definition clamp_ttl :: "u32 \<Rightarrow> nat" where
  "clamp_ttl ttl = min (max (unat ttl * 1000000000) NAME_MEMORY_MIN_TTL) NAME_MEMORY_MAX_TTL"

definition remember_name :: "ip_addr \<Rightarrow> str \<Rightarrow> u32 \<Rightarrow> nat \<Rightarrow> name_memory \<Rightarrow> name_memory" where
  "remember_name ip name ttl now memory =
     (let memory =
        (if length memory \<ge> NAME_MEMORY_MAX then
           let kept = filter (\<lambda>(_, (_, expires)). expires > now) memory
           in if length kept \<ge> NAME_MEMORY_MAX then [] else kept
         else memory)
      in AList.update ip (name, now + clamp_ttl ttl) memory)"

definition answer_ip :: "bytes \<Rightarrow> u16 \<Rightarrow> nat \<Rightarrow> nat \<Rightarrow> (ip_addr option, unit) res" where
  "answer_ip msg rtype rdata rdlen =
     (if rtype = 1 \<and> rdlen = 4 then
        rbind (idx msg rdata) (\<lambda>a. rbind (idx msg (rdata + 1)) (\<lambda>b.
        rbind (idx msg (rdata + 2)) (\<lambda>c. rbind (idx msg (rdata + 3)) (\<lambda>d.
          Ok (Some (V4 (v4_of_octets [a, b, c, d])))))))
      else if rtype = 28 \<and> rdlen = 16 then
        rbind (idx_range msg rdata (rdata + 16)) (\<lambda>raw. Ok (Some (V6 (v6_of_octets raw))))
      else Ok None)"

fun learn_answers :: "nat \<Rightarrow> bytes \<Rightarrow> str \<Rightarrow> nat \<Rightarrow> nat \<Rightarrow> name_memory \<Rightarrow> (name_memory, unit) res" where
  "learn_answers 0 msg name now at memory = Ok memory"
| "learn_answers (Suc n) msg name now at memory =
     (case skip_dns_name msg at of
        None \<Rightarrow> Ok memory
      | Some after_name \<Rightarrow>
          if after_name + 10 > length msg then Ok memory
          else
            rbind (idx msg after_name) (\<lambda>t0. rbind (idx msg (after_name + 1)) (\<lambda>t1.
            rbind (idx_range msg (after_name + 4) (after_name + 8)) (\<lambda>ttl.
            rbind (idx msg (after_name + 8)) (\<lambda>l0. rbind (idx msg (after_name + 9)) (\<lambda>l1.
              let rdlen = unat (from_be16 l0 l1);
                  rdata = after_name + 10
              in if rdata + rdlen > length msg then Ok memory
                 else rbind (answer_ip msg (from_be16 t0 t1) rdata rdlen) (\<lambda>ip.
                   learn_answers n msg name now (rdata + rdlen)
                     (case ip of
                        None \<Rightarrow> memory
                      | Some ip \<Rightarrow> remember_name ip name (word_of_nat (be_nat ttl)) now memory))))))))"

definition learn_dns_answer :: "bytes \<Rightarrow> nat \<Rightarrow> name_memory \<Rightarrow> (name_memory, unit) res" where
  "learn_dns_answer msg now memory =
     (if length msg < 12 then Ok memory
      else rbind (idx msg 2) (\<lambda>f2. rbind (idx msg 3) (\<lambda>f3.
        if f2 AND 0x80 = 0 \<or> f3 AND 0x0f \<noteq> 0 then Ok memory
        else rbind (idx msg 4) (\<lambda>c4. rbind (idx msg 5) (\<lambda>c5.
          if from_be16 c4 c5 \<noteq> 1 then Ok memory
          else rbind (idx msg 6) (\<lambda>a6. rbind (idx msg 7) (\<lambda>a7.
            let answers = unat (from_be16 a6 a7)
            in if answers = 0 then Ok memory
               else (case read_plain_name msg 12 of
                       None \<Rightarrow> Ok memory
                     | Some (name, question_end) \<Rightarrow>
                         learn_answers (min answers 64) msg name now (question_end + 4) memory))))))))"

definition recall_name :: "ip_addr \<Rightarrow> nat \<Rightarrow> name_memory \<Rightarrow> str option" where
  "recall_name ip now memory =
     (case map_of memory ip of
        None \<Rightarrow> None
      | Some (name, expires) \<Rightarrow> if expires \<le> now then None else Some name)"

section \<open>Reading a written name\<close>

definition name_bytes :: "bytes list \<Rightarrow> bytes" where
  "name_bytes labels = concat (map (\<lambda>l. word_of_nat (length l) # l) labels) @ [0]"

definition valid_label :: "bytes \<Rightarrow> bool" where
  "valid_label l \<longleftrightarrow> 0 < length l \<and> length l < 64"

definition dotted :: "bytes list \<Rightarrow> str" where
  "dotted labels = foldl join_label [] labels"

lemma label_byte:
  assumes "valid_label l"
  shows "unat (word_of_nat (length l) :: byte) = length l" and "(word_of_nat (length l) :: byte) AND 0xc0 = 0"
proof -
  show u: "unat (word_of_nat (length l) :: byte) = length l"
    using assms by (intro unat_word_of_nat_small) (simp add: valid_label_def)
  have "(word_of_nat (length l) :: byte) = word_of_nat (length l) AND mask 6"
    using word_of_nat_and_low [of "length l" 6, where 'a = 8] assms by (simp add: valid_label_def)
  also have "\<dots> AND 0xc0 = word_of_nat (length l) AND (mask 6 AND 0xc0)"
    by (simp add: and.assoc)
  also have "mask 6 AND 0xc0 = (0 :: byte)"
    by (simp add: mask_eq_exp_minus_1)
  finally show "(word_of_nat (length l) :: byte) AND 0xc0 = 0" by simp
qed


lemma from_utf8_lossy_nonempty: "l \<noteq> [] \<Longrightarrow> from_utf8_lossy l \<noteq> []"
  using utf8_step_pos [of l] by (subst from_utf8_lossy.simps) (auto split: prod.splits)

lemma join_label_nonempty: "valid_label l \<Longrightarrow> join_label name l \<noteq> []"
  using from_utf8_lossy_nonempty [of l] by (auto simp: join_label_def valid_label_def to_ascii_lowercase_def)

lemma read_name_written:
  assumes "list_all valid_label labels" "n + length labels \<le> 128" "name \<noteq> [] \<or> labels \<noteq> []"
  shows "read_plain_name_loop (pre @ name_bytes labels @ rest) (length pre) name n =
    Some (foldl join_label name labels, length pre + length (name_bytes labels))"
  using assms
proof (induction labels arbitrary: pre name n)
  case Nil
  then show ?case
    by (subst read_plain_name_loop.simps) (simp add: name_bytes_def)
next
  case (Cons l ls)
  let ?w = "word_of_nat (length l) :: byte"
  have l: "valid_label l" using Cons.prems by simp
  have w: "unat ?w = length l" "?w AND 0xc0 = 0" by (rule label_byte [OF l])+
  have len: "0 < length l" using l by (simp add: valid_label_def)
  have msg: "pre @ name_bytes (l # ls) @ rest = (pre @ [?w]) @ l @ name_bytes ls @ rest"
    by (simp add: name_bytes_def)
  have at: "get_at (pre @ name_bytes (l # ls) @ rest) (length pre) = Some ?w"
    by (simp add: name_bytes_def)
  have range: "get_range (pre @ name_bytes (l # ls) @ rest) (length pre + 1) (length pre + 1 + length l) = Some l"
    unfolding msg using get_range_append_mid [of "pre @ [?w]" l "name_bytes ls @ rest"] by simp
  have step: "read_plain_name_loop (pre @ name_bytes (l # ls) @ rest) (length pre) name n =
      read_plain_name_loop (pre @ name_bytes (l # ls) @ rest) (length pre + 1 + length l) (join_label name l) (n + 1)"
    by (subst read_plain_name_loop.simps, unfold at)
      (use Cons.prems(2) len in \<open>simp add: w range [simplified]\<close>)
  have "pre @ name_bytes (l # ls) @ rest = (pre @ ?w # l) @ name_bytes ls @ rest"
    by (simp add: name_bytes_def)
  moreover have "length pre + 1 + length l = length (pre @ ?w # l)" by simp
  moreover have "length (name_bytes (l # ls)) = Suc (length l + length (name_bytes ls))"
    by (simp add: name_bytes_def)
  ultimately show ?case
    using Cons.IH [of "n + 1" "join_label name l" "pre @ ?w # l"] Cons.prems join_label_nonempty [OF l]
    unfolding step by simp
qed

lemma read_plain_name_written:
  assumes "list_all valid_label labels" "length labels \<le> 128" "labels \<noteq> []" "length pre = n"
  shows "read_plain_name (pre @ name_bytes labels @ rest) n =
    Some (dotted labels, n + length (name_bytes labels))"
  using read_name_written [of labels 0 "[]" pre rest] assms by (simp add: read_plain_name_def dotted_def)

lemma read_plain_name_loop_bounds:
  "read_plain_name_loop msg at name n = Some (nm, stop) \<Longrightarrow> at < stop \<and> stop \<le> length msg"
proof (induction msg at name n rule: read_plain_name_loop.induct)
  case (1 msg at name n)
  obtain b where b: "get_at msg at = Some b"
    using 1(2) by (subst (asm) read_plain_name_loop.simps) (auto split: option.splits)
  then have at: "at < length msg" by (simp add: get_at_Some)
  show ?case
  proof (cases "unat b = 0")
    case True
    with 1(2) b at show ?thesis
      by (subst (asm) read_plain_name_loop.simps) (auto split: if_splits)
  next
    case False
    with 1(2) b obtain label where label: "get_range msg (at + 1) (at + 1 + unat b) = Some label"
      and rec: "read_plain_name_loop msg (at + 1 + unat b) (join_label name label) (n + 1) = Some (nm, stop)"
      and ok: "\<not> (b AND 0xc0 \<noteq> 0 \<or> 127 < n)"
      by (subst (asm) read_plain_name_loop.simps) (auto simp: Let_def split: if_splits option.splits)
    with 1(1) [OF b refl False ok label rec] show ?thesis by simp
  qed
qed

lemma read_plain_name_bounds: "read_plain_name msg at = Some (nm, stop) \<Longrightarrow> at < stop \<and> stop \<le> length msg"
  unfolding read_plain_name_def by (rule read_plain_name_loop_bounds)

lemma dns_question_Ok:
  "\<exists>q. dns_question msg = Ok q \<and> (\<forall>nm stop. q = Some (nm, stop) \<longrightarrow>
     17 \<le> stop \<and> stop \<le> length msg \<and> msg ! 2 AND 0x80 = 0 \<and> sub msg 4 6 = [0, 1] \<and>
     read_plain_name msg 12 = Some (nm, stop - 4))"
proof (cases "length msg < 17 \<or> msg ! 2 AND 0x80 \<noteq> 0 \<or> from_be16 (msg ! 4) (msg ! 5) \<noteq> 1")
  case True
  then show ?thesis by (auto simp: dns_question_def)
next
  case False
  have s: "sub msg 4 6 = [msg ! 4, msg ! 5]"
    using False sub_two [of 4 msg] by simp
  have "unat (msg ! 4) * 256 + unat (msg ! 5) = 1"
    using False unat_from_be16 [of "msg ! 4" "msg ! 5"] by simp
  then have "unat (msg ! 4) = 0 \<and> unat (msg ! 5) = 1"
    by (cases "unat (msg ! 4)") auto
  then have one: "sub msg 4 6 = [0, 1]" by (simp add: s word_unat_eq_iff)
  show ?thesis
  proof (cases "read_plain_name msg 12")
    case None
    with False show ?thesis by (simp add: dns_question_def)
  next
    case (Some ns)
    with False one show ?thesis
      by (cases ns) (auto simp: dns_question_def dest: read_plain_name_bounds split: option.splits simp: checked_add_Some)
  qed
qed


section \<open>The sinkhole's answers\<close>

definition nxdomain_reply :: "bytes \<Rightarrow> nat \<Rightarrow> bytes" where
  "nxdomain_reply query n = take 2 query @ [(query ! 2 AND 0x01) OR 0x80, 0x83] @ sub query 4 6 @
     replicate 6 0 @ sub query 12 n"

lemma zero_range_nth:
  "j < length bs \<Longrightarrow> zero_range a n bs ! j = (if a \<le> j \<and> j < a + n then 0 else bs ! j)"
proof (induction a n bs rule: zero_range.induct)
  case (2 a n bs)
  then show ?case by (auto simp: nth_list_update)
qed auto

lemma length_zero_range [simp]: "length (zero_range a n bs) = length bs"
  by (induction a n bs rule: zero_range.induct) simp_all

lemma nxdomain_reply_eq:
  assumes "12 \<le> n" "n \<le> length q"
  shows "zero_range 6 6 ((take n q)[2 := v, 3 := w]) = take 2 q @ [v, w] @ sub q 4 6 @ replicate 6 0 @ sub q 12 n"
proof (rule nth_equalityI)
  show "length (zero_range 6 6 ((take n q)[2 := v, 3 := w])) =
    length (take 2 q @ [v, w] @ sub q 4 6 @ replicate 6 0 @ sub q 12 n)"
    using assms by simp
next
  fix i
  assume "i < length (zero_range 6 6 ((take n q)[2 := v, 3 := w]))"
  then have i: "i < n" using assms by simp
  consider "i < 2" | "i = 2" | "i = 3" | "4 \<le> i" "i < 6" | "6 \<le> i" "i < 12" | "12 \<le> i" by linarith
  then show "zero_range 6 6 ((take n q)[2 := v, 3 := w]) ! i =
    (take 2 q @ [v, w] @ sub q 4 6 @ replicate 6 0 @ sub q 12 n) ! i"
    using i assms by cases (auto simp: zero_range_nth nth_append sub_def nth_list_update nth_Cons')
qed

lemma dns_block_reply_eq:
  "dns_block_reply k s query =
     (case dns_question query of
        Ok (Some (name, n)) \<Rightarrow>
          if \<not> rules_is_empty (rs_block s) \<and> rules_matches k (rs_block s) (Domain name) 53
          then Ok (Some (nxdomain_reply query n)) else Ok None
      | _ \<Rightarrow> Ok None)"
proof -
  obtain q where q: "dns_question query = Ok q"
    and b: "\<And>nm n. q = Some (nm, n) \<Longrightarrow> 17 \<le> n \<and> n \<le> length query"
    using dns_question_Ok [of query] by blast
  show ?thesis
  proof (cases q)
    case None
    then show ?thesis by (simp add: dns_block_reply_def q)
  next
    case (Some nn)
    obtain nm n where nn: "nn = (nm, n)" by (cases nn)
    with Some b have n: "17 \<le> n" "n \<le> length query" by auto
    then have "get_range query 0 n = Some (take n query)"
      by (simp add: get_range_def)
    with n show ?thesis
      by (simp add: dns_block_reply_def q Some nn nxdomain_reply_def nxdomain_reply_eq)
  qed
qed

text \<open>C4. A query for a blocked name is answered NXDOMAIN at once, whatever its other flags and
  whatever follows the question; a query for any other name is carried.  The answer has the
  query's identifier, the response bit, only the recursion-desired flag of the query, code
  3, one question and no records, and the question itself unchanged.\<close>

theorem dns_sinkhole:
  assumes "length hdr = 12" and "hdr ! 2 AND 0x80 = 0" and "from_be16 (hdr ! 4) (hdr ! 5) = 1"
    and "labels \<noteq> []" and "length labels \<le> 128" and "list_all valid_label labels"
    and "length qtype_class = 4" and "length (hdr @ name_bytes labels @ qtype_class @ rest) < usize_bound"
  shows "dns_block_reply k s (hdr @ name_bytes labels @ qtype_class @ rest) =
    (if \<not> rules_is_empty (rs_block s) \<and> rules_matches k (rs_block s) (Domain (dotted labels)) 53
     then Ok (Some (take 2 hdr @ [(hdr ! 2 AND 0x01) OR 0x80, 0x83] @ sub hdr 4 6 @ replicate 6 0 @
       name_bytes labels @ qtype_class))
     else Ok None)"
proof -
  let ?q = "hdr @ name_bytes labels @ qtype_class @ rest"
  let ?n = "12 + length (name_bytes labels) + 4"
  have pos: "0 < length (name_bytes labels)" by (simp add: name_bytes_def)
  have name: "read_plain_name ?q 12 = Some (dotted labels, 12 + length (name_bytes labels))"
    using read_plain_name_written [OF assms(6,5,4,1), of "qtype_class @ rest"] by simp
  have "dns_question ?q = Ok (Some (dotted labels, ?n))"
    unfolding dns_question_def using assms pos name
    by (simp add: nth_append checked_add_def)
  moreover have "nxdomain_reply ?q ?n = take 2 hdr @ [(hdr ! 2 AND 0x01) OR 0x80, 0x83] @ sub hdr 4 6 @ replicate 6 0 @
       name_bytes labels @ qtype_class"
    using assms(1,7) by (simp add: nxdomain_reply_def sub_def nth_append)
  ultimately show ?thesis by (simp add: dns_block_reply_eq)
qed


theorem dns_sinkhole_witness:
  "dns_block_reply demo \<lparr>rs_block = from_matchers demo [DomainSuffix (lit ''ads.example'')], rs_direct = rules_default\<rparr>
     ([0xAB, 0xCD, 1, 0, 0, 1, 0, 0, 0, 0, 0, 0] @ name_bytes [lit ''x'', lit ''ADS'', lit ''example''] @ [0, 1, 0, 1]) =
   Ok (Some ([0xAB, 0xCD, 0x81, 0x83, 0, 1] @ replicate 6 0 @ name_bytes [lit ''x'', lit ''ADS'', lit ''example''] @ [0, 1, 0, 1]))"
proof -
  let ?r = "from_matchers demo [DomainSuffix (lit ''ads.example'')]"
  have r: "suffixes ?r = {lit ''ads.example''}" "others ?r = []" "fulls ?r = {}" "rule_count ?r = 1"
    by (simp_all add: from_matchers_def rules_default_def del: lit_Cons)
  have d: "dotted [lit ''x'', lit ''ADS'', lit ''example''] = lit ''x'' @ [46] @ lit ''ads.example''" by code_simp
  have e: "to_ascii_lowercase (trim_end_matches 46 (lit ''x'' @ [46] @ lit ''ads.example'')) = lit ''x'' @ [46] @ lit ''ads.example''"
    by code_simp
  have "label_walk {lit ''ads.example''} (lit ''x'' @ [46] @ lit ''ads.example'')"
    by (simp add: label_walk_suffix ends_with_def)
  then have "rules_matches demo ?r (Domain (dotted [lit ''x'', lit ''ADS'', lit ''example''])) 53"
    unfolding rules_matches_def d by (simp add: r e Let_def del: lit_Cons append.simps)
  then show ?thesis
    using dns_sinkhole [of "[0xAB, 0xCD, 1, 0, 0, 1, 0, 0, 0, 0, 0, 0]" "[lit ''x'', lit ''ADS'', lit ''example'']" "[0, 1, 0, 1]" "[]"
        demo "\<lparr>rs_block = ?r, rs_direct = rules_default\<rparr>"]
    by (simp add: from_be16_def valid_label_def rules_is_empty_def r sub_def name_bytes_def del: lit_Cons)
qed


section \<open>What the memory keeps\<close>

definition memory_inv :: "name_memory \<Rightarrow> bool" where
  "memory_inv m \<longleftrightarrow> distinct (map fst m) \<and> length m \<le> NAME_MEMORY_MAX"

lemma length_AList_update: "length (AList.update k v al) \<le> Suc (length al)"
  by (induction al) auto

lemma distinct_filter_fst: "distinct (map fst al) \<Longrightarrow> distinct (map fst (filter P al))"
  by (induction al) auto

lemma remember_name_inv:
  assumes "memory_inv m"
  shows "memory_inv (remember_name ip name ttl now m)"
proof -
  define kept where "kept = filter (\<lambda>(_, (_, expires)). expires > now) m"
  define m' where "m' = (if length m \<ge> NAME_MEMORY_MAX then if length kept \<ge> NAME_MEMORY_MAX then [] else kept else m)"
  have "distinct (map fst m')" "length m' < NAME_MEMORY_MAX"
    using assms by (auto simp: m'_def kept_def memory_inv_def distinct_filter_fst NAME_MEMORY_MAX_def)
  moreover have "remember_name ip name ttl now m = AList.update ip (name, now + clamp_ttl ttl) m'"
    by (simp add: remember_name_def m'_def kept_def Let_def)
  ultimately show ?thesis
    using length_AList_update [of ip "(name, now + clamp_ttl ttl)" m']
    by (auto simp: memory_inv_def distinct_update intro: le_trans)
qed

lemma answer_ip_Ok: "rdata + rdlen \<le> length msg \<Longrightarrow> \<exists>r. answer_ip msg rtype rdata rdlen = Ok r"
  by (simp add: answer_ip_def)

lemma learn_answers_inv:
  "memory_inv m \<Longrightarrow> \<exists>m'. learn_answers n msg name now at m = Ok m' \<and> memory_inv m'"
proof (induction n arbitrary: at m)
  case (Suc n)
  show ?case
  proof (cases "skip_dns_name msg at")
    case (Some p)
    show ?thesis
    proof (cases "p + 10 > length msg \<or> p + 10 + unat (from_be16 (msg ! (p + 8)) (msg ! (p + 9))) > length msg")
      case True
      with Suc.prems Some show ?thesis by (auto simp: Let_def)
    next
      case False
      then obtain r where r: "answer_ip msg (from_be16 (msg ! p) (msg ! (p + 1))) (p + 10)
          (unat (from_be16 (msg ! (p + 8)) (msg ! (p + 9)))) = Ok r"
        using answer_ip_Ok by (metis not_less)
      let ?m = "case r of None \<Rightarrow> m | Some ip \<Rightarrow> remember_name ip name (word_of_nat (be_nat (sub msg (p + 4) (p + 8)))) now m"
      have "memory_inv ?m"
        using Suc.prems by (auto simp: remember_name_inv split: option.splits)
      then show ?thesis
        using Suc.IH [of ?m] False r Some by (simp add: Let_def)
    qed
  qed (simp add: Suc.prems)
qed simp

lemma learn_dns_answer_inv:
  assumes "memory_inv m"
  shows "\<exists>m'. learn_dns_answer msg now m = Ok m' \<and> memory_inv m'"
proof (cases "length msg < 12")
  case False
  with assms learn_answers_inv [OF assms] show ?thesis
    by (auto simp: learn_dns_answer_def Let_def split: option.splits)
qed (simp add: learn_dns_answer_def assms)

definition learn_step :: "bytes \<times> nat \<Rightarrow> name_memory \<Rightarrow> name_memory" where
  "learn_step e m = (case learn_dns_answer (fst e) (snd e) m of Ok m' \<Rightarrow> m' | _ \<Rightarrow> m)"

interpretation names: invariant_machine "[]" learn_step memory_inv
proof unfold_locales
  show "memory_inv []" by (simp add: memory_inv_def)
next
  fix m e
  assume "memory_inv m"
  with learn_dns_answer_inv [OF this, of "fst e" "snd e"] show "memory_inv (learn_step e m)"
    by (auto simp: learn_step_def)
qed

text \<open>C12. The memory of names is bounded and the answers of a hostile resolver cannot crash the
  relay: after any sequence of datagrams learnt at any instants it holds one entry per
  address and at most \<open>NAME_MEMORY_MAX\<close> of them, and learning from any further datagram
  returns.\<close>

theorem name_memory_bounded:
  "let m = fold learn_step es [] in
     distinct (map fst m) \<and> length m \<le> NAME_MEMORY_MAX \<and> (\<exists>m'. learn_dns_answer msg now m = Ok m')"
  using names.run_inv [of es] learn_dns_answer_inv [of "fold learn_step es []" msg now]
  by (auto simp: memory_inv_def Let_def)


lemma skip_pointer: "skip_dns_name (pre @ 0xC0 # b # rest) (length pre) = Some (length pre + 2)"
  by (simp add: skip_dns_name_def skip_dns_name_loop.simps)

lemma map_of_remember:
  "length m < NAME_MEMORY_MAX \<Longrightarrow>
   map_of (remember_name ip name ttl now m) = (map_of m)(ip \<mapsto> (name, now + clamp_ttl ttl))"
  by (simp add: remember_name_def update_conv' del: fun_upd_apply)

text \<open>An answer with one A record that refers back to the question's name.\<close>

definition a_record :: "byte \<Rightarrow> bytes \<Rightarrow> bytes \<Rightarrow> bytes \<Rightarrow> bytes" where
  "a_record ptr cls ttl addr = [0xC0, ptr, 0, 1] @ cls @ ttl @ [0, 4] @ addr"

lemma learn_one_record:
  assumes "length cls = 2" "length ttl = 4" "length addr = 4"
  shows "learn_answers (Suc 0) (pre @ a_record ptr cls ttl addr) name now (length pre) m =
    Ok (remember_name (V4 (v4_of_octets addr)) name (word_of_nat (be_nat ttl)) now m)"
proof -
  obtain c0 c1 where c: "cls = [c0, c1]" using assms(1) by (auto simp: length_Suc_conv numeral_2_eq_2)
  obtain t0 t1 t2 t3 where t: "ttl = [t0, t1, t2, t3]" using assms(2) by (auto simp: length_Suc_conv eval_nat_numeral)
  obtain a0 a1 a2 a3 where a: "addr = [a0, a1, a2, a3]" using assms(3) by (auto simp: length_Suc_conv eval_nat_numeral)
  let ?msg = "pre @ [0xC0, ptr, 0, 1, c0, c1, t0, t1, t2, t3, 0, 4, a0, a1, a2, a3]"
  have skip: "skip_dns_name ?msg (length pre) = Some (length pre + 2)"
    using skip_pointer [of pre ptr "[0, 1, c0, c1, t0, t1, t2, t3, 0, 4, a0, a1, a2, a3]"] by simp
  have b: "from_be16 0 1 = 1" "from_be16 0 4 = 4" by (simp_all add: from_be16_def)
  have s: "sub ?msg (6 + length pre) (10 + length pre) = [t0, t1, t2, t3]"
    by (simp add: sub_def)
  have "answer_ip ?msg 1 (12 + length pre) 4 = Ok (Some (V4 (v4_of_octets [a0, a1, a2, a3])))"
    by (simp add: answer_ip_def nth_append)
  then show ?thesis
    using skip s by (simp add: a_record_def c t a Let_def b add.assoc nth_append)
qed



end
