(* ===== verification/Https.thy ===== *)
theory Https
  imports Route_Dns Errors
begin

text \<open>
  \<open>https.rs\<close>: the HTTP/1.1 side of the calls that are not tunnels.  An answer comes in reads
  of any size; \<open>Http1Answer\<close> keeps what has come and how far it has looked, so that each byte
  is looked at about once, and \<open>Dechunker\<close> joins a chunked body the same way.  Both are kept
  here with their cursors.  The theorems say that the cursors never change the outcome: an
  answer read in pieces is the answer read at once, and an answer as a server writes it is
  read back whole, however the connection cuts it.
\<close>

unbundle bit_operations_syntax

definition MAX_BODY :: nat where "MAX_BODY = 512 * 1024"
definition MAX_LINE :: nat where "MAX_LINE = 8 * 1024"

section \<open>The request\<close>

record http_request =
  rq_method :: str
  rq_host :: str
  rq_port :: u16
  rq_address :: "(str \<times> u16) option"
  rq_sni :: "str option"
  rq_path :: str
  rq_headers :: "(str \<times> str) list"
  rq_body :: "bytes option"

definition authority :: "str \<Rightarrow> u16 \<Rightarrow> str" where
  "authority host0 port =
     (let host = (if 58 \<in> set host0 then lit ''['' @ host0 @ lit '']'' else host0)
      in if port = 443 then host else host @ lit '':'' @ show_nat (unat port))"

definition crlf :: str where "crlf = [13, 10]"

definition http1_wire :: "http_request \<Rightarrow> bytes" where
  "http1_wire request =
     rq_method request @ lit '' '' @ rq_path request @ lit '' HTTP/1.1'' @ crlf @
     lit ''Host: '' @ authority (rq_host request) (rq_port request) @ crlf @
     concat (map (\<lambda>(name, value). name @ lit '': '' @ value @ crlf) (rq_headers request)) @
     (case rq_body request of None \<Rightarrow> [] | Some body \<Rightarrow> lit ''Content-Length: '' @ show_nat (length body) @ crlf) @
     lit ''Connection: close'' @ crlf @ crlf @
     (case rq_body request of None \<Rightarrow> [] | Some body \<Rightarrow> body)"

section \<open>A chunked body\<close>

record dechunker =
  dc_at :: nat
  dc_searched :: nat
  dc_data :: "nat option"
  dc_trailer :: bool
  dc_done :: bool
  dc_joined :: bytes

definition dc_new :: dechunker where
  "dc_new = \<lparr>dc_at = 0, dc_searched = 0, dc_data = None, dc_trailer = False, dc_done = False, dc_joined = []\<rparr>"

text \<open>\<open>windows(n).position(..)\<close>: where a pattern first stands in a text.\<close>

fun find_sub :: "'a list \<Rightarrow> 'a list \<Rightarrow> nat option" where
  "find_sub p [] = (if p = [] then Some 0 else None)"
| "find_sub p (x # xs) = (if starts_with (x # xs) p then Some 0 else map_option Suc (find_sub p xs))"

text \<open>\<open>usize::from_str_radix(_, 16)\<close>.\<close>

definition parse_hex :: "str \<Rightarrow> nat option" where
  "parse_hex s =
     (let ds = (case s of [] \<Rightarrow> [] | c # r \<Rightarrow> if c = 43 then r else s)
      in if ds \<noteq> [] \<and> list_all (\<lambda>b. hex_digit_value b \<noteq> None) ds \<and> radix_value 16 0 ds < usize_bound
         then Some (radix_value 16 0 ds) else None)"

definition malformed :: "str \<Rightarrow> aether_error" where
  "malformed what = Api (lit ''a chunked answer with '' @ what)"

definition chunk_size :: "bytes \<Rightarrow> nat option" where
  "chunk_size line = (if utf8_valid line then parse_hex (trim (hd (split_on 59 line))) else None)"

definition from_pos :: "nat \<Rightarrow> nat \<Rightarrow> nat \<Rightarrow> nat" where
  "from_pos searched back start = max (searched - back) start"

lemma find_sub_Some: "find_sub p s = Some i \<Longrightarrow> i + length p \<le> length s \<and> sub s i (i + length p) = p"
  by (induction s arbitrary: i) (auto simp: starts_with_def sub_def split: if_splits, metis length_take min.cobounded1 length_Cons)

lemma find_crlf_bound: "find_sub crlf (drop from body) = Some i \<Longrightarrow> from + i + 2 \<le> length body"
  using find_sub_Some [of crlf "drop from body" i] by (auto simp: crlf_def)

function dc_advance :: "dechunker \<Rightarrow> bytes \<Rightarrow> (bool \<times> dechunker) aresult" where
  "dc_advance d body =
     (if dc_done d then Ok (True, d)
      else (case dc_data d of
        Some n \<Rightarrow>
          (case checked_add (dc_at d) n of
             None \<Rightarrow> Err (malformed (lit ''a chunk too large''))
           | Some e \<Rightarrow>
             (case checked_add e 2 of
                None \<Rightarrow> Err (malformed (lit ''a chunk too large''))
              | Some stop \<Rightarrow>
                  if length body < stop then Ok (False, d)
                  else if sub body (stop - 2) stop \<noteq> crlf then Err (malformed (lit ''no line end after a chunk''))
                  else dc_advance (d\<lparr>dc_joined := dc_joined d @ sub body (dc_at d) (stop - 2),
                         dc_at := stop, dc_searched := stop, dc_data := None\<rparr>) body))
      | None \<Rightarrow>
          (let from = from_pos (dc_searched d) 1 (dc_at d)
           in if from > length body then Panic
              else (case find_sub crlf (drop from body) of
                None \<Rightarrow>
                  if length body - dc_at d > MAX_LINE then Err (malformed (lit ''a line too long''))
                  else Ok (False, d\<lparr>dc_searched := length body\<rparr>)
              | Some offset \<Rightarrow>
                  (let stop = from + offset; line = sub body (dc_at d) stop;
                       d = d\<lparr>dc_at := stop + 2, dc_searched := stop + 2\<rparr>
                   in if dc_trailer d then dc_advance (d\<lparr>dc_done := line = []\<rparr>) body
                      else (case chunk_size line of
                              None \<Rightarrow> Err (malformed (lit ''a bad chunk size''))
                            | Some n \<Rightarrow>
                                if n = 0 then dc_advance (d\<lparr>dc_trailer := True\<rparr>) body
                                else dc_advance (d\<lparr>dc_data := Some n\<rparr>) body))))))"
  by pat_completeness auto
termination
  by (relation "measure (\<lambda>(d, body). length body + 1 - dc_at d)")
    (auto simp: checked_add_Some from_pos_def dest!: find_crlf_bound)

declare dc_advance.simps [simp del]

definition dc_finish :: "dechunker \<Rightarrow> bytes aresult" where
  "dc_finish d =
     (if dc_done d then Ok (dc_joined d)
      else Err (Api (lit ''the chunked answer ended before its last chunk'')))"


section \<open>An answer\<close>

datatype framing = Length nat | Chunked dechunker | Close

record http1_head =
  hd_status :: nat
  hd_fields :: "(str \<times> str) list"
  hd_body_start :: nat
  hd_framing :: framing

record http1_answer =
  an_raw :: bytes
  an_head_start :: nat
  an_searched :: nat
  an_head :: "http1_head option"

definition an_new :: http1_answer where
  "an_new = \<lparr>an_raw = [], an_head_start = 0, an_searched = 0, an_head = None\<rparr>"

text \<open>\<open>str::split_whitespace\<close>.\<close>

function split_ws :: "str \<Rightarrow> str \<Rightarrow> str list" where
  "split_ws acc s =
     (if s = [] then (if acc = [] then [] else [rev acc])
      else let n = strip_seqs ws_seqs s
        in if n = 0 then split_ws (hd s # acc) (tl s)
           else (if acc = [] then [] else [rev acc]) @ split_ws [] (drop n s))"
  by pat_completeness auto
termination
  by (relation "measure (\<lambda>(acc, s). length s)") auto

declare split_ws.simps [simp del]

definition split_whitespace :: "str \<Rightarrow> str list" where
  "split_whitespace s = split_ws [] s"

definition http1_head_of :: "bytes \<Rightarrow> (nat \<times> (str \<times> str) list) aresult" where
  "http1_head_of head0 =
     (let parts = split_str crlf [] (from_utf8_lossy head0); status_line = hd parts
      in case (case get_at (split_whitespace status_line) 1 of None \<Rightarrow> None | Some token \<Rightarrow> parse_uint (2 ^ 16) token) of
           None \<Rightarrow> Err (Api (lit ''bad status line: '' @ status_line))
         | Some status \<Rightarrow>
             Ok (status, map (\<lambda>(name, value). (trim name, trim value)) (List.map_filter (split_once 58) (tl parts))))"

definition field :: "(str \<times> str) list \<Rightarrow> str \<Rightarrow> str option" where
  "field fs wanted = map_option snd (find (\<lambda>(name, _). eq_ignore_ascii_case name wanted) fs)"

definition framing_of :: "nat \<Rightarrow> (str \<times> str) list \<Rightarrow> framing aresult" where
  "framing_of status fs =
     (if status = 204 \<or> status = 304 then Ok (Length 0)
      else if (case field fs (lit ''transfer-encoding'') of None \<Rightarrow> False
               | Some value \<Rightarrow> contains (to_ascii_lowercase value) (lit ''chunked''))
      then Ok (Chunked dc_new)
      else (case field fs (lit ''content-length'') of
              Some value \<Rightarrow> (case parse_uint usize_bound value of
                Some n \<Rightarrow> Ok (Length n)
              | None \<Rightarrow> Err (Api (lit ''bad Content-Length: '' @ value)))
            | None \<Rightarrow> Ok Close))"

definition head_end :: str where "head_end = [13, 10, 13, 10]"

lemma find_head_end_bound: "find_sub head_end (drop from raw) = Some i \<Longrightarrow> from + i + 4 \<le> length raw"
  using find_sub_Some [of head_end "drop from raw" i] by (auto simp: head_end_def)

text \<open>The loop of \<open>push\<close> that looks for the head, past interim answers; whether there is one.\<close>

function head_loop :: "http1_answer \<Rightarrow> (bool \<times> http1_answer) aresult" where
  "head_loop a =
     (if an_head a \<noteq> None then Ok (True, a)
      else (let from = from_pos (an_searched a) 3 (an_head_start a)
        in if from > length (an_raw a) then Panic
           else (case find_sub head_end (drop from (an_raw a)) of
             None \<Rightarrow> Ok (False, a\<lparr>an_searched := length (an_raw a)\<rparr>)
           | Some offset \<Rightarrow>
               (let stop = from + offset
                in rbind (http1_head_of (sub (an_raw a) (an_head_start a) stop)) (\<lambda>(status, fs).
                   if 100 \<le> status \<and> status < 200 \<and> status \<noteq> 101 then
                     head_loop (a\<lparr>an_head_start := stop + 4, an_searched := stop + 4\<rparr>)
                   else rbind (framing_of status fs) (\<lambda>framing.
                     Ok (True, a\<lparr>an_head := Some \<lparr>hd_status = status, hd_fields = fs,
                          hd_body_start = stop + 4, hd_framing = framing\<rparr>\<rparr>)))))))"
  by pat_completeness auto
termination
  by (relation "measure (\<lambda>a. length (an_raw a) + 1 - an_head_start a)")
    (auto simp: from_pos_def dest!: find_head_end_bound)

declare head_loop.simps [simp del]

definition body_step :: "http1_answer \<Rightarrow> (bool \<times> http1_answer) aresult" where
  "body_step a =
     (case an_head a of
        None \<Rightarrow> Panic
      | Some head \<Rightarrow>
          if hd_body_start head > length (an_raw a) then Panic
          else (let body = drop (hd_body_start head) (an_raw a)
            in case hd_framing head of
                 Length n \<Rightarrow> Ok (n \<le> length body, a)
               | Chunked d \<Rightarrow> rbind (dc_advance d body) (\<lambda>(whole, d).
                   Ok (whole, a\<lparr>an_head := Some (head\<lparr>hd_framing := Chunked d\<rparr>)\<rparr>))
               | Close \<Rightarrow> Ok (False, a)))"

definition an_push :: "http1_answer \<Rightarrow> bytes \<Rightarrow> (bool \<times> http1_answer) aresult" where
  "an_push a0 bs =
     (let a = a0\<lparr>an_raw := an_raw a0 @ bs\<rparr>
      in if length (an_raw a) > MAX_BODY then Err (Api (lit ''the answer is too large''))
         else rbind (head_loop a) (\<lambda>(found, a). if found then body_step a else Ok (False, a)))"

definition an_finish :: "http1_answer \<Rightarrow> (nat \<times> (str \<times> str) list \<times> bytes) aresult" where
  "an_finish a =
     (case an_head a of
        None \<Rightarrow> Err (Api (if an_raw a = [] then lit ''empty response'' else lit ''truncated response head''))
      | Some head \<Rightarrow>
          if hd_body_start head > length (an_raw a) then Panic
          else (let body = drop (hd_body_start head) (an_raw a)
            in rbind (case hd_framing head of
                 Length n \<Rightarrow> if length body < n
                   then Err (Api (lit ''the answer ended after '' @ show_nat (length body) @ lit '' of its '' @ show_nat n @ lit '' bytes''))
                   else Ok (take n body)
               | Chunked d \<Rightarrow> dc_finish d
               | Close \<Rightarrow> Ok body) (\<lambda>body. Ok (hd_status head, hd_fields head, body))))"

text \<open>The reading side of \<open>over_http1\<close>: the reads the connection gives until it ends, the
  answer taken as soon as it is whole.\<close>

fun read_answer :: "http1_answer \<Rightarrow> bytes list \<Rightarrow> (nat \<times> (str \<times> str) list \<times> bytes) aresult" where
  "read_answer a [] = an_finish a"
| "read_answer a (r # rs) =
     (if r = [] then an_finish a
      else rbind (an_push a r) (\<lambda>(whole, a). if whole then an_finish a else read_answer a rs))"


section \<open>Searching on\<close>

lemma starts_with_length: "starts_with s p \<Longrightarrow> length p \<le> length s"
  unfolding starts_with_def by (metis length_take min.cobounded1)

lemma starts_with_append: "length p \<le> length s \<Longrightarrow> starts_with (s @ t) p \<longleftrightarrow> starts_with s p"
  by (simp add: starts_with_def)

lemma find_sub_iff: "find_sub p s = Some i \<longleftrightarrow>
    i \<le> length s \<and> starts_with (drop i s) p \<and> (\<forall>j<i. \<not> starts_with (drop j s) p)"
proof (induction s arbitrary: i)
  case Nil
  then show ?case by (auto simp: starts_with_def)
next
  case (Cons x s)
  show ?case
  proof (cases i)
    case (Suc k)
    then show ?thesis
      by (auto simp: Cons less_Suc_eq_0_disj)
  qed (auto)
qed

lemma find_sub_None_iff: "find_sub p s = None \<longleftrightarrow> (\<forall>j\<le>length s. \<not> starts_with (drop j s) p)"
proof (induction s)
  case Nil
  then show ?case by (simp add: starts_with_def)
next
  case (Cons x s)
  have "(\<forall>j\<le>length (x # s). \<not> starts_with (drop j (x # s)) p) \<longleftrightarrow>
      \<not> starts_with (x # s) p \<and> (\<forall>j\<le>length s. \<not> starts_with (drop j s) p)"
    using All_less_Suc2 [of "Suc (length s)" "\<lambda>j. \<not> starts_with (drop j (x # s)) p"] by (simp add: less_Suc_eq_le)
  with Cons show ?case by simp
qed

definition pos_from :: "'a list \<Rightarrow> nat \<Rightarrow> 'a list \<Rightarrow> nat option" where
  "pos_from p f u = map_option (\<lambda>i. f + i) (find_sub p (drop f u))"

lemma pos_from_skip:
  assumes "f \<le> g" "g \<le> length u" "\<forall>j. f \<le> j \<and> j < g \<longrightarrow> \<not> starts_with (drop j u) p"
  shows "pos_from p f u = pos_from p g u"
  using assms
proof (induction "g - f" arbitrary: f)
  case (Suc n)
  then have "drop f u = u ! f # drop (Suc f) u" by (intro Cons_nth_drop_Suc [symmetric]) simp
  moreover have "\<not> starts_with (drop f u) p" using Suc by simp
  ultimately have "pos_from p f u = pos_from p (Suc f) u"
    by (simp add: pos_from_def option.map_comp comp_def)
  also have "\<dots> = pos_from p g u" using Suc by (intro Suc.hyps(1)) auto
  finally show ?case .
qed simp

lemma pos_from_resume:
  assumes "find_sub p (drop f s) = None" "f \<le> length s" "length p = Suc k"
  shows "pos_from p f (s @ t) = pos_from p (max (length s - k) f) (s @ t)"
proof (rule pos_from_skip)
  show "\<forall>j. f \<le> j \<and> j < max (length s - k) f \<longrightarrow> \<not> starts_with (drop j (s @ t)) p"
  proof (intro allI impI)
    fix j assume j: "f \<le> j \<and> j < max (length s - k) f"
    then have "j < length s - k" by auto
    then have "length p \<le> length (drop j s)" using assms(3) by simp
    moreover have "\<not> starts_with (drop (j - f) (drop f s)) p"
      by (rule assms(1) [unfolded find_sub_None_iff, rule_format]) (use \<open>j < length s - k\<close> in simp)
    ultimately show "\<not> starts_with (drop j (s @ t)) p"
      using j \<open>j < length s - k\<close> by (simp add: starts_with_append)
  qed
qed (use assms in auto)

lemma find_sub_append:
  assumes "find_sub p (drop f s) = Some i" "p \<noteq> []"
  shows "find_sub p (drop f (s @ t)) = Some i"
proof -
  have b: "i + length p \<le> length (drop f s)" using find_sub_Some [OF assms(1)] by simp
  then have f: "f \<le> length s" using assms(2) by (cases "f \<le> length s") auto
  have "j \<le> i \<Longrightarrow> starts_with (drop j (drop f (s @ t))) p \<longleftrightarrow> starts_with (drop j (drop f s)) p" for j
    using b f by (simp add: starts_with_append)
  then show ?thesis using assms(1) b f unfolding find_sub_iff by simp
qed

lemma find_sub_prefix:
  assumes "find_sub p s = Some i" "k < i + length p"
  shows "find_sub p (take k s) = None"
  unfolding find_sub_None_iff
proof (intro allI impI notI)
  fix j assume j: "j \<le> length (take k s)" "starts_with (drop j (take k s)) p"
  then have "length p \<le> length (take k s) - j" using starts_with_length by fastforce
  then have "j + length p \<le> k" using j(1) by auto
  then have "j < i" using assms(2) by simp
  moreover have "starts_with (drop j s) p"
    using j(2) by (auto simp: starts_with_def drop_take take_take min_def split: if_splits)
  ultimately show False using assms(1) by (simp add: find_sub_iff)
qed


section \<open>Reading in pieces\<close>

lemma dc_advance_done: "dc_done d \<Longrightarrow> dc_advance d body = Ok (True, d)"
  by (subst dc_advance.simps) simp

text \<open>The state after a line that ends at \<open>stop\<close>, and the line branch in its terms.\<close>

definition dc_next :: "dechunker \<Rightarrow> bytes \<Rightarrow> nat \<Rightarrow> dechunker option" where
  "dc_next d line stop =
     (let d = d\<lparr>dc_at := stop + 2, dc_searched := stop + 2\<rparr>
      in if dc_trailer d then Some (d\<lparr>dc_done := line = []\<rparr>)
         else map_option (\<lambda>n. if n = 0 then d\<lparr>dc_trailer := True\<rparr> else d\<lparr>dc_data := Some n\<rparr>) (chunk_size line))"

lemma dc_next_at: "dc_next d line stop = Some d' \<Longrightarrow> dc_at d' = stop + 2 \<and> dc_searched d' = stop + 2"
  by (auto simp: dc_next_def Let_def split: if_splits)

lemma dc_next_searched [simp]: "dc_next (d\<lparr>dc_searched := k\<rparr>) line stop = dc_next d line stop"
  by (simp add: dc_next_def)

lemma dc_advance_line:
  assumes "\<not> dc_done d" "dc_data d = None" "from_pos (dc_searched d) 1 (dc_at d) \<le> length body"
  shows "dc_advance d body =
    (case pos_from crlf (from_pos (dc_searched d) 1 (dc_at d)) body of
       None \<Rightarrow> if length body - dc_at d > MAX_LINE then Err (malformed (lit ''a line too long''))
          else Ok (False, d\<lparr>dc_searched := length body\<rparr>)
     | Some stop \<Rightarrow> (case dc_next d (sub body (dc_at d) stop) stop of
          None \<Rightarrow> Err (malformed (lit ''a bad chunk size'')) | Some d' \<Rightarrow> dc_advance d' body))"
  using assms
  by (subst dc_advance.simps)
    (auto simp: Let_def pos_from_def dc_next_def simp del: One_nat_def split: option.splits)

lemma dc_advance_panics:
  assumes "\<not> dc_done d" "dc_data d = None" "length body < from_pos (dc_searched d) 1 (dc_at d)"
  shows "dc_advance d body = Panic"
  using assms by (subst dc_advance.simps) (simp add: Let_def)

lemma dc_advance_data:
  assumes "\<not> dc_done d" "dc_data d = Some n"
  shows "dc_advance d body =
    (if dc_at d + n + 2 < usize_bound then
       (if length body < dc_at d + n + 2 then Ok (False, d)
        else if sub body (dc_at d + n) (dc_at d + n + 2) \<noteq> crlf then Err (malformed (lit ''no line end after a chunk''))
        else dc_advance (d\<lparr>dc_joined := dc_joined d @ sub body (dc_at d) (dc_at d + n),
               dc_at := dc_at d + n + 2, dc_searched := dc_at d + n + 2, dc_data := None\<rparr>) body)
     else Err (malformed (lit ''a chunk too large'')))"
  using assms by (subst dc_advance.simps) (auto simp: checked_add_def)


lemma pos_from_bound: "pos_from crlf f body = Some stop \<Longrightarrow> f \<le> stop \<and> stop + 2 \<le> length body"
  by (auto simp: pos_from_def dest: find_crlf_bound)

lemma sub_append_left: "j \<le> length xs \<Longrightarrow> sub (xs @ ys) i j = sub xs i j"
  by (simp add: sub_def)

lemma from_pos_resume: "searched \<le> n \<Longrightarrow> max (n - k) (from_pos searched k start) = from_pos n k start"
  by (auto simp: from_pos_def)

lemma dc_resume:
  fixes d :: dechunker
  assumes "\<not> dc_done d" "dc_data d = None" "from_pos (dc_searched d) 1 (dc_at d) \<le> length body"
    and "pos_from crlf (from_pos (dc_searched d) 1 (dc_at d)) body = None" "dc_searched d \<le> length body"
  shows "dc_advance d (body @ ext) = dc_advance (d\<lparr>dc_searched := length body\<rparr>) (body @ ext)"
proof -
  let ?f = "from_pos (dc_searched d) 1 (dc_at d)"
  have "pos_from crlf ?f (body @ ext) = pos_from crlf (from_pos (length body) 1 (dc_at d)) (body @ ext)"
    using pos_from_resume [of crlf ?f body 1 ext] assms from_pos_resume [OF assms(5), of 1 "dc_at d"]
    by (simp add: pos_from_def crlf_def)
  moreover have "from_pos (length body) 1 (dc_at d) \<le> length (body @ ext)"
    using assms(3) by (auto simp: from_pos_def)
  ultimately show ?thesis
    using dc_advance_line [of d "body @ ext"] dc_advance_line [of "d\<lparr>dc_searched := length body\<rparr>" "body @ ext"] assms
    by (auto split: option.splits)
qed

lemma dc_advance_more:
  fixes d :: dechunker
  assumes "dc_advance d body = Ok (w, d1)" "dc_searched d \<le> length body"
  shows "dc_advance d (body @ ext) = dc_advance d1 (body @ ext) \<and> dc_searched d1 \<le> length body \<and> (w \<longrightarrow> dc_done d1)"
  using assms
proof (induction "length body + 1 - dc_at d" arbitrary: d rule: less_induct)
  case less
  show ?case
  proof (cases "dc_done d")
    case True
    with less.prems show ?thesis by (simp add: dc_advance_done)
  next
    case nd: False
    show ?thesis
    proof (cases "dc_data d")
      case (Some n)
      let ?d = "d\<lparr>dc_joined := dc_joined d @ sub body (dc_at d) (dc_at d + n),
               dc_at := dc_at d + n + 2, dc_searched := dc_at d + n + 2, dc_data := None\<rparr>"
      note eq = dc_advance_data [OF nd Some]
      show ?thesis
      proof (cases "length body < dc_at d + n + 2")
        case True
        then have "d1 = d" "\<not> w" using less.prems(1) unfolding eq [of body] by (auto split: if_splits)
        with less.prems(2) show ?thesis by simp
      next
        case False
        then have "dc_advance d (body @ ext) = dc_advance ?d (body @ ext)" "dc_advance ?d body = Ok (w, d1)"
          using less.prems(1) by (auto simp: eq sub_append_left split: if_splits)
        with less.hyps [of ?d] False show ?thesis by simp
      qed
    next
      case None
      let ?f = "from_pos (dc_searched d) 1 (dc_at d)"
      have f: "?f \<le> length body"
        using less.prems(1) dc_advance_panics [OF nd None] by (cases "?f \<le> length body") auto
      note eq = dc_advance_line [OF nd None]
      show ?thesis
      proof (cases "pos_from crlf ?f body")
        case pn: None
        then have d1: "d1 = d\<lparr>dc_searched := length body\<rparr>" "\<not> w"
          using less.prems(1) by (auto simp: eq [OF f] split: if_splits)
        with less.prems(2) show ?thesis using dc_resume [OF nd None f pn less.prems(2)] by simp
      next
        case (Some stop)
        then obtain d' where d': "dc_next d (sub body (dc_at d) stop) stop = Some d'" "dc_advance d' body = Ok (w, d1)"
          using less.prems(1) by (auto simp: eq [OF f] split: option.splits)
        have b: "?f \<le> stop" "stop + 2 \<le> length body" using pos_from_bound [OF Some] by auto
        have "pos_from crlf ?f (body @ ext) = Some stop"
          using Some find_sub_append [of crlf ?f body _ ext] by (auto simp: pos_from_def crlf_def)
        then have "dc_advance d (body @ ext) = dc_advance d' (body @ ext)"
          using eq [of "body @ ext"] f b d'(1) by (simp add: sub_append_left)
        moreover have "dc_at d < dc_at d'" using dc_next_at [OF d'(1)] b by (auto simp: from_pos_def)
        ultimately show ?thesis using less.hyps [OF _ d'(2)] dc_next_at [OF d'(1)] b by simp
      qed
    qed
  qed
qed


subsection \<open>The head\<close>

abbreviation (input) grow :: "http1_answer \<Rightarrow> bytes \<Rightarrow> http1_answer" where
  "grow a ext \<equiv> a\<lparr>an_raw := an_raw a @ ext\<rparr>"

text \<open>What stands before \<open>stop\<close>: an interim answer, or the head.\<close>

definition head_next :: "bytes \<Rightarrow> nat \<Rightarrow> nat \<Rightarrow> http1_head option aresult" where
  "head_next raw start stop =
     rbind (http1_head_of (sub raw start stop)) (\<lambda>(status, fs).
       if 100 \<le> status \<and> status < 200 \<and> status \<noteq> 101 then Ok None
       else rbind (framing_of status fs) (\<lambda>framing.
         Ok (Some \<lparr>hd_status = status, hd_fields = fs, hd_body_start = stop + 4, hd_framing = framing\<rparr>)))"

lemma head_loop_found: "an_head a = Some h \<Longrightarrow> head_loop a = Ok (True, a)"
  by (subst head_loop.simps) simp

lemma head_loop_eq:
  assumes "an_head a = None" "from_pos (an_searched a) 3 (an_head_start a) \<le> length (an_raw a)"
  shows "head_loop a =
    (case pos_from head_end (from_pos (an_searched a) 3 (an_head_start a)) (an_raw a) of
       None \<Rightarrow> Ok (False, a\<lparr>an_searched := length (an_raw a)\<rparr>)
     | Some stop \<Rightarrow> rbind (head_next (an_raw a) (an_head_start a) stop) (\<lambda>r.
         case r of Some h \<Rightarrow> Ok (True, a\<lparr>an_head := Some h\<rparr>)
         | None \<Rightarrow> head_loop (a\<lparr>an_head_start := stop + 4, an_searched := stop + 4\<rparr>)))"
proof -
  have split: "rbind (rbind x f) g = rbind x (\<lambda>y. rbind (f y) g)" for x :: "'x aresult" and f :: "'x \<Rightarrow> 'y aresult" and g :: "'y \<Rightarrow> 'z aresult"
    by (cases x) auto
  show ?thesis
    using assms
    by (subst head_loop.simps)
      (auto simp: Let_def pos_from_def head_next_def split simp del: head_loop.simps
        split: option.splits intro!: arg_cong2 [where f = rbind])
qed

lemma head_loop_panics:
  "an_head a = None \<Longrightarrow> length (an_raw a) < from_pos (an_searched a) 3 (an_head_start a) \<Longrightarrow> head_loop a = Panic"
  by (subst head_loop.simps) (simp add: Let_def)

text \<open>Once the head is found, how far the search had gone no longer matters: answers are
  compared with that cursor reset.\<close>

definition norm :: "http1_answer \<Rightarrow> http1_answer" where
  "norm a = (if an_head a = None then a else a\<lparr>an_searched := 0\<rparr>)"

definition nrm :: "(bool \<times> http1_answer) aresult \<Rightarrow> (bool \<times> http1_answer) aresult" where
  "nrm r = rbind r (\<lambda>(w, a). Ok (w, norm a))"

definition an_inv :: "http1_answer \<Rightarrow> bool" where
  "an_inv a \<longleftrightarrow> an_searched a \<le> length (an_raw a) \<and>
     (\<forall>h. an_head a = Some h \<longrightarrow> hd_body_start h \<le> length (an_raw a) \<and>
        (\<forall>d. hd_framing h = Chunked d \<longrightarrow> dc_searched d \<le> length (an_raw a) - hd_body_start h))"

lemma framing_of_new: "framing_of status fs = Ok (Chunked d) \<Longrightarrow> d = dc_new"
  by (auto simp: framing_of_def split: if_splits option.splits)

lemma head_next_Some:
  assumes "head_next raw start stop = Ok (Some h)"
  shows "hd_body_start h = stop + 4 \<and> (\<forall>d. hd_framing h = Chunked d \<longrightarrow> d = dc_new)"
proof -
  obtain status fs framing where "framing_of status fs = Ok framing" "h = \<lparr>hd_status = status, hd_fields = fs, hd_body_start = stop + 4, hd_framing = framing\<rparr>"
    using assms unfolding head_next_def by (auto simp: rbind_eq_Ok split: if_splits)
  then show ?thesis by (auto dest: framing_of_new)
qed

lemma head_next_append: "stop \<le> length raw \<Longrightarrow> head_next (raw @ ext) start stop = head_next raw start stop"
  by (simp add: head_next_def sub_append_left)

lemma pos_head_bound: "pos_from head_end f raw = Some stop \<Longrightarrow> f \<le> stop \<and> stop + 4 \<le> length raw"
  by (auto simp: pos_from_def dest: find_head_end_bound)

lemma head_resume:
  fixes a :: http1_answer
  assumes "an_head a = None" "an_searched a \<le> length (an_raw a)"
    and "from_pos (an_searched a) 3 (an_head_start a) \<le> length (an_raw a)"
    and "pos_from head_end (from_pos (an_searched a) 3 (an_head_start a)) (an_raw a) = None"
  shows "nrm (head_loop (grow a ext)) = nrm (head_loop (grow (a\<lparr>an_searched := length (an_raw a)\<rparr>) ext))"
proof -
  let ?n = "length (an_raw a)" and ?f = "from_pos (an_searched a) 3 (an_head_start a)"
  let ?g = "from_pos ?n 3 (an_head_start a)" and ?r = "an_raw a @ ext"
  have pos: "pos_from head_end ?f ?r = pos_from head_end ?g ?r"
    using pos_from_resume [of head_end ?f "an_raw a" 3 ext] assms from_pos_resume [OF assms(2), of 3 "an_head_start a"]
    by (simp add: pos_from_def head_end_def)
  have g: "?g \<le> length ?r" using assms(3) by (auto simp: from_pos_def)
  have e1: "head_loop (grow a ext) = (case pos_from head_end ?g ?r of
       None \<Rightarrow> Ok (False, a\<lparr>an_raw := ?r, an_searched := length ?r\<rparr>)
     | Some stop \<Rightarrow> rbind (head_next ?r (an_head_start a) stop) (\<lambda>r.
         case r of Some h \<Rightarrow> Ok (True, a\<lparr>an_raw := ?r, an_head := Some h\<rparr>)
         | None \<Rightarrow> head_loop (a\<lparr>an_raw := ?r, an_head_start := stop + 4, an_searched := stop + 4\<rparr>)))"
    using head_loop_eq [of "grow a ext"] assms(1,3) by (simp add: pos [symmetric] cong: option.case_cong)
  have e2: "head_loop (grow (a\<lparr>an_searched := ?n\<rparr>) ext) = (case pos_from head_end ?g ?r of
       None \<Rightarrow> Ok (False, a\<lparr>an_raw := ?r, an_searched := length ?r\<rparr>)
     | Some stop \<Rightarrow> rbind (head_next ?r (an_head_start a) stop) (\<lambda>r.
         case r of Some h \<Rightarrow> Ok (True, a\<lparr>an_searched := ?n, an_raw := ?r, an_head := Some h\<rparr>)
         | None \<Rightarrow> head_loop (a\<lparr>an_raw := ?r, an_head_start := stop + 4, an_searched := stop + 4\<rparr>)))"
    using head_loop_eq [of "grow (a\<lparr>an_searched := ?n\<rparr>) ext"] assms(1) g by (simp cong: option.case_cong)
  show ?thesis
    unfolding e1 e2
    by (cases "pos_from head_end ?g ?r"; simp; cases "head_next ?r (an_head_start a) (the (pos_from head_end ?g ?r))")
      (auto simp: nrm_def norm_def split: option.splits)
qed


lemma head_loop_more:
  fixes a :: http1_answer
  assumes "head_loop a = Ok (found, a1)" "an_inv a"
  shows "nrm (head_loop (grow a ext)) = nrm (head_loop (grow a1 ext)) \<and> an_raw a1 = an_raw a \<and> an_inv a1 \<and>
    (found \<longleftrightarrow> an_head a1 \<noteq> None)"
  using assms
proof (induction "length (an_raw a) + 1 - an_head_start a" arbitrary: a rule: less_induct)
  case less
  show ?case
  proof (cases "an_head a")
    case (Some h)
    with less.prems head_loop_found [OF Some] show ?thesis by simp
  next
    case None
    let ?f = "from_pos (an_searched a) 3 (an_head_start a)"
    have f: "?f \<le> length (an_raw a)"
      using less.prems(1) head_loop_panics [OF None] by (cases "?f \<le> length (an_raw a)") auto
    have s: "an_searched a \<le> length (an_raw a)" using less.prems(2) by (simp add: an_inv_def)
    note eq = head_loop_eq [OF None f]
    show ?thesis
    proof (cases "pos_from head_end ?f (an_raw a)")
      case pn: None
      with less.prems have "a1 = a\<lparr>an_searched := length (an_raw a)\<rparr>" "\<not> found" by (auto simp: eq)
      with head_resume [OF None s f pn] None show ?thesis by (simp add: an_inv_def)
    next
      case (Some stop)
      have b: "?f \<le> stop" "stop + 4 \<le> length (an_raw a)" using pos_head_bound [OF Some] by auto
      have pos: "pos_from head_end ?f (an_raw a @ ext) = Some stop"
        using Some find_sub_append [of head_end ?f "an_raw a" _ ext] by (auto simp: pos_from_def head_end_def)
      note eq' = head_loop_eq [of "grow a ext"]
      obtain r where r: "head_next (an_raw a) (an_head_start a) stop = Ok r"
        and rest: "(case r of Some h \<Rightarrow> Ok (True, a\<lparr>an_head := Some h\<rparr>)
          | None \<Rightarrow> head_loop (a\<lparr>an_head_start := stop + 4, an_searched := stop + 4\<rparr>)) = Ok (found, a1)"
        using less.prems(1) by (auto simp: eq Some rbind_eq_Ok)
      have r': "head_next (an_raw a @ ext) (an_head_start a) stop = Ok r"
        using r b by (simp add: head_next_append)
      show ?thesis
      proof (cases r)
        case rs: (Some h)
        with rest have a1: "a1 = a\<lparr>an_head := Some h\<rparr>" found by auto
        have "an_inv a1"
          using less.prems(2) head_next_Some [OF r [unfolded rs]] b by (auto simp: an_inv_def a1 dc_new_def)
        moreover have "head_loop (grow a ext) = Ok (True, grow a1 ext)"
          using eq' None f pos r' rs a1 by simp
        ultimately show ?thesis using a1 head_loop_found [of "grow a1 ext" h] by simp
      next
        case rn: None
        let ?a = "a\<lparr>an_head_start := stop + 4, an_searched := stop + 4\<rparr>"
        have swap: "grow ?a ext = a\<lparr>an_raw := an_raw a @ ext, an_head_start := stop + 4, an_searched := stop + 4\<rparr>"
          by (rule http1_answer.equality) simp_all
        have "head_loop (grow a ext) = head_loop (grow ?a ext)"
          unfolding swap using eq' None f pos r' rn by simp
        moreover have "an_inv ?a" using b None by (simp add: an_inv_def)
        moreover have "an_head_start a < stop + 4" using b by (auto simp: from_pos_def)
        ultimately show ?thesis using less.hyps [of ?a] rest rn b by simp
      qed
    qed
  qed
qed


subsection \<open>A push and the next\<close>

lemma body_step_norm: "an_head a \<noteq> None \<Longrightarrow> nrm (body_step (norm a)) = nrm (body_step a)"
proof -
  assume "an_head a \<noteq> None"
  then obtain h where h: "an_head a = Some h" by auto
  show ?thesis
  proof (cases "hd_framing h")
    case (Chunked d)
    then show ?thesis
      using h by (cases "dc_advance d (drop (hd_body_start h) (an_raw a))")
        (auto simp: body_step_def norm_def nrm_def)
  qed (use h in \<open>auto simp: body_step_def norm_def nrm_def\<close>)
qed

lemma an_finish_norm [simp]: "an_finish (norm a) = an_finish a"
  by (cases "an_head a") (simp_all add: an_finish_def norm_def)

lemma body_step_more:
  fixes a :: http1_answer
  assumes "body_step a = Ok (w, a1)" "an_inv a"
  shows "body_step (grow a ext) = body_step (grow a1 ext) \<and> an_raw a1 = an_raw a \<and> an_inv a1 \<and> an_head a1 \<noteq> None \<and>
    (w \<longrightarrow> (\<exists>a2. body_step (grow a1 ext) = Ok (True, a2) \<and> an_finish a2 = an_finish a1))"
proof -
  obtain h where h: "an_head a = Some h" "hd_body_start h \<le> length (an_raw a)"
    using assms by (auto simp: body_step_def an_inv_def split: option.splits)
  let ?b = "drop (hd_body_start h) (an_raw a)"
  show ?thesis
  proof (cases "hd_framing h")
    case (Length n)
    with h assms show ?thesis by (auto simp: body_step_def an_finish_def Let_def)
  next
    case Close
    with h assms show ?thesis by (auto simp: body_step_def)
  next
    case (Chunked d)
    then obtain d1 where d1: "dc_advance d ?b = Ok (w, d1)"
        and a1: "a1 = a\<lparr>an_head := Some (h\<lparr>hd_framing := Chunked d1\<rparr>)\<rparr>"
      using h assms(1) by (auto simp: body_step_def rbind_eq_Ok)
    have s: "dc_searched d \<le> length ?b" using assms(2) h Chunked by (simp add: an_inv_def)
    note m = dc_advance_more [OF d1 s, of ext]
    have inv: "an_inv a1" using m assms(2) h by (simp add: an_inv_def a1)
    have swap: "grow a1 ext = a\<lparr>an_raw := an_raw a @ ext, an_head := Some (h\<lparr>hd_framing := Chunked d1\<rparr>)\<rparr>"
      unfolding a1 by (rule http1_answer.equality) simp_all
    have "body_step (grow a ext) = body_step (grow a1 ext)"
      unfolding swap using h Chunked m by (simp add: body_step_def)
    moreover have "w \<longrightarrow> (\<exists>a2. body_step (grow a1 ext) = Ok (True, a2) \<and> an_finish a2 = an_finish a1)"
      unfolding swap using h m by (auto simp: body_step_def dc_advance_done an_finish_def a1)
    ultimately show ?thesis using inv by (simp add: a1)
  qed
qed


lemma nrm_bind:
  assumes "nrm x = nrm y" "\<And>a b. norm a = norm b \<Longrightarrow> an_head a \<noteq> None \<Longrightarrow> nrm (f a) = nrm (f b)"
    and "\<And>w a. x = Ok (w, a) \<or> y = Ok (w, a) \<Longrightarrow> w \<longleftrightarrow> an_head a \<noteq> None"
  shows "nrm (rbind x (\<lambda>(found, a). if found then f a else Ok (False, a))) =
    nrm (rbind y (\<lambda>(found, a). if found then f a else Ok (False, a)))"
proof (cases x)
  case (Ok p)
  then obtain w a where x: "x = Ok (w, a)" by (cases p) auto
  with assms(1) obtain b where y: "y = Ok (w, b)" "norm a = norm b"
    by (cases y) (auto simp: nrm_def)
  show ?thesis
  proof (cases w)
    case True
    with assms(2) [OF y(2)] assms(3) [of w a] x y show ?thesis by simp
  qed (use x y in \<open>simp add: nrm_def\<close>)
next
  case (Err e)
  with assms(1) show ?thesis by (cases y) (auto simp: nrm_def)
next
  case Panic
  with assms(1) show ?thesis by (cases y) (auto simp: nrm_def)
qed

lemma norm_head [simp]: "an_head (norm a) = an_head a"
  by (simp add: norm_def)

lemma body_step_cong: "norm a = norm b \<Longrightarrow> an_head a \<noteq> None \<Longrightarrow> nrm (body_step a) = nrm (body_step b)"
  by (metis body_step_norm norm_head)

lemma an_inv_grow: "an_inv a \<Longrightarrow> an_inv (grow a ext)"
  by (auto simp: an_inv_def dest: le_trans)

lemma an_push_eq: "an_push a x =
    (if length (an_raw a @ x) > MAX_BODY then Err (Api (lit ''the answer is too large''))
     else rbind (head_loop (grow a x)) (\<lambda>(found, a). if found then body_step a else Ok (False, a)))"
  by (simp add: an_push_def)

lemma head_loop_head: "head_loop a = Ok (found, b) \<Longrightarrow> an_inv a \<Longrightarrow> found \<longleftrightarrow> an_head b \<noteq> None"
  using head_loop_more by blast

lemma an_push_found: "an_head a \<noteq> None \<Longrightarrow> length (an_raw a @ y) \<le> MAX_BODY \<Longrightarrow> an_push a y = body_step (grow a y)"
  using head_loop_found [of "grow a y"] by (auto simp: an_push_eq)

lemma an_push_more:
  assumes "an_push a x = Ok (w, a1)" "an_inv a"
  shows "nrm (an_push a (x @ y)) = nrm (an_push a1 y) \<and> an_inv a1 \<and> an_raw a1 = an_raw a @ x \<and>
    (w \<and> length (an_raw a1 @ y) \<le> MAX_BODY \<longrightarrow> (\<exists>w2 a2. an_push a1 y = Ok (w2, a2) \<and> an_finish a2 = an_finish a1))"
proof -
  let ?F = "\<lambda>(found, a). if found then body_step a else Ok (False, a)"
  let ?A = "grow a x"
  have swap: "grow ?A y = grow a (x @ y)" by simp
  have inv: "an_inv ?A" "an_inv (grow ?A y)" using assms(2) an_inv_grow by metis+
  obtain found b where b: "head_loop ?A = Ok (found, b)" and rest: "?F (found, b) = Ok (w, a1)"
    and le: "length (an_raw a @ x) \<le> MAX_BODY"
    using assms(1) by (auto simp: an_push_eq rbind_eq_Ok split: if_splits)
  note m = head_loop_more [OF b inv(1), of y]
  have binv: "an_inv (grow b y)" using m an_inv_grow by metis
  have loops: "nrm (rbind (head_loop (grow ?A y)) ?F) = nrm (rbind (head_loop (grow b y)) ?F)"
    by (rule nrm_bind [OF conjunct1 [OF m]])
      (use body_step_cong head_loop_head [OF _ inv(2)] head_loop_head [OF _ binv] in blast)+
  have push: "nrm (an_push a (x @ y)) = (if length (an_raw a @ x @ y) > MAX_BODY then Err (Api (lit ''the answer is too large''))
      else nrm (rbind (head_loop (grow b y)) ?F))"
    using loops unfolding an_push_eq swap [symmetric] by (auto simp: nrm_def)
  show ?thesis
  proof (cases found)
    case False
    with rest have "a1 = b" "\<not> w" by auto
    with push m show ?thesis by (simp add: an_push_eq nrm_def)
  next
    case True
    with rest have step: "body_step b = Ok (w, a1)" by simp
    have h: "an_head b \<noteq> None" using m True by simp
    have ib: "an_inv b" using m by simp
    note n = body_step_more [OF step ib, of y]
    have "rbind (head_loop (grow b y)) ?F = body_step (grow a1 y)"
      using head_loop_found [of "grow b y"] h n by auto
    with push m n an_push_found [of a1 y] show ?thesis
      by (auto simp: an_push_eq nrm_def)
  qed
qed


lemma nrm_finish:
  assumes "nrm x = nrm y" "y = Ok (w, a)"
  shows "\<exists>b. x = Ok (w, b) \<and> an_finish b = an_finish a"
proof -
  obtain b where "x = Ok (w, b)" "norm b = norm a"
    using assms by (cases x) (auto simp: nrm_def)
  then show ?thesis by (metis an_finish_norm)
qed

lemma read_answer_once:
  assumes "read_answer a rs = Ok r" "an_inv a" "[] \<notin> set rs" "rs \<noteq> []" "length (an_raw a @ concat rs) \<le> MAX_BODY"
  shows "\<exists>w b. an_push a (concat rs) = Ok (w, b) \<and> an_finish b = Ok r"
  using assms
proof (induction rs arbitrary: a)
  case (Cons x rs)
  then obtain w a1 where p: "an_push a x = Ok (w, a1)" and rest: "(if w then an_finish a1 else read_answer a1 rs) = Ok r"
    by (auto simp: rbind_eq_Ok)
  note m = an_push_more [OF p Cons.prems(2), of "concat rs"]
  show ?case
  proof (cases "w \<or> rs = []")
    case True
    then show ?thesis
    proof (cases "rs = []")
      case False
      with True m Cons.prems(5) obtain w2 a2 where "an_push a1 (concat rs) = Ok (w2, a2)" "an_finish a2 = an_finish a1" by auto
      with nrm_finish [OF conjunct1 [OF m]] rest True False show ?thesis by (metis concat.simps(2))
    qed (use p rest in \<open>auto split: if_splits\<close>)
  next
    case False
    with rest Cons.IH [of a1] m Cons.prems obtain w2 a2 where "an_push a1 (concat rs) = Ok (w2, a2)" "an_finish a2 = Ok r"
      by auto
    with nrm_finish [OF conjunct1 [OF m]] show ?thesis by (metis concat.simps(2))
  qed
qed simp

lemma read_answer_pieces:
  assumes "an_push a (concat rs) = Ok (w, b)" "an_finish b = Ok r" "an_inv a" "[] \<notin> set rs" "rs \<noteq> []"
    and "\<And>k. \<exists>w b. an_push a (take k (concat rs)) = Ok (w, b)"
  shows "read_answer a rs = Ok r"
  using assms
proof (induction rs arbitrary: a w b)
  case (Cons x rs)
  obtain w1 a1 where p: "an_push a x = Ok (w1, a1)"
    using Cons.prems(6) [of "length x"] by auto
  note m = an_push_more [OF p Cons.prems(3)]
  obtain b1 where b1: "an_push a1 (concat rs) = Ok (w, b1)" "an_finish b1 = Ok r"
    using nrm_finish [OF conjunct1 [OF m [of "concat rs"], THEN sym], of w b] Cons.prems(1,2) by auto
  have pre: "\<exists>w b. an_push a1 (take k (concat rs)) = Ok (w, b)" for k
    using Cons.prems(6) [of "length x + k"] nrm_finish [OF conjunct1 [OF m [of "take k (concat rs)"], THEN sym]] by auto
  show ?case
  proof (cases w1)
    case True
    have "length (an_raw a1 @ concat rs) \<le> MAX_BODY"
      using b1(1) by (auto simp: an_push_eq split: if_splits)
    with True m [of "concat rs"] b1 have "an_finish a1 = Ok r" by auto
    with True p Cons.prems(4) show ?thesis by auto
  next
    case False
    show ?thesis
    proof (cases "rs = []")
      case True
      with False p Cons.prems show ?thesis by auto
    next
      case ne: False
      have "read_answer a1 rs = Ok r"
        using Cons.IH [OF b1 _ _ ne pre] m Cons.prems(4) by simp
      with False p Cons.prems(4) show ?thesis by auto
    qed
  qed
qed simp


section \<open>An answer as it is written\<close>

text \<open>A line, or a head, that its end mark does not occur in.\<close>

definition ends_first :: "bytes \<Rightarrow> bytes \<Rightarrow> bool" where
  "ends_first p t \<longleftrightarrow> find_sub p (t @ p) = Some (length t)"

definition ok_line :: "bytes \<Rightarrow> bool" where
  "ok_line l \<longleftrightarrow> ends_first crlf l \<and> length l < MAX_LINE"

lemma ends_first_found:
  assumes "ends_first p t" "p \<noteq> []" "length pre = n"
  shows "pos_from p n (pre @ t @ p @ rest) = Some (n + length t)"
  using find_sub_append [of p 0 "t @ p" "length t" rest] assms by (simp add: ends_first_def pos_from_def)

lemma ends_first_cut:
  assumes "ends_first p t" "k < length t + length p" "length pre = n"
  shows "pos_from p n (pre @ take k (t @ p @ rest)) = None"
proof -
  have "take k (t @ p @ rest) = take k (t @ p)" using assms(2) by (simp add: take_append)
  then show ?thesis
    using find_sub_prefix [of p "t @ p" "length t" k] assms by (simp add: ends_first_def pos_from_def)
qed

lemma crlf_simps [simp]: "crlf \<noteq> []" "length crlf = 2" "head_end \<noteq> []" "length head_end = 4"
  by (simp_all add: crlf_def head_end_def)

lemma from_pos_here [simp]: "from_pos n k n = n"
  by (simp add: from_pos_def)

definition at_line :: "dechunker \<Rightarrow> nat \<Rightarrow> bool" where
  "at_line d n \<longleftrightarrow> \<not> dc_done d \<and> dc_data d = None \<and> dc_at d = n \<and> dc_searched d = n"

lemma dc_line_full:
  assumes "at_line d (length pre)" "ends_first crlf l"
  shows "dc_advance d (pre @ l @ crlf @ rest) =
    (case dc_next d l (length pre + length l) of
       None \<Rightarrow> Err (malformed (lit ''a bad chunk size''))
     | Some d' \<Rightarrow> dc_advance d' (pre @ l @ crlf @ rest))"
  using assms ends_first_found [OF assms(2), of pre "length pre" rest]
  by (simp add: dc_advance_line at_line_def)

lemma dc_line_cut:
  assumes "at_line d (length pre)" "ok_line l" "k < length l + 2"
  shows "\<exists>d'. dc_advance d (pre @ take k (l @ crlf @ rest)) = Ok (False, d')"
proof -
  have "ends_first crlf l" using assms(2) by (simp add: ok_line_def)
  then have pos: "pos_from crlf (length pre) (pre @ take k (l @ crlf @ rest)) = None"
    using assms(3) by (intro ends_first_cut) (simp_all add: crlf_def)
  have "length (pre @ take k (l @ crlf @ rest)) - length pre \<le> MAX_LINE"
    using assms(2,3) by (auto simp: ok_line_def)
  with pos assms(1) show ?thesis by (simp add: dc_advance_line at_line_def)
qed


definition lines_bytes :: "bytes list \<Rightarrow> bytes" where
  "lines_bytes ls = concat (map (\<lambda>l. l @ crlf) ls)"

definition chunks_bytes :: "(bytes \<times> bytes) list \<Rightarrow> bytes" where
  "chunks_bytes cs = concat (map (\<lambda>(l, d). l @ crlf @ d @ crlf) cs)"

lemma lines_bytes_simps [simp]: "lines_bytes [] = []" "lines_bytes (l # ls) = l @ crlf @ lines_bytes ls"
  by (simp_all add: lines_bytes_def)

lemma chunks_bytes_simps [simp]: "chunks_bytes [] = []" "chunks_bytes ((l, d) # cs) = l @ crlf @ d @ crlf @ chunks_bytes cs"
  by (simp_all add: chunks_bytes_def)

lemma take_line: "length l + 2 \<le> k \<Longrightarrow> take k (l @ crlf @ rest) = l @ crlf @ take (k - length l - 2) rest"
  by (simp add: take_append)

lemma trailer_written:
  assumes "at_line d (length pre)" "dc_trailer d" "list_all (\<lambda>l. ok_line l \<and> l \<noteq> []) ts"
  shows "\<exists>w d'. dc_advance d (pre @ take k (lines_bytes ts @ crlf)) = Ok (w, d') \<and>
    (length (lines_bytes ts @ crlf) \<le> k \<longrightarrow> w \<and> dc_joined d' = dc_joined d)"
  using assms
proof (induction ts arbitrary: d pre k)
  case Nil
  have ok: "ok_line []" by (simp add: ok_line_def ends_first_def MAX_LINE_def starts_with_def crlf_def)
  show ?case
  proof (cases "k < 2")
    case True
    with dc_line_cut [OF Nil(1) ok, of k "[]"] show ?thesis by auto
  next
    case False
    have "dc_advance d (pre @ crlf) = Ok (True, d\<lparr>dc_at := length pre + 2, dc_searched := length pre + 2, dc_done := True\<rparr>)"
      using dc_line_full [OF Nil(1), of "[]" "[]"] ok Nil(2) by (simp add: ok_line_def dc_next_def Let_def dc_advance_done)
    with False show ?thesis by auto
  qed
next
  case (Cons l ts)
  have ok: "ok_line l" "l \<noteq> []" using Cons.prems by simp_all
  show ?case
  proof (cases "k < length l + 2")
    case True
    with dc_line_cut [OF Cons.prems(1) ok(1) True, of "lines_bytes ts @ crlf"] show ?thesis by auto
  next
    case False
    let ?d = "d\<lparr>dc_at := length pre + length l + 2, dc_searched := length pre + length l + 2\<rparr>"
    let ?k = "k - length l - 2"
    have "dc_next d l (length pre + length l) = Some ?d"
      using ok(2) Cons.prems(1,2) by (simp add: dc_next_def at_line_def)
    then have "dc_advance d (pre @ l @ crlf @ take ?k (lines_bytes ts @ crlf)) =
        dc_advance ?d ((pre @ l @ crlf) @ take ?k (lines_bytes ts @ crlf))"
      using dc_line_full [OF Cons.prems(1), of l] ok(1) by (simp add: ok_line_def)
    moreover have "at_line ?d (length (pre @ l @ crlf))" using Cons.prems(1) by (simp add: at_line_def)
    ultimately show ?thesis
      using Cons.IH [of ?d "pre @ l @ crlf" ?k] Cons.prems False take_line [of l k "lines_bytes ts @ crlf"] by auto
  qed
qed


definition chunked_body :: "(bytes \<times> bytes) list \<Rightarrow> bytes \<Rightarrow> bytes list \<Rightarrow> bytes" where
  "chunked_body cs last_line ts = chunks_bytes cs @ last_line @ crlf @ lines_bytes ts @ crlf"

definition valid_chunks :: "(bytes \<times> bytes) list \<Rightarrow> bytes \<Rightarrow> bytes list \<Rightarrow> bool" where
  "valid_chunks cs last_line ts \<longleftrightarrow>
     list_all (\<lambda>(l, d). ok_line l \<and> d \<noteq> [] \<and> chunk_size l = Some (length d)) cs \<and>
     ok_line last_line \<and> chunk_size last_line = Some 0 \<and> list_all (\<lambda>l. ok_line l \<and> l \<noteq> []) ts"

lemma dc_data_cut:
  assumes "\<not> dc_done d" "dc_data d = Some (length x)" "dc_at d = length pre"
    and "length pre + length x + 2 < usize_bound" "k < length x + 2"
  shows "dc_advance d (pre @ take k (x @ crlf @ rest)) = Ok (False, d)"
proof -
  have short: "length (pre @ take k (x @ crlf @ rest)) < dc_at d + length x + 2"
    using assms(3,5) by simp
  have small: "dc_at d + length x + 2 < usize_bound" using assms(3,4) by simp
  show ?thesis unfolding dc_advance_data [OF assms(1,2)] by (simp only: short small if_True)
qed

lemma dc_data_full:
  assumes "\<not> dc_done d" "dc_data d = Some (length x)" "dc_at d = length pre" "length pre + length x + 2 < usize_bound"
  shows "dc_advance d (pre @ x @ crlf @ rest) =
    dc_advance (d\<lparr>dc_joined := dc_joined d @ x, dc_at := length pre + length x + 2,
      dc_searched := length pre + length x + 2, dc_data := None\<rparr>) (pre @ x @ crlf @ rest)"
proof -
  have "sub (pre @ x @ crlf @ rest) (length pre) (length pre + length x) = x" by simp
  moreover have "sub (pre @ x @ crlf @ rest) (length pre + length x) (length pre + length x + 2) = crlf"
    using sub_append_mid [of "pre @ x" crlf rest] by simp
  moreover have "\<not> length (pre @ x @ crlf @ rest) < length pre + length x + 2" by simp
  ultimately show ?thesis
    unfolding dc_advance_data [OF assms(1,2)] assms(3) using assms(4) by simp
qed

lemma chunks_written:
  assumes "at_line d (length pre)" "\<not> dc_trailer d" "valid_chunks cs last_line ts"
    and "length pre + length (chunked_body cs last_line ts) < usize_bound"
  shows "\<exists>w d'. dc_advance d (pre @ take k (chunked_body cs last_line ts)) = Ok (w, d') \<and>
    (length (chunked_body cs last_line ts) \<le> k \<longrightarrow> w \<and> dc_joined d' = dc_joined d @ concat (map snd cs))"
  using assms
proof (induction cs arbitrary: d pre k)
  case Nil
  have ok: "ok_line last_line" "chunk_size last_line = Some 0" using Nil(3) by (simp_all add: valid_chunks_def)
  show ?case
  proof (cases "k < length last_line + 2")
    case True
    with dc_line_cut [OF Nil(1) ok(1) True, of "lines_bytes ts @ crlf"] show ?thesis by (auto simp: chunked_body_def)
  next
    case False
    let ?n = "length pre + length last_line + 2"
    let ?d = "d\<lparr>dc_at := ?n, dc_searched := ?n, dc_trailer := True\<rparr>"
    let ?k = "k - length last_line - 2"
    have "dc_next d last_line (length pre + length last_line) = Some ?d"
      using ok(2) Nil(1,2) by (simp add: dc_next_def at_line_def)
    then have "dc_advance d (pre @ last_line @ crlf @ take ?k (lines_bytes ts @ crlf)) =
        dc_advance ?d ((pre @ last_line @ crlf) @ take ?k (lines_bytes ts @ crlf))"
      using dc_line_full [OF Nil(1), of last_line] ok(1) by (simp add: ok_line_def)
    moreover have "at_line ?d (length (pre @ last_line @ crlf))" using Nil(1) by (simp add: at_line_def)
    ultimately show ?thesis
      using trailer_written [of ?d "pre @ last_line @ crlf" ts ?k] Nil(3) False take_line [of last_line k "lines_bytes ts @ crlf"]
      by (auto simp: valid_chunks_def chunked_body_def)
  qed
next
  case (Cons c cs)
  obtain l x where c: "c = (l, x)" by (cases c)
  have ok: "ok_line l" "x \<noteq> []" "chunk_size l = Some (length x)" using Cons.prems(3) by (simp_all add: valid_chunks_def c)
  let ?R = "chunked_body cs last_line ts"
  have W: "chunked_body (c # cs) last_line ts = l @ crlf @ (x @ crlf @ ?R)" by (simp add: chunked_body_def c)
  show ?case
  proof (cases "k < length l + 2")
    case True
    with dc_line_cut [OF Cons.prems(1) ok(1) True, of "x @ crlf @ ?R"] show ?thesis unfolding W by auto
  next
    case False
    let ?n = "length pre + length l + 2" and ?k = "k - length l - 2"
    let ?d = "d\<lparr>dc_at := ?n, dc_searched := ?n, dc_data := Some (length x)\<rparr>"
    have "dc_next d l (length pre + length l) = Some ?d"
      using ok(2,3) Cons.prems(1,2) by (simp add: dc_next_def at_line_def)
    then have step: "dc_advance d (pre @ l @ crlf @ take ?k (x @ crlf @ ?R)) =
        dc_advance ?d (pre @ l @ crlf @ take ?k (x @ crlf @ ?R))"
      using dc_line_full [OF Cons.prems(1), of l] ok(1) by (simp add: ok_line_def)
    have tl: "take k (l @ crlf @ x @ crlf @ ?R) = l @ crlf @ take ?k (x @ crlf @ ?R)"
      using False by (intro take_line) simp
    show ?thesis
    proof (cases "?k < length x + 2")
      case True
      have cut: "dc_advance ?d ((pre @ l @ crlf) @ take ?k (x @ crlf @ ?R)) = Ok (False, ?d)"
        using Cons.prems(1,4) True by (intro dc_data_cut) (simp_all add: at_line_def W)
      have "dc_advance d (pre @ take k (l @ crlf @ x @ crlf @ ?R)) = Ok (False, ?d)"
        by (simp only: tl step cut [unfolded append.assoc])
      moreover have "k < length (l @ crlf @ x @ crlf @ ?R)" using True by simp
      ultimately show ?thesis unfolding W by (metis not_less)
    next
      case F2: False
      let ?pre = "pre @ l @ crlf @ x @ crlf" and ?k2 = "?k - length x - 2"
      let ?m = "length (pre @ l @ crlf) + length x + 2"
      let ?d2 = "?d\<lparr>dc_joined := dc_joined ?d @ x, dc_at := ?m, dc_searched := ?m, dc_data := None\<rparr>"
      have full: "dc_advance ?d ((pre @ l @ crlf) @ x @ crlf @ take ?k2 ?R) = dc_advance ?d2 ((pre @ l @ crlf) @ x @ crlf @ take ?k2 ?R)"
        using Cons.prems(1,4) by (intro dc_data_full) (simp_all add: at_line_def W)
      have tx: "take ?k (x @ crlf @ ?R) = x @ crlf @ take ?k2 ?R" using F2 by (intro take_line) simp
      have adv: "dc_advance d (pre @ take k (l @ crlf @ x @ crlf @ ?R)) = dc_advance ?d2 (?pre @ take ?k2 ?R)"
        by (simp only: tl tx step [unfolded tx] full [unfolded append.assoc] append.assoc)
      have "at_line ?d2 (length ?pre)" "\<not> dc_trailer ?d2" "valid_chunks cs last_line ts"
          "length ?pre + length ?R < usize_bound"
        using Cons.prems by (simp_all add: at_line_def valid_chunks_def W)
      from Cons.IH [OF this, of ?k2] obtain w d' where "dc_advance ?d2 (?pre @ take ?k2 ?R) = Ok (w, d')"
          "length ?R \<le> ?k2 \<longrightarrow> w \<and> dc_joined d' = dc_joined ?d2 @ concat (map snd cs)"
        by blast
      moreover have "length (l @ crlf @ x @ crlf @ ?R) \<le> k \<longrightarrow> length ?R \<le> ?k2" by auto
      ultimately show ?thesis unfolding W adv by (simp add: c)
    qed
  qed
qed


text \<open>The heads of interim answers, then the head.\<close>

definition heads_bytes :: "bytes list \<Rightarrow> bytes" where
  "heads_bytes ts = concat (map (\<lambda>t. t @ head_end) ts)"

lemma heads_bytes_simps [simp]: "heads_bytes [] = []" "heads_bytes (t # ts) = t @ head_end @ heads_bytes ts"
  by (simp_all add: heads_bytes_def)

definition interim :: "bytes \<Rightarrow> bool" where
  "interim t \<longleftrightarrow> ends_first head_end t \<and>
     (case http1_head_of t of Ok (status, fs) \<Rightarrow> 100 \<le> status \<and> status < 200 \<and> status \<noteq> 101 | _ \<Rightarrow> False)"

definition final_head :: "bytes \<Rightarrow> nat \<Rightarrow> (str \<times> str) list \<Rightarrow> framing \<Rightarrow> bool" where
  "final_head h status fs fr \<longleftrightarrow> ends_first head_end h \<and> http1_head_of h = Ok (status, fs) \<and>
     \<not> (100 \<le> status \<and> status < 200 \<and> status \<noteq> 101) \<and> framing_of status fs = Ok fr"

abbreviation (input) answer_at :: "bytes \<Rightarrow> nat \<Rightarrow> http1_answer" where
  "answer_at raw n \<equiv> \<lparr>an_raw = raw, an_head_start = n, an_searched = n, an_head = None\<rparr>"

lemma head_next_written:
  assumes "length pre = n"
  shows "head_next (pre @ t @ head_end @ rest) n (n + length t) =
    rbind (http1_head_of t) (\<lambda>(status, fs).
       if 100 \<le> status \<and> status < 200 \<and> status \<noteq> 101 then Ok None
       else rbind (framing_of status fs) (\<lambda>framing.
         Ok (Some \<lparr>hd_status = status, hd_fields = fs, hd_body_start = n + length t + 4, hd_framing = framing\<rparr>)))"
  using sub_append_mid [of pre t "head_end @ rest"] assms by (simp add: head_next_def)

lemma interim_step:
  assumes "interim t" "length pre = n"
  shows "head_loop (answer_at (pre @ t @ head_end @ rest) n) =
    head_loop (answer_at (pre @ t @ head_end @ rest) (n + length t + 4))"
proof -
  obtain status fs where "http1_head_of t = Ok (status, fs)" "100 \<le> status \<and> status < 200 \<and> status \<noteq> 101"
    using assms(1) by (auto simp: interim_def split: res.splits)
  moreover have "pos_from head_end n (pre @ t @ head_end @ rest) = Some (n + length t)"
    using assms by (intro ends_first_found) (simp_all add: interim_def)
  ultimately show ?thesis
    using head_loop_eq [of "answer_at (pre @ t @ head_end @ rest) n"] head_next_written [OF assms(2), of t rest] assms(2)
    by simp
qed

lemma head_cut:
  assumes "ends_first head_end t" "length pre = n" "k < length t + 4"
  shows "\<exists>b. head_loop (answer_at (pre @ take k (t @ head_end @ rest)) n) = Ok (False, b)"
proof -
  have "pos_from head_end n (pre @ take k (t @ head_end @ rest)) = None"
    using assms by (intro ends_first_cut) simp_all
  then show ?thesis
    using head_loop_eq [of "answer_at (pre @ take k (t @ head_end @ rest)) n"] assms(2) by simp
qed

lemma take_head: "length t + 4 \<le> k \<Longrightarrow> take k (t @ head_end @ rest) = t @ head_end @ take (k - length t - 4) rest"
  by (simp add: take_append)

lemma heads_written:
  assumes "list_all interim ts" "final_head h status fs fr" "length pre = n"
    and W: "W = heads_bytes ts @ h @ head_end @ rest"
  shows "if k < length (heads_bytes ts @ h @ head_end) then \<exists>b. head_loop (answer_at (pre @ take k W) n) = Ok (False, b)
    else head_loop (answer_at (pre @ take k W) n) = Ok (True, (answer_at (pre @ take k W) (n + length (heads_bytes ts)))
      \<lparr>an_head := Some \<lparr>hd_status = status, hd_fields = fs,
        hd_body_start = n + length (heads_bytes ts @ h @ head_end), hd_framing = fr\<rparr>\<rparr>)"
  using assms
proof (induction ts arbitrary: pre n k W)
  case Nil
  have fh: "ends_first head_end h" "http1_head_of h = Ok (status, fs)" "\<not> (100 \<le> status \<and> status < 200 \<and> status \<noteq> 101)"
      "framing_of status fs = Ok fr"
    using Nil(2) unfolding final_head_def by blast+
  show ?case
  proof (cases "k < length h + 4")
    case True
    with head_cut [OF fh(1) Nil(3) True] Nil(4) show ?thesis by simp
  next
    case False
    let ?r = "take (k - length h - 4) rest"
    have tk: "take k (h @ head_end @ rest) = h @ head_end @ ?r" using False by (intro take_head) simp
    have "pos_from head_end n (pre @ h @ head_end @ ?r) = Some (n + length h)"
      using fh(1) Nil(3) by (intro ends_first_found) simp_all
    then have "head_loop (answer_at (pre @ h @ head_end @ ?r) n) = Ok (True, (answer_at (pre @ h @ head_end @ ?r) n)
      \<lparr>an_head := Some \<lparr>hd_status = status, hd_fields = fs, hd_body_start = n + length h + 4, hd_framing = fr\<rparr>\<rparr>)"
      using head_loop_eq [of "answer_at (pre @ h @ head_end @ ?r) n"] head_next_written [OF Nil(3), of h ?r] fh Nil(3)
      by (simp split: if_splits)
    with False Nil(4) tk show ?thesis by (simp add: add.assoc del: take_append)
  qed
next
  case (Cons t ts)
  have t: "interim t" "ends_first head_end t" using Cons.prems by (simp_all add: interim_def)
  let ?W = "heads_bytes ts @ h @ head_end @ rest"
  have WW: "W = t @ head_end @ ?W" using Cons.prems by simp
  show ?case
  proof (cases "k < length t + 4")
    case True
    with head_cut [OF t(2) Cons.prems(3) True, of ?W] show ?thesis unfolding WW by (simp del: take_append)
  next
    case False
    let ?k = "k - length t - 4"
    have tk: "take k W = t @ head_end @ take ?k ?W" unfolding WW using False by (intro take_head) simp
    have "head_loop (answer_at (pre @ take k W) n) = head_loop (answer_at ((pre @ t @ head_end) @ take ?k ?W) (n + length t + 4))"
      unfolding tk using interim_step [OF t(1) Cons.prems(3)] by simp
    moreover have "length (pre @ t @ head_end) = n + length t + 4" using Cons.prems(3) by simp
    ultimately show ?thesis
      using Cons.IH [of "pre @ t @ head_end" "n + length t + 4" ?W ?k] Cons.prems(1-3) False
      by (auto simp: tk add.assoc simp del: take_append split: if_splits)
  qed
qed


fun written_body :: "framing \<Rightarrow> bytes \<Rightarrow> bytes \<Rightarrow> bool" where
  "written_body (Length n) wire body \<longleftrightarrow> wire = body \<and> length body = n"
| "written_body Close wire body \<longleftrightarrow> wire = body"
| "written_body (Chunked d) wire body \<longleftrightarrow> (\<exists>cs last_line ts. valid_chunks cs last_line ts \<and>
     wire = chunked_body cs last_line ts \<and> body = concat (map snd cs))"

lemma dc_new_simps [simp]: "dc_joined dc_new = []" "\<not> dc_trailer dc_new" "at_line dc_new 0" "dc_searched dc_new = 0"
  by (simp_all add: dc_new_def at_line_def)

lemma body_written:
  assumes "written_body fr wire body" "\<And>d. fr = Chunked d \<Longrightarrow> d = dc_new" "length wire < usize_bound"
    and a: "an_head a = Some \<lparr>hd_status = status, hd_fields = fs, hd_body_start = n, hd_framing = fr\<rparr>"
    and raw: "an_raw a = pre @ take k wire" "length pre = n"
  shows "\<exists>w b. body_step a = Ok (w, b) \<and> (length wire \<le> k \<longrightarrow> an_finish b = Ok (status, fs, body))"
proof (cases fr)
  case (Length m)
  with assms show ?thesis by (auto simp: body_step_def an_finish_def Let_def)
next
  case Close
  with assms show ?thesis by (auto simp: body_step_def an_finish_def Let_def)
next
  case (Chunked d)
  then obtain cs last_line ts where v: "valid_chunks cs last_line ts" "wire = chunked_body cs last_line ts" "body = concat (map snd cs)"
    using assms(1) by auto
  have d: "d = dc_new" using assms(2) Chunked by simp
  have "at_line dc_new (length ([] :: bytes))" by simp
  from chunks_written [OF this _ v(1), of k] assms(3) v obtain w d' where
    adv: "dc_advance dc_new (take k wire) = Ok (w, d')" "length wire \<le> k \<longrightarrow> w \<and> dc_joined d' = body"
    by auto
  have "w \<longrightarrow> dc_done d'" using dc_advance_more [OF adv(1), of "[]"] by simp
  with adv a raw show ?thesis
    by (auto simp: body_step_def an_finish_def dc_finish_def Chunked d)
qed

lemma push_written:
  assumes "list_all interim ts" "final_head h status fs fr" "written_body fr wire body"
    and W: "W = heads_bytes ts @ h @ head_end @ wire" "length W \<le> MAX_BODY"
  shows "\<exists>w b. an_push an_new (take k W) = Ok (w, b) \<and> (length W \<le> k \<longrightarrow> an_finish b = Ok (status, fs, body))"
proof -
  let ?H = "heads_bytes ts @ h @ head_end"
  have new: "grow an_new x = answer_at ([] @ x) 0" for x by (simp add: an_new_def)
  have le: "length (an_raw an_new @ take k W) \<le> MAX_BODY" using W(2) by (simp add: an_new_def)
  have "length ([] :: bytes) = 0" by simp
  note hw = heads_written [OF assms(1,2) this W(1), of k]
  show ?thesis
  proof (cases "k < length ?H")
    case True
    with hw obtain b where "head_loop (grow an_new (take k W)) = Ok (False, b)" unfolding new by auto
    moreover have "\<not> length W \<le> k" using True W(1) by simp
    ultimately show ?thesis using le by (auto simp: an_push_eq)
  next
    case False
    let ?a = "(answer_at ([] @ take k W) (0 + length (heads_bytes ts)))
      \<lparr>an_head := Some \<lparr>hd_status = status, hd_fields = fs, hd_body_start = 0 + length ?H, hd_framing = fr\<rparr>\<rparr>"
    have found: "head_loop (grow an_new (take k W)) = Ok (True, ?a)"
      using hw False unfolding new by (simp only: if_False)
    have raw: "an_raw ?a = ?H @ take (k - length ?H) wire"
      using False W(1) by (simp add: take_append add.assoc)
    have chunked: "fr = Chunked d \<Longrightarrow> d = dc_new" for d
      using assms(2) framing_of_new by (auto simp: final_head_def)
    have small: "length wire < usize_bound" using W by (simp add: MAX_BODY_def)
    have "\<exists>w b. body_step ?a = Ok (w, b) \<and> (length wire \<le> k - length ?H \<longrightarrow> an_finish b = Ok (status, fs, body))"
      by (rule body_written [OF assms(3) chunked small _ raw]) simp_all
    moreover have "length W \<le> k \<longrightarrow> length wire \<le> k - length ?H" using W(1) by auto
    ultimately show ?thesis using le found by (auto simp: an_push_eq)
  qed
qed

lemma written_read:
  assumes "list_all interim ts" and "final_head h status fs fr" and "written_body fr wire body"
    and "concat rs = heads_bytes ts @ h @ head_end @ wire" and "[] \<notin> set rs" and "length (concat rs) \<le> MAX_BODY"
  shows "read_answer an_new rs = Ok (status, fs, body)"
proof -
  note p = push_written [OF assms(1-3) refl, folded assms(4), OF assms(6)]
  obtain w b where full: "an_push an_new (concat rs) = Ok (w, b)" "an_finish b = Ok (status, fs, body)"
    using p [of "length (concat rs)"] by auto
  have ne: "rs \<noteq> []" using assms(4) by auto
  have "an_inv an_new" by (simp add: an_inv_def an_new_def)
  from read_answer_pieces [OF full this assms(5) ne] p show ?thesis by blast
qed


definition demo_head :: bytes where
  "demo_head = lit ''HTTP/1.1 200 OK'' @ crlf @ lit ''transfer-encoding: chunked''"

definition demo_fields :: "(str \<times> str) list" where
  "demo_fields = [(lit ''transfer-encoding'', lit ''chunked'')]"

lemma demo_head_of: "http1_head_of demo_head = Ok (200, demo_fields)"
proof -
  have "is_ascii demo_head" by code_simp
  then have "from_utf8_lossy demo_head = demo_head" by (rule from_utf8_lossy_ascii)
  moreover have "split_str crlf [] demo_head = [lit ''HTTP/1.1 200 OK'', lit ''transfer-encoding: chunked'']" by code_simp
  moreover have "split_whitespace (lit ''HTTP/1.1 200 OK'') = [lit ''HTTP/1.1'', lit ''200'', lit ''OK'']" by code_simp
  moreover have "parse_uint (2 ^ 16) (lit ''200'') = Some 200" by (simp add: parse_uint_def is_ascii_digit_def)
  moreover have "map (\<lambda>(name, value). (trim name, trim value)) (List.map_filter (split_once 58) [lit ''transfer-encoding: chunked'']) = demo_fields"
    by code_simp
  ultimately show ?thesis by (simp add: http1_head_of_def del: lit_Cons)
qed

lemma demo_final_head: "final_head demo_head 200 demo_fields (Chunked dc_new)"
proof -
  have "ends_first head_end demo_head" by code_simp
  moreover have "(case field demo_fields (lit ''transfer-encoding'') of None \<Rightarrow> False
      | Some value \<Rightarrow> contains (to_ascii_lowercase value) (lit ''chunked''))" by code_simp
  ultimately show ?thesis by (simp add: final_head_def demo_head_of framing_of_def del: lit_Cons)
qed

lemma demo_chunks: "valid_chunks [([50], lit ''ok'')] [48] []"
proof -
  have "ends_first crlf [50]" "ends_first crlf [48]" by code_simp+
  moreover have "utf8_valid [50]" "utf8_valid [48]" "trim (hd (split_on 59 [50])) = [50]" "trim (hd (split_on 59 [48])) = [48]" by code_simp+
  moreover have "hex_digit_value 50 = Some 2" "hex_digit_value 48 = Some 0" by code_simp+
  ultimately show ?thesis
    by (simp add: valid_chunks_def ok_line_def MAX_LINE_def chunk_size_def parse_hex_def to_digit_def)
qed


lemma demo_body: "written_body (Chunked dc_new) (chunked_body [([50], lit ''ok'')] [48] []) (lit ''ok'')"
  unfolding written_body.simps
  by (rule exI [of _ "[([50], lit ''ok'')]"], rule exI [of _ "[48]"], rule exI [of _ "[]"]) (use demo_chunks in simp)





end
