(* ===== verification/Dns.thy ===== *)
theory Dns
  imports Route_Dns Errors
begin

text \<open>
  \<^verbatim>\<open>dns.rs\<close>: the lookup of an ECHConfigList.  The resolver's address (UDP, TCP or
  DNS-over-HTTPS), the query, the check that a reply answers it, and the reading of the
  \<open>ech\<close> parameter of an HTTPS record.  The identifier drawn for a query, the environment, the
  datagrams received, the TCP stream's bytes, the URL parser and the HTTPS exchange are
  arguments.  An index out of range is a panic.
\<close>

section \<open>Where to ask\<close>

definition DEFAULT_ECH_DNS :: str where "DEFAULT_ECH_DNS = lit ''udp://1.1.1.1''"
definition DEFAULT_ECH_DOMAIN :: str where "DEFAULT_ECH_DOMAIN = lit ''cloudflare-ech.com''"
definition RR_HTTPS :: u16 where "RR_HTTPS = 65"
definition SVCPARAM_ECH :: u16 where "SVCPARAM_ECH = 5"

record doh_endpoint =
  doh_url :: str
  doh_address :: "str option"
  doh_sni :: "str option"

datatype ech_dns = Udp socket_addr | Tcp socket_addr | Https doh_endpoint

definition strip_scheme :: "str \<Rightarrow> str \<Rightarrow> str option" where
  "strip_scheme value scheme =
     (case get_range value 0 (length scheme) of None \<Rightarrow> None
      | Some head \<Rightarrow> if eq_ignore_ascii_case head scheme then Some (drop (length scheme) value) else None)"

definition strip_brackets :: "str \<Rightarrow> str option" where
  "strip_brackets text =
     (case strip_prefix [91] text of None \<Rightarrow> None | Some inside \<Rightarrow> strip_suffix [93] inside)"

definition socket_address :: "str \<Rightarrow> u16 \<Rightarrow> socket_addr option" where
  "socket_address text default_port =
     (case parse_socket_addr text of Some address \<Rightarrow> Some address
      | None \<Rightarrow>
          (case parse_ip text of Some ip \<Rightarrow> Some (sock_new ip default_port)
           | None \<Rightarrow>
               (case strip_brackets text of None \<Rightarrow> None
                | Some inner \<Rightarrow> map_option (\<lambda>ip. sock_new (V6 ip) default_port) (parse_ipv6 inner))))"

definition label_ok :: "str \<Rightarrow> bool" where
  "label_ok label \<longleftrightarrow> label \<noteq> [] \<and> length label \<le> 63 \<and>
     list_all (\<lambda>b. is_ascii_alphanumeric b \<or> b = 45 \<or> b = 95) label"

definition valid_domain :: "str \<Rightarrow> bool" where
  "valid_domain name0 =
     (let name = (case strip_suffix [46] name0 of Some n \<Rightarrow> n | None \<Rightarrow> name0)
      in name \<noteq> [] \<and> length name \<le> 253 \<and> list_all label_ok (split_on 46 name))"

definition bare_of :: "str \<Rightarrow> str" where
  "bare_of value = (case strip_brackets value of Some inside \<Rightarrow> inside | None \<Rightarrow> value)"

definition host_address :: "str \<Rightarrow> str option" where
  "host_address value =
     (case parse_ip (bare_of value) of
        Some ip \<Rightarrow> Some (show_ip ip)
      | None \<Rightarrow> if valid_domain value then Some value else None)"

definition host_and_port :: "str \<Rightarrow> u16 \<Rightarrow> (str \<times> u16) option" where
  "host_and_port value default_port =
     (case host_address value of
        Some host \<Rightarrow> Some (host, default_port)
      | None \<Rightarrow>
          (case rsplit_once 58 value of None \<Rightarrow> None
           | Some (host, port) \<Rightarrow>
               if 58 \<in> set host \<and> \<not> starts_with host [91] then None
               else (case parse_u16 port of None \<Rightarrow> None
                 | Some port \<Rightarrow>
                     if port = 0 then None else map_option (\<lambda>host. (host, port)) (host_address host))))"

text \<open>One \<open>@name=setting\<close> of an endpoint.\<close>

definition doh_piece :: "str \<Rightarrow> str \<Rightarrow> doh_endpoint \<Rightarrow> (doh_endpoint, str) res" where
  "doh_piece value piece e =
     (let neither = lit ''@'' @ piece @ lit '' in '' @ value @ lit '' is neither @address= nor @sni=''
      in case split_once 61 piece of
           None \<Rightarrow> Err neither
         | Some (name, setting0) \<Rightarrow>
             (let setting = trim setting0;
                  twice = value @ lit '' names @'' @ trim name @ lit '' twice'';
                  key = to_ascii_lowercase (trim name)
              in if key = lit ''address'' then
                   (if doh_address e \<noteq> None then Err twice
                    else (case host_address setting of
                            None \<Rightarrow> Err (lit ''@address='' @ setting @
                              lit '' is no IP address or domain name; the port is the URL'' @ [39] @ lit ''s'')
                          | Some a \<Rightarrow> Ok (e\<lparr>doh_address := Some a\<rparr>)))
                 else if key = lit ''sni'' then
                   (if doh_sni e \<noteq> None then Err twice
                    else if parse_ip (bare_of setting) = None \<and> valid_domain setting
                    then Ok (e\<lparr>doh_sni := Some setting\<rparr>)
                    else Err (lit ''@sni='' @ setting @ lit '' is no domain name''))
                 else Err neither))"

fun doh_pieces :: "str \<Rightarrow> str list \<Rightarrow> doh_endpoint \<Rightarrow> (doh_endpoint, str) res" where
  "doh_pieces value [] e = Ok e"
| "doh_pieces value (p # ps) e = rbind (doh_piece value p e) (\<lambda>e. doh_pieces value ps e)"

definition url_host :: "str \<Rightarrow> str" where
  "url_host url =
     (case strip_scheme url (lit ''https://'') of None \<Rightarrow> []
      | Some rest \<Rightarrow> hd (split_pred (\<lambda>c. c = 47 \<or> c = 63 \<or> c = 35) rest))"

definition doh_parse :: "str \<Rightarrow> (doh_endpoint, str) res" where
  "doh_parse value =
     (let pieces = split_on 64 value;
          url = trim (hd pieces)
      in if url_host url = [] then Err (value @ lit '' names no host'')
         else doh_pieces value (tl pieces) \<lparr>doh_url = url, doh_address = None, doh_sni = None\<rparr>)"

definition ech_dns_parse :: "str \<Rightarrow> (ech_dns, str) res" where
  "ech_dns_parse value0 =
     (let value = trim value0
      in if strip_scheme value (lit ''https://'') \<noteq> None then rbind (doh_parse value) (\<lambda>e. Ok (Https e))
         else (case (case strip_scheme value (lit ''udp://'') of
                       Some rest \<Rightarrow> Some (rest, False)
                     | None \<Rightarrow> map_option (\<lambda>rest. (rest, True)) (strip_scheme value (lit ''tcp://''))) of
                 None \<Rightarrow> Err (value @ lit '' is no udp://, tcp:// or https:// address'')
               | Some (rest, tcp) \<Rightarrow>
                   (case socket_address (trim_end_matches 47 rest) 53 of
                      None \<Rightarrow> Err (value @ lit '' names no IP address'')
                    | Some address \<Rightarrow> Ok (if tcp then Tcp address else Udp address))))"

definition opt_setting :: "str \<Rightarrow> str option \<Rightarrow> str" where
  "opt_setting name v = (case v of None \<Rightarrow> [] | Some s \<Rightarrow> name @ s)"

fun ech_dns_show :: "ech_dns \<Rightarrow> str" where
  "ech_dns_show (Udp a) = lit ''udp://'' @ show_socket_addr a"
| "ech_dns_show (Tcp a) = lit ''tcp://'' @ show_socket_addr a"
| "ech_dns_show (Https e) =
     doh_url e @ opt_setting (lit ''@address='') (doh_address e) @ opt_setting (lit ''@sni='') (doh_sni e)"

record ech_lookup =
  dns_flag :: str
  dns_variable :: str
  domain_flag :: str
  domain_variable :: str

definition SESSION_ECH :: ech_lookup where
  "SESSION_ECH = \<lparr>dns_flag = lit ''--ech-dns'', dns_variable = lit ''AETHER_ECH_DNS'',
     domain_flag = lit ''--ech-domain'', domain_variable = lit ''AETHER_ECH_DOMAIN''\<rparr>"

definition env_text :: "(str \<Rightarrow> str option) \<Rightarrow> str \<Rightarrow> str" where
  "env_text env name = (case env name of Some v \<Rightarrow> v | None \<Rightarrow> [])"

definition configured_dns :: "(str \<Rightarrow> str option) \<Rightarrow> ech_lookup \<Rightarrow> (ech_dns, str) res" where
  "configured_dns env lookup =
     (let value = trim (env_text env (dns_variable lookup))
      in ech_dns_parse (if value = [] then DEFAULT_ECH_DNS else value))"

definition configured_domain :: "(str \<Rightarrow> str option) \<Rightarrow> ech_lookup \<Rightarrow> (str, str) res" where
  "configured_domain env lookup =
     (let value = trim (env_text env (domain_variable lookup));
          name = (if value = [] then DEFAULT_ECH_DOMAIN else value)
      in if valid_domain name then Ok (trim_end_matches 46 name)
         else Err (name @ lit '' is no domain name''))"

section \<open>Queries and replies\<close>

definition query_labels :: "str \<Rightarrow> bytes list" where
  "query_labels name = filter (\<lambda>l. l \<noteq> []) (split_on 46 name)"

definition build_query :: "u16 \<Rightarrow> str \<Rightarrow> u16 \<Rightarrow> bytes \<times> u16" where
  "build_query ident name qtype =
     (be_bytes16 ident @ [0x01, 0x00] @ [0x00, 0x01] @ [0, 0, 0, 0, 0, 0] @
      concat (map (\<lambda>label. word_of_nat (length label) # label) (query_labels name)) @
      [0x00] @ be_bytes16 qtype @ [0x00, 0x01], ident)"

definition tcp_message :: "bytes \<Rightarrow> bytes" where
  "tcp_message msg = to_be 2 (length msg mod 65536) @ msg"

text \<open>The loop over the labels of the expected name: the position after them, if they match.\<close>

fun match_labels :: "bytes \<Rightarrow> bytes list \<Rightarrow> nat \<Rightarrow> (nat option, unit) res" where
  "match_labels msg [] pos = Ok (Some pos)"
| "match_labels msg (label # labels) pos =
     (if label = [] then match_labels msg labels pos
      else (case get_at msg pos of
              None \<Rightarrow> Ok None
            | Some b \<Rightarrow>
                if unat b \<noteq> length label then Ok None
                else (case checked_add (pos + 1) (unat b) of
                        None \<Rightarrow> Ok None
                      | Some stop \<Rightarrow>
                          if stop > length msg then Ok None
                          else rbind (idx_range msg (pos + 1) stop) (\<lambda>part.
                            if \<not> eq_ignore_ascii_case part label then Ok None
                            else match_labels msg labels stop))))"

definition response_matches :: "bytes \<Rightarrow> u16 \<Rightarrow> str \<Rightarrow> u16 \<Rightarrow> (bool, unit) res" where
  "response_matches msg expected_id expected_name expected_qtype =
     (if length msg < 12 then Ok False
      else rbind (idx msg 0) (\<lambda>i0. rbind (idx msg 1) (\<lambda>i1.
        if from_be16 i0 i1 \<noteq> expected_id then Ok False
        else rbind (idx msg 2) (\<lambda>f.
        if f AND 0x80 = 0 then Ok False
        else rbind (idx msg 4) (\<lambda>c4. rbind (idx msg 5) (\<lambda>c5.
        if from_be16 c4 c5 \<noteq> 1 then Ok False
        else rbind (match_labels msg (split_on 46 expected_name) 12) (\<lambda>m.
          case m of
            None \<Rightarrow> Ok False
          | Some pos \<Rightarrow>
              if get_at msg pos \<noteq> Some 0 then Ok False
              else let pos = pos + 1
                in if pos + 4 > length msg then Ok False
                   else rbind (idx msg pos) (\<lambda>t0. rbind (idx msg (pos + 1)) (\<lambda>t1.
                     Ok (from_be16 t0 t1 = expected_qtype))))))))))"

function skip_name :: "bytes \<Rightarrow> nat \<Rightarrow> nat option" where
  "skip_name buf pos =
     (case get_at buf pos of
        None \<Rightarrow> None
      | Some len \<Rightarrow>
          if len AND 0xc0 = 0xc0 then Some (pos + 2)
          else if len = 0 then Some (pos + 1)
          else skip_name buf (pos + 1 + unat len))"
  by pat_completeness auto
termination
  by (relation "measure (\<lambda>(buf, pos). length buf - pos)") (auto simp: get_at_Some)

declare skip_name.simps [simp del]

function svcparams_loop :: "bytes \<Rightarrow> nat \<Rightarrow> nat \<Rightarrow> (bytes option, unit) res" where
  "svcparams_loop msg stop p =
     (if p + 4 \<le> stop then
        rbind (idx msg p) (\<lambda>k0. rbind (idx msg (p + 1)) (\<lambda>k1.
        rbind (idx msg (p + 2)) (\<lambda>l0. rbind (idx msg (p + 3)) (\<lambda>l1.
          let key = from_be16 k0 k1; len = unat (from_be16 l0 l1)
          in if p + 4 + len > stop then Ok None
             else if key = SVCPARAM_ECH then
               rbind (idx_range msg (p + 4) (p + 4 + len)) (\<lambda>v. Ok (Some v))
             else svcparams_loop msg stop (p + 4 + len)))))
      else Ok None)"
  by pat_completeness auto
termination
  by (relation "measure (\<lambda>(msg, stop, p). stop - p)") auto

declare svcparams_loop.simps [simp del]

definition parse_svcparams_ech :: "bytes \<Rightarrow> nat \<Rightarrow> nat \<Rightarrow> (bytes option, unit) res" where
  "parse_svcparams_ech msg rdata_start rdlen =
     (let stop = rdata_start + rdlen
      in if rdata_start + 2 > stop then Ok None
         else (case skip_name msg (rdata_start + 2) of
                 None \<Rightarrow> Ok None
               | Some p \<Rightarrow> svcparams_loop msg stop p))"

fun skip_questions :: "nat \<Rightarrow> bytes \<Rightarrow> nat \<Rightarrow> nat option" where
  "skip_questions 0 msg pos = Some pos"
| "skip_questions (Suc n) msg pos =
     (case skip_name msg pos of None \<Rightarrow> None
      | Some pos \<Rightarrow> (case checked_add pos 4 of None \<Rightarrow> None | Some pos \<Rightarrow> skip_questions n msg pos))"

fun answers_ech :: "nat \<Rightarrow> bytes \<Rightarrow> nat \<Rightarrow> (bytes option, unit) res" where
  "answers_ech 0 msg pos = Ok None"
| "answers_ech (Suc n) msg pos =
     (case skip_name msg pos of
        None \<Rightarrow> Ok None
      | Some pos \<Rightarrow>
          if pos + 10 > length msg then Ok None
          else
            rbind (idx msg pos) (\<lambda>t0. rbind (idx msg (pos + 1)) (\<lambda>t1.
            rbind (idx msg (pos + 8)) (\<lambda>l0. rbind (idx msg (pos + 9)) (\<lambda>l1.
              let rdlen = unat (from_be16 l0 l1)
              in if pos + 10 + rdlen > length msg then Ok None
                 else rbind (if from_be16 t0 t1 = RR_HTTPS then parse_svcparams_ech msg (pos + 10) rdlen else Ok None) (\<lambda>found.
                   case found of Some ech \<Rightarrow> Ok (Some ech)
                   | None \<Rightarrow> answers_ech n msg (pos + 10 + rdlen)))))))"

definition parse_https_ech :: "bytes \<Rightarrow> (bytes option, unit) res" where
  "parse_https_ech msg =
     (if length msg < 12 then Ok None
      else rbind (idx msg 4) (\<lambda>q0. rbind (idx msg 5) (\<lambda>q1.
           rbind (idx msg 6) (\<lambda>a0. rbind (idx msg 7) (\<lambda>a1.
             case skip_questions (unat (from_be16 q0 q1)) msg 12 of
               None \<Rightarrow> Ok None
             | Some pos \<Rightarrow> answers_ech (unat (from_be16 a0 a1)) msg pos)))))"

section \<open>The lookup\<close>

fun no_panic :: "('a, unit) res \<Rightarrow> ('a, 'e) res" where
  "no_panic (Ok x) = Ok x"
| "no_panic _ = Panic"

definition answer_ech :: "bytes \<Rightarrow> str \<Rightarrow> bytes aresult" where
  "answer_ech msg domain =
     rbind (no_panic (parse_https_ech msg)) (\<lambda>r.
       case r of
         Some ech \<Rightarrow> if ech \<noteq> [] then Ok ech
           else Err (Ech (domain @ lit '' has no HTTPS record with an ech parameter''))
       | None \<Rightarrow> Err (Ech (domain @ lit '' has no HTTPS record with an ech parameter'')))"

text \<open>The receiving side of \<open>query_udp\<close>: the datagrams as they come, until one matches; \<open>None\<close>
  when they run out, and the lookup waits until its time is up.\<close>

fun query_udp :: "u16 \<Rightarrow> str \<Rightarrow> bytes list \<Rightarrow> bytes aresult option" where
  "query_udp ident domain [] = None"
| "query_udp ident domain (d # ds) =
     (case response_matches (take 4096 d) ident domain RR_HTTPS of
        Ok True \<Rightarrow> Some (answer_ech (take 4096 d) domain)
      | Ok False \<Rightarrow> query_udp ident domain ds
      | _ \<Rightarrow> Some Panic)"

definition mismatch :: aether_error where
  "mismatch = Ech (lit ''the reply does not match the query'')"

definition check_reply :: "u16 \<Rightarrow> str \<Rightarrow> bytes \<Rightarrow> bytes aresult" where
  "check_reply ident domain msg =
     rbind (no_panic (response_matches msg ident domain RR_HTTPS)) (\<lambda>ok.
       if \<not> ok then Err mismatch else answer_ech msg domain)"

text \<open>The stream's bytes until its end; a reply cut short is the error of \<open>read_exact\<close>.\<close>

definition query_tcp :: "u16 \<Rightarrow> str \<Rightarrow> bytes \<Rightarrow> bytes aresult" where
  "query_tcp ident domain stream =
     (case stream of
        l0 # l1 # rest \<Rightarrow>
          (let n = unat (from_be16 l0 l1)
           in if length rest < n then Err (Io (lit ''early eof'')) else check_reply ident domain (take n rest))
      | _ \<Rightarrow> Err (Io (lit ''early eof'')))"

definition doh_query :: "u16 \<Rightarrow> str \<Rightarrow> bytes" where
  "doh_query ident domain = (fst (build_query ident domain RR_HTTPS))[0 := 0, 1 := 0]"

text \<open>The exchange answers a request with a status and a body, or fails.\<close>

definition query_https :: "(bytes \<Rightarrow> (nat \<times> bytes) aresult) \<Rightarrow> u16 \<Rightarrow> str \<Rightarrow> bytes aresult" where
  "query_https send ident domain =
     (case send (doh_query ident domain) of
        Err e \<Rightarrow> Err (Ech (error_to_string e))
      | Panic \<Rightarrow> Panic
      | Ok (status, msg) \<Rightarrow>
          if \<not> (200 \<le> status \<and> status < 300) then Err (Ech (lit ''answered '' @ show_nat status))
          else check_reply 0 domain msg)"

text \<open>\<open>answer\<close> is what the lookup over the transport gave, \<open>None\<close> when its time ran out.\<close>

definition fetch_ech_config :: "(str \<Rightarrow> str option) \<Rightarrow> ech_lookup \<Rightarrow> (ech_dns \<Rightarrow> str \<Rightarrow> bytes aresult option) \<Rightarrow> bytes aresult" where
  "fetch_ech_config env lookup answer =
     rbind (map_err (\<lambda>e. Ech (dns_flag lookup @ lit '': '' @ e)) (configured_dns env lookup)) (\<lambda>dns.
     rbind (map_err (\<lambda>e. Ech (domain_flag lookup @ lit '': '' @ e)) (configured_domain env lookup)) (\<lambda>domain.
       case answer dns domain of
         None \<Rightarrow> Err (Ech (ech_dns_show dns @ lit '' did not answer for '' @ domain))
       | Some (Ok ech) \<Rightarrow> Ok ech
       | Some (Err e) \<Rightarrow>
           (let reason = (case e of Ech r \<Rightarrow> r | other \<Rightarrow> error_to_string other)
            in Err (Ech (domain @ lit '' via '' @ ech_dns_show dns @ lit '' failed: '' @ reason)))
       | Some Panic \<Rightarrow> Panic))"


section \<open>A reply that answers the query\<close>

definition enc_labels :: "bytes list \<Rightarrow> bytes" where
  "enc_labels ls = concat (map (\<lambda>l. word_of_nat (length l) # l) ls)"

lemma enc_labels_simps [simp]:
  "enc_labels [] = []" "enc_labels (l # ls) = word_of_nat (length l) # l @ enc_labels ls"
  by (simp_all add: enc_labels_def)

lemma name_bytes_enc: "name_bytes ls = enc_labels ls @ [0]"
  by (simp add: name_bytes_def enc_labels_def)

abbreviation (input) same_labels :: "bytes list \<Rightarrow> bytes list \<Rightarrow> bool" where
  "same_labels \<equiv> list_all2 eq_ignore_ascii_case"

lemma match_labels_sound:
  assumes "match_labels msg labels pos = Ok (Some p)" "pos \<le> length msg"
  shows "\<exists>ls. same_labels ls (filter (\<lambda>l. l \<noteq> []) labels) \<and> list_all (\<lambda>l. length l < 256) ls \<and>
    drop pos msg = enc_labels ls @ drop p msg \<and> p = pos + length (enc_labels ls) \<and> p \<le> length msg"
  using assms
proof (induction msg labels pos rule: match_labels.induct)
  case (2 msg label labels pos)
  show ?case
  proof (cases "label = []")
    case True
    with 2 show ?thesis by simp
  next
    case False
    with 2(3) obtain b where b: "pos < length msg" "msg ! pos = b" "unat b = length label"
      and stop: "pos + 1 + length label \<le> length msg" "pos + 1 + length label < usize_bound"
      and part: "eq_ignore_ascii_case (sub msg (pos + 1) (pos + 1 + length label)) label"
      and rec: "match_labels msg labels (pos + 1 + length label) = Ok (Some p)"
      by (auto simp: get_at_Some checked_add_Some split: option.splits if_splits)
    let ?l = "sub msg (pos + 1) (pos + 1 + length label)"
    have len: "length ?l = length label" "length label < 256"
      using stop(1) unat_byte_less [of b] b(3) by (simp_all del: unat_byte_less)
    have "match_labels msg labels (pos + 1 + length label) = Ok (Some p) \<Longrightarrow> pos + 1 + length label \<le> length msg \<Longrightarrow>
       \<exists>ls. same_labels ls (filter (\<lambda>l. l \<noteq> []) labels) \<and> list_all (\<lambda>l. length l < 256) ls \<and>
        drop (pos + 1 + length label) msg = enc_labels ls @ drop p msg \<and>
        p = pos + 1 + length label + length (enc_labels ls) \<and> p \<le> length msg"
      using 2(2) [OF False, of b "pos + 1 + length label"] b stop part
      by (simp add: get_at_Some checked_add_Some)
    then obtain ls where ls: "same_labels ls (filter (\<lambda>l. l \<noteq> []) labels)" "list_all (\<lambda>l. length l < 256) ls"
        "drop (pos + 1 + length label) msg = enc_labels ls @ drop p msg"
        "p = pos + 1 + length label + length (enc_labels ls)" "p \<le> length msg"
      using rec stop by blast
    have byte: "word_of_nat (length ?l) = b"
      using b(3) len by (simp add: word_unat_eq_iff unat_word_of_nat_small)
    have "drop pos msg = b # drop (pos + 1) msg"
      using b Cons_nth_drop_Suc [of pos msg] by simp
    also have "drop (pos + 1) msg = ?l @ drop (pos + 1 + length label) msg"
      using append_take_drop_id [of "length label" "drop (pos + 1) msg"]
      by (simp add: sub_def add.commute)
    finally have "drop pos msg = enc_labels (?l # ls) @ drop p msg"
      using ls(3) byte by simp
    with False ls part len show ?thesis
      by (intro exI [of _ "?l # ls"]) simp
  qed
qed simp

lemma match_labels_complete:
  assumes "same_labels ls (filter (\<lambda>l. l \<noteq> []) labels)" "list_all (\<lambda>l. length l < 256) ls"
    "length pre + length (enc_labels ls) < usize_bound"
  shows "match_labels (pre @ enc_labels ls @ rest) labels (length pre) = Ok (Some (length pre + length (enc_labels ls)))"
  using assms
proof (induction labels arbitrary: ls pre)
  case (Cons label labels)
  show ?case
  proof (cases "label = []")
    case True
    with Cons show ?thesis by simp
  next
    case False
    with Cons.prems(1) obtain l ls' where ls: "ls = l # ls'" "eq_ignore_ascii_case l label"
      "same_labels ls' (filter (\<lambda>l. l \<noteq> []) labels)"
      by (auto simp: list_all2_Cons2)
    have len: "length l = length label" using ls(2) by (rule eq_ignore_ascii_case_length)
    have w: "unat (word_of_nat (length l) :: byte) = length l"
      using Cons.prems(2) ls(1) by (intro unat_word_of_nat_small) simp
    let ?m = "pre @ enc_labels ls @ rest"
    have m: "?m = (pre @ word_of_nat (length l) # l) @ enc_labels ls' @ rest" by (simp add: ls)
    have range: "idx_range ?m (length pre + 1) (length pre + 1 + length l) = Ok l"
      using sub_append_mid [of "pre @ [word_of_nat (length l)]" l "enc_labels ls' @ rest"]
      by (simp add: idx_range_def ls)
    have at: "get_at ?m (length pre) = Some (word_of_nat (length l))"
      by (simp add: ls)
    have "match_labels ?m (label # labels) (length pre) = match_labels ?m labels (length pre + 1 + length l)"
      unfolding match_labels.simps at option.case using False Cons.prems(3) len w ls(2) range [unfolded idx_range_def]
      by (simp add: checked_add_def ls(1) idx_range_def split: if_splits)
    also have "\<dots> = Ok (Some (length (pre @ word_of_nat (length l) # l) + length (enc_labels ls')))"
      using Cons.IH [OF ls(3), of "pre @ word_of_nat (length l) # l"] Cons.prems unfolding m by (simp add: ls(1))
    finally show ?thesis by (simp add: ls(1))
  qed
qed simp

lemma match_labels_Ok: "\<exists>r. match_labels msg labels pos = Ok r"
  by (induction msg labels pos rule: match_labels.induct)
    (auto simp: checked_add_Some split: option.splits)


definition answers_query :: "bytes \<Rightarrow> u16 \<Rightarrow> str \<Rightarrow> u16 \<Rightarrow> bool" where
  "answers_query msg ident name qtype \<longleftrightarrow>
     (\<exists>hdr ls tail. msg = hdr @ enc_labels ls @ [0] @ be_bytes16 qtype @ tail \<and> length hdr = 12 \<and> 2 \<le> length tail \<and>
        take 2 hdr = be_bytes16 ident \<and> hdr ! 2 AND 0x80 \<noteq> 0 \<and> sub hdr 4 6 = [0, 1] \<and>
        same_labels ls (query_labels name) \<and> list_all (\<lambda>l. length l < 256) ls)"

lemma from_be16_inject: "from_be16 a b = w \<longleftrightarrow> [a, b] = be_bytes16 w"
proof
  assume w: "from_be16 a b = w"
  have "to_be 2 (be_nat [a, b]) = [a, b]" by (rule to_be_be_nat) simp
  then show "[a, b] = be_bytes16 w"
    by (simp add: be_bytes16_def unat_from_be16 [of a b, unfolded w])
next
  assume "[a, b] = be_bytes16 w"
  then show "from_be16 a b = w" using be_bytes16_cases [of w] by (metis list.inject)
qed

lemma be_bytes16_1: "be_bytes16 1 = [0, 1]"
  by (simp add: be_bytes16_def numeral_2_eq_2)

lemma header_16: "i + 1 < length msg \<Longrightarrow> from_be16 (msg ! i) (msg ! (i + 1)) = w \<longleftrightarrow> sub msg i (i + 2) = be_bytes16 w"
  unfolding from_be16_inject using sub_two [of i msg] by metis

lemma response_matches_Ok:
  assumes "12 \<le> length msg"
  shows "response_matches msg ident name qtype =
    (if sub msg 0 2 = be_bytes16 ident \<and> msg ! 2 AND 0x80 \<noteq> 0 \<and> sub msg 4 6 = [0, 1] then
       (case match_labels msg (split_on 46 name) 12 of
          Ok (Some pos) \<Rightarrow> Ok (pos < length msg \<and> msg ! pos = 0 \<and> pos + 5 \<le> length msg \<and>
            sub msg (pos + 1) (pos + 3) = be_bytes16 qtype)
        | _ \<Rightarrow> Ok False)
     else Ok False)"
proof -
  obtain r where r: "match_labels msg (split_on 46 name) 12 = Ok r" using match_labels_Ok by blast
  have h: "from_be16 (msg ! 0) (msg ! 1) = ident \<longleftrightarrow> sub msg 0 2 = be_bytes16 ident"
    "from_be16 (msg ! 4) (msg ! 5) = 1 \<longleftrightarrow> sub msg 4 6 = [0, 1]"
    using header_16 [of 0 msg] header_16 [of 4 msg 1] assms
    by (simp_all add: be_bytes16_1 numeral_2_eq_2)
  have q: "pos + 5 \<le> length msg \<Longrightarrow>
      from_be16 (msg ! (pos + 1)) (msg ! (pos + 2)) = qtype \<longleftrightarrow> sub msg (pos + 1) (pos + 3) = be_bytes16 qtype" for pos
    using header_16 [of "pos + 1" msg] by (simp add: numeral_3_eq_3)
  have i: "(idx msg 0 :: (byte, unit) res) = Ok (msg ! 0)" "(idx msg 1 :: (byte, unit) res) = Ok (msg ! 1)"
    "(idx msg 2 :: (byte, unit) res) = Ok (msg ! 2)" "(idx msg 4 :: (byte, unit) res) = Ok (msg ! 4)"
    "(idx msg 5 :: (byte, unit) res) = Ok (msg ! 5)"
    using assms by (auto simp: idx_def)
  show ?thesis
    unfolding response_matches_def i rbind.simps h r
    using assms q by (auto simp: get_at_def Let_def split: option.splits)
qed

lemma response_matches_iff:
  assumes "length msg < usize_bound"
  shows "response_matches msg ident name qtype = Ok (answers_query msg ident name qtype)"
proof (cases "12 \<le> length msg")
  case False
  then have "\<not> answers_query msg ident name qtype" by (auto simp: answers_query_def)
  with False show ?thesis by (simp add: response_matches_def)
next
  case True
  have "response_matches msg ident name qtype = Ok True \<longleftrightarrow> answers_query msg ident name qtype"
  proof
    assume "response_matches msg ident name qtype = Ok True"
    then obtain pos where h: "sub msg 0 2 = be_bytes16 ident" "msg ! 2 AND 0x80 \<noteq> 0" "sub msg 4 6 = [0, 1]"
      and m: "match_labels msg (split_on 46 name) 12 = Ok (Some pos)"
      and p: "msg ! pos = 0" "pos + 5 \<le> length msg" "sub msg (pos + 1) (pos + 3) = be_bytes16 qtype"
      unfolding response_matches_Ok [OF True] by (auto split: if_splits res.splits option.splits)
    from match_labels_sound [OF m True] obtain ls where ls: "same_labels ls (query_labels name)"
      "list_all (\<lambda>l. length l < 256) ls" "drop 12 msg = enc_labels ls @ drop pos msg"
      by (auto simp: query_labels_def)
    have "drop pos msg = 0 # drop (pos + 1) msg"
      using p Cons_nth_drop_Suc [of pos msg] by simp
    also have "drop (pos + 1) msg = be_bytes16 qtype @ drop (pos + 3) msg"
      using append_take_drop_id [of 2 "drop (pos + 1) msg"] p(3)
      by (simp add: sub_def add.commute numeral_3_eq_3)
    finally have "msg = take 12 msg @ enc_labels ls @ [0] @ be_bytes16 qtype @ drop (pos + 3) msg"
      using ls(3) append_take_drop_id [of 12 msg] by simp
    with h ls True p(2) show "answers_query msg ident name qtype"
      unfolding answers_query_def
      by - (rule exI [of _ "take 12 msg"], rule exI [of _ ls], rule exI [of _ "drop (pos + 3) msg"],
        simp add: sub_def drop_take)
  next
    assume "answers_query msg ident name qtype"
    then obtain hdr ls tail where m: "msg = hdr @ enc_labels ls @ [0] @ be_bytes16 qtype @ tail" "length hdr = 12" "2 \<le> length tail"
        and h: "take 2 hdr = be_bytes16 ident" "hdr ! 2 AND 0x80 \<noteq> 0" "sub hdr 4 6 = [0, 1]"
        and ls: "same_labels ls (query_labels name)" "list_all (\<lambda>l. length l < 256) ls"
      unfolding answers_query_def by blast
    have "match_labels msg (split_on 46 name) 12 = Ok (Some (12 + length (enc_labels ls)))"
      using match_labels_complete [OF ls(1) [unfolded query_labels_def] ls(2), of hdr "[0] @ be_bytes16 qtype @ tail"] m assms
      by simp
    moreover have "sub msg (12 + length (enc_labels ls) + 1) (12 + length (enc_labels ls) + 3) = be_bytes16 qtype"
      using m(2) sub_append_mid [of "hdr @ enc_labels ls @ [0]" "be_bytes16 qtype" tail] by (simp add: m(1))
    ultimately show "response_matches msg ident name qtype = Ok True"
      unfolding response_matches_Ok [OF True] using m h by (simp add: sub_def nth_append)
  qed
  moreover have "\<exists>b. response_matches msg ident name qtype = Ok b"
    unfolding response_matches_Ok [OF True] by (auto split: res.splits option.splits)
  ultimately show ?thesis by auto
qed

text \<open>C21. A reply is accepted exactly when it answers the query: it has the query's identifier,
  is a response, carries one question, and that question is the asked name, letter case
  aside, with the asked type.  A forged reply that misses any of these is discarded, and no
  message makes the check panic.\<close>

theorem response_matches_exact:
  assumes "length msg < usize_bound"
  shows "response_matches msg ident name qtype = Ok (\<exists>hdr ls tail.
     msg = hdr @ enc_labels ls @ [0] @ be_bytes16 qtype @ tail \<and> length hdr = 12 \<and> 2 \<le> length tail \<and>
     take 2 hdr = be_bytes16 ident \<and> hdr ! 2 AND 0x80 \<noteq> 0 \<and> sub hdr 4 6 = [0, 1] \<and>
     list_all2 eq_ignore_ascii_case ls (filter (\<lambda>l. l \<noteq> []) (split_on 46 name)) \<and> list_all (\<lambda>l. length l < 256) ls)"
  using response_matches_iff [OF assms] unfolding answers_query_def query_labels_def .

theorem response_matches_exact_witness:
  "response_matches ([1, 2, 0x81, 0x80, 0, 1, 0, 0, 0, 0, 0, 0] @ enc_labels [lit ''A''] @ [0, 0, 65, 0, 1]) 0x0102 (lit ''a.'') 65 = Ok True"
proof -
  let ?hdr = "[1, 2, 0x81, 0x80, 0, 1, 0, 0, 0, 0, 0, 0] :: bytes"
  have "be_bytes16 65 = [0, 65]" "be_bytes16 0x0102 = [1, 2]" by code_simp+
  moreover have "list_all2 eq_ignore_ascii_case [lit ''A''] (filter (\<lambda>l. l \<noteq> []) (split_on 46 (lit ''a.'')))" by code_simp
  moreover have "sub ?hdr 4 6 = [0, 1]" "?hdr ! 2 AND 0x80 \<noteq> 0" by (simp_all add: sub_def)
  ultimately have "\<exists>hdr ls tail.
     ?hdr @ enc_labels [lit ''A''] @ [0, 0, 65, 0, 1] = hdr @ enc_labels ls @ [0] @ be_bytes16 65 @ tail \<and> length hdr = 12 \<and> 2 \<le> length tail \<and>
     take 2 hdr = be_bytes16 0x0102 \<and> hdr ! 2 AND 0x80 \<noteq> 0 \<and> sub hdr 4 6 = [0, 1] \<and>
     list_all2 eq_ignore_ascii_case ls (filter (\<lambda>l. l \<noteq> []) (split_on 46 (lit ''a.''))) \<and> list_all (\<lambda>l. length l < 256) ls"
    by - (rule exI [of _ ?hdr], rule exI [of _ "[lit ''A'']"], rule exI [of _ "[0, 1]"], simp)
  then show ?thesis
    by (subst response_matches_exact) simp_all
qed


section \<open>The ech parameter of a written record\<close>

lemma svcparams_loop_Ok: "stop \<le> length msg \<Longrightarrow> \<exists>r. svcparams_loop msg stop p = Ok r"
proof (induction msg stop p rule: svcparams_loop.induct)
  case (1 msg stop p)
  show ?case
  proof (cases "p + 4 \<le> stop")
    case False
    then show ?thesis by (subst svcparams_loop.simps) simp
  next
    case True
    have i: "idx msg p = Ok (msg ! p)" "idx msg (p + 1) = Ok (msg ! (p + 1))" "idx msg (p + 2) = Ok (msg ! (p + 2))"
      "idx msg (p + 3) = Ok (msg ! (p + 3))"
      using True 1(2) by (auto simp: idx_def)
    have "\<not> (p + 4 + unat (from_be16 (msg ! (p + 2)) (msg ! (p + 3))) > stop) \<Longrightarrow>
        from_be16 (msg ! p) (msg ! (p + 1)) \<noteq> SVCPARAM_ECH \<Longrightarrow>
        \<exists>r. svcparams_loop msg stop (p + 4 + unat (from_be16 (msg ! (p + 2)) (msg ! (p + 3)))) = Ok r"
      by (rule 1(1) [OF True refl refl _ _ 1(2)])
    then show ?thesis
      using True 1(2) by (subst svcparams_loop.simps, unfold i rbind.simps Let_def)
        (auto simp: idx_range_def)
  qed
qed

lemma parse_svcparams_ech_Ok: "start + n \<le> length msg \<Longrightarrow> \<exists>r. parse_svcparams_ech msg start n = Ok r"
  by (auto simp: parse_svcparams_ech_def Let_def intro: svcparams_loop_Ok split: option.splits)

lemma answers_ech_Ok: "\<exists>r. answers_ech n msg pos = Ok r"
proof (induction n arbitrary: pos)
  case (Suc n)
  show ?case
  proof (cases "skip_name msg pos")
    case (Some p)
    show ?thesis
    proof (cases "p + 10 > length msg \<or> p + 10 + unat (from_be16 (msg ! (p + 8)) (msg ! (p + 9))) > length msg")
      case True
      with Some show ?thesis by (auto simp: Let_def)
    next
      case False
      let ?n = "unat (from_be16 (msg ! (p + 8)) (msg ! (p + 9)))"
      have "p + 10 + ?n \<le> length msg" using False by (simp del: unat_from_be16)
      then obtain r where r: "parse_svcparams_ech msg (p + 10) ?n = Ok r"
        using parse_svcparams_ech_Ok by blast
      with False Some Suc.IH [of "p + 10 + ?n"] show ?thesis
        by (cases r) (auto simp: Let_def simp del: unat_from_be16)
    qed
  qed simp
qed simp

lemma parse_https_ech_Ok: "\<exists>r. parse_https_ech msg = Ok r"
proof (cases "length msg < 12")
  case False
  then show ?thesis
    using answers_ech_Ok by (auto simp: parse_https_ech_def split: option.splits)
qed (simp add: parse_https_ech_def)

definition svc_bytes :: "(u16 \<times> bytes) list \<Rightarrow> bytes" where
  "svc_bytes ps = concat (map (\<lambda>(k, v). be_bytes16 k @ to_be 2 (length v) @ v) ps)"

lemma svc_bytes_simps [simp]: "svc_bytes [] = []"
  "svc_bytes ((k, v) # ps) = be_bytes16 k @ to_be 2 (length v) @ v @ svc_bytes ps"
  by (simp_all add: svc_bytes_def)

lemma field16_at:
  assumes "length pre = p"
  shows "(pre @ be_bytes16 w @ rest) ! p = hd (be_bytes16 w)" "(pre @ be_bytes16 w @ rest) ! (p + 1) = hd (tl (be_bytes16 w))"
    and "from_be16 (hd (be_bytes16 w)) (hd (tl (be_bytes16 w))) = w"
proof -
  obtain a b where ab: "be_bytes16 w = [a, b]" "from_be16 a b = w" by (rule be_bytes16_cases)
  then show "(pre @ be_bytes16 w @ rest) ! p = hd (be_bytes16 w)" "(pre @ be_bytes16 w @ rest) ! (p + 1) = hd (tl (be_bytes16 w))"
    "from_be16 (hd (be_bytes16 w)) (hd (tl (be_bytes16 w))) = w"
    using assms by (auto simp: nth_append)
qed

lemma field16: "length pre = p \<Longrightarrow> from_be16 ((pre @ be_bytes16 w @ rest) ! p) ((pre @ be_bytes16 w @ rest) ! (p + 1)) = w"
  by (simp only: field16_at)

lemma to_be_16: "n < 65536 \<Longrightarrow> to_be 2 n = be_bytes16 (word_of_nat n)"
  by (simp add: be_bytes16_def unat_word_of_nat_small del: to_be.simps)

lemma svcparams_loop_written:
  assumes "list_all (\<lambda>(k, v). length v < 65536) ps"
  shows "svcparams_loop (pre @ svc_bytes ps @ rest) (length pre + length (svc_bytes ps)) (length pre) =
    Ok (map_option snd (find (\<lambda>(k, v). k = SVCPARAM_ECH) ps))"
  using assms
proof (induction ps arbitrary: pre)
  case Nil
  show ?case by (subst svcparams_loop.simps) simp
next
  case (Cons kv ps)
  obtain k v where kv: "kv = (k, v)" by (cases kv)
  have v: "length v < 65536" using Cons.prems by (simp add: kv)
  let ?w = "word_of_nat (length v) :: u16"
  have w: "unat ?w = length v" using v by (intro unat_word_of_nat_small) simp
  let ?p = "length pre"
  let ?m = "pre @ svc_bytes (kv # ps) @ rest"
  have m1: "?m = pre @ be_bytes16 k @ be_bytes16 ?w @ v @ svc_bytes ps @ rest"
    by (simp add: kv to_be_16 [OF v])
  have m2: "?m = (pre @ be_bytes16 k) @ be_bytes16 ?w @ v @ svc_bytes ps @ rest"
    by (simp add: m1)
  have m3: "?m = (pre @ be_bytes16 k @ be_bytes16 ?w) @ v @ svc_bytes ps @ rest"
    by (simp add: m1)
  have m4: "?m = (pre @ be_bytes16 k @ be_bytes16 ?w @ v) @ svc_bytes ps @ rest"
    by (simp add: m1)
  have key: "from_be16 (?m ! ?p) (?m ! (?p + 1)) = k"
    unfolding m1 by (rule field16) simp
  have len: "from_be16 (?m ! (?p + 2)) (?m ! (?p + 2 + 1)) = ?w"
    unfolding m2 by (rule field16) simp
  have val: "idx_range ?m (?p + 4) (?p + 4 + length v) = Ok v"
    unfolding m3 using sub_append_mid [of "pre @ be_bytes16 k @ be_bytes16 ?w" v "svc_bytes ps @ rest"]
    by (simp add: idx_range_def)
  have L: "length (svc_bytes (kv # ps)) = 4 + length v + length (svc_bytes ps)" by (simp add: kv)
  have i: "idx ?m ?p = Ok (?m ! ?p)" "idx ?m (?p + 1) = Ok (?m ! (?p + 1))" "idx ?m (?p + 2) = Ok (?m ! (?p + 2))"
      "idx ?m (?p + 3) = Ok (?m ! (?p + 2 + 1))"
    using L by (auto simp: idx_def numeral_3_eq_3)
  have IH: "svcparams_loop ?m (?p + length (svc_bytes (kv # ps))) (?p + 4 + length v) =
      Ok (map_option snd (find (\<lambda>(k, v). k = SVCPARAM_ECH) ps))"
  proof -
    have e: "length (pre @ be_bytes16 k @ be_bytes16 ?w @ v) = ?p + 4 + length v" by simp
    have "?p + 4 + length v + length (svc_bytes ps) = ?p + length (svc_bytes (kv # ps))" using L by simp
    moreover have "list_all (\<lambda>(k, v). length v < 65536) ps" using Cons.prems by simp
    ultimately show ?thesis
      using Cons.IH [of "pre @ be_bytes16 k @ be_bytes16 ?w @ v"] unfolding e m4 by metis
  qed
  have "?p + 4 \<le> ?p + length (svc_bytes (kv # ps))" using L by simp
  then show ?case
    by (subst svcparams_loop.simps, unfold i rbind.simps Let_def key len w val IH) (simp add: L, simp add: kv)
qed


lemma skip_name_labels:
  assumes "list_all valid_label ls" "length pre = p"
  shows "skip_name (pre @ name_bytes ls @ rest) p = Some (p + length (name_bytes ls))"
  using assms
proof (induction ls arbitrary: pre p)
  case Nil
  then have "get_at (pre @ 0 # rest) p = Some 0" by auto
  then show ?case by (subst skip_name.simps) (simp add: name_bytes_def)
next
  case (Cons l ls)
  let ?w = "word_of_nat (length l) :: byte"
  have l: "valid_label l" using Cons.prems by simp
  note w = label_byte [OF l]
  have nz: "?w \<noteq> 0" using w(1) l by (auto simp: valid_label_def word_unat_eq_iff)
  have m: "pre @ name_bytes (l # ls) @ rest = (pre @ ?w # l) @ name_bytes ls @ rest"
    by (simp add: name_bytes_def)
  have at: "get_at (pre @ name_bytes (l # ls) @ rest) p = Some ?w"
    using Cons.prems(2) by (auto simp: name_bytes_def)
  have "skip_name (pre @ name_bytes (l # ls) @ rest) p = skip_name ((pre @ ?w # l) @ name_bytes ls @ rest) (p + 1 + length l)"
    by (subst skip_name.simps, subst at) (use w nz m in simp)
  also have "\<dots> = Some (p + 1 + length l + length (name_bytes ls))"
    using Cons.prems by (intro Cons.IH) simp_all
  finally show ?case by (simp add: name_bytes_def)
qed

lemma skip_name_pointer: "length pre = p \<Longrightarrow> skip_name (pre @ 0xC0 # x # rest) p = Some (p + 2)"
  by (subst skip_name.simps) auto

datatype rr = HttpsRecord bytes "bytes list" "(u16 \<times> bytes) list" | OtherRecord u16 bytes

fun rr_type :: "rr \<Rightarrow> u16" where
  "rr_type (HttpsRecord prio target ps) = RR_HTTPS"
| "rr_type (OtherRecord t d) = t"

fun rr_data :: "rr \<Rightarrow> bytes" where
  "rr_data (HttpsRecord prio target ps) = prio @ name_bytes target @ svc_bytes ps"
| "rr_data (OtherRecord t d) = d"

fun rr_ech :: "rr \<Rightarrow> bytes option" where
  "rr_ech (HttpsRecord prio target ps) = map_option snd (find (\<lambda>(k, v). k = SVCPARAM_ECH) ps)"
| "rr_ech (OtherRecord t d) = None"

fun valid_rr :: "rr \<Rightarrow> bool" where
  "valid_rr (HttpsRecord prio target ps) \<longleftrightarrow> length prio = 2 \<and> list_all valid_label target \<and>
     list_all (\<lambda>(k, v). length v < 65536) ps"
| "valid_rr (OtherRecord t d) \<longleftrightarrow> t \<noteq> RR_HTTPS"

text \<open>A record owned by an earlier name, with its class and lifetime in \<open>mid\<close>.\<close>

definition rr_bytes :: "byte \<times> bytes \<times> rr \<Rightarrow> bytes" where
  "rr_bytes x = (case x of (ptr, mid, r) \<Rightarrow>
     [0xC0, ptr] @ be_bytes16 (rr_type r) @ mid @ to_be 2 (length (rr_data r)) @ rr_data r)"

definition valid_rr_entry :: "byte \<times> bytes \<times> rr \<Rightarrow> bool" where
  "valid_rr_entry x = (case x of (ptr, mid, r) \<Rightarrow> length mid = 6 \<and> valid_rr r \<and> length (rr_data r) < 65536)"

fun first_ech :: "(byte \<times> bytes \<times> rr) list \<Rightarrow> bytes option" where
  "first_ech [] = None"
| "first_ech ((ptr, mid, r) # rs) = (case rr_ech r of Some e \<Rightarrow> Some e | None \<Rightarrow> first_ech rs)"

lemma parse_svcparams_written:
  assumes "valid_rr (HttpsRecord prio target ps)" "length pre = p"
  shows "parse_svcparams_ech (pre @ rr_data (HttpsRecord prio target ps) @ rest) p (length (rr_data (HttpsRecord prio target ps))) =
    Ok (rr_ech (HttpsRecord prio target ps))"
proof -
  let ?m = "pre @ rr_data (HttpsRecord prio target ps) @ rest"
  have m1: "?m = (pre @ prio) @ name_bytes target @ svc_bytes ps @ rest" by simp
  have m2: "?m = (pre @ prio @ name_bytes target) @ svc_bytes ps @ rest" by simp
  have skip: "skip_name ?m (p + 2) = Some (p + 2 + length (name_bytes target))"
    unfolding m1 using assms by (intro skip_name_labels) simp_all
  have "svcparams_loop ?m (p + 2 + length (name_bytes target) + length (svc_bytes ps)) (p + 2 + length (name_bytes target)) =
      Ok (rr_ech (HttpsRecord prio target ps))"
    unfolding m2 using svcparams_loop_written [of ps "pre @ prio @ name_bytes target" rest] assms by (simp add: add.assoc)
  moreover have "p + length (rr_data (HttpsRecord prio target ps)) = p + 2 + length (name_bytes target) + length (svc_bytes ps)"
    using assms by simp
  ultimately show ?thesis
    unfolding parse_svcparams_ech_def Let_def skip by (simp add: add.assoc)
qed

lemma answers_ech_written:
  assumes "list_all valid_rr_entry rs" "length pre = p"
  shows "answers_ech (length rs) (pre @ concat (map rr_bytes rs) @ rest) p = Ok (first_ech rs)"
  using assms
proof (induction rs arbitrary: pre p)
  case (Cons x rs)
  obtain ptr mid r where x: "x = (ptr, mid, r)" by (cases x)
  have ok: "length mid = 6" "valid_rr r" "length (rr_data r) < 65536"
    using Cons.prems by (auto simp: x valid_rr_entry_def)
  let ?d = "rr_data r"
  let ?w = "word_of_nat (length ?d) :: u16"
  have w: "unat ?w = length ?d" using ok(3) by (intro unat_word_of_nat_small) simp
  let ?m = "pre @ concat (map rr_bytes (x # rs)) @ rest"
  let ?tail = "concat (map rr_bytes rs) @ rest"
  have rb: "rr_bytes x = [0xC0, ptr] @ be_bytes16 (rr_type r) @ mid @ be_bytes16 ?w @ ?d"
    by (simp add: rr_bytes_def x to_be_16 [OF ok(3)])
  have m0: "?m = pre @ 0xC0 # ptr # be_bytes16 (rr_type r) @ mid @ be_bytes16 ?w @ ?d @ ?tail" by (simp add: rb)
  have m1: "?m = (pre @ [0xC0, ptr]) @ be_bytes16 (rr_type r) @ mid @ be_bytes16 ?w @ ?d @ ?tail" by (simp add: rb)
  have m2: "?m = (pre @ [0xC0, ptr] @ be_bytes16 (rr_type r) @ mid) @ be_bytes16 ?w @ ?d @ ?tail" by (simp add: rb)
  have m3: "?m = (pre @ [0xC0, ptr] @ be_bytes16 (rr_type r) @ mid @ be_bytes16 ?w) @ ?d @ ?tail" by (simp add: rb)
  have m4: "?m = (pre @ rr_bytes x) @ ?tail" by simp
  have skip: "skip_name ?m p = Some (p + 2)"
    unfolding m0 using Cons.prems(2) by (rule skip_name_pointer)
  have L: "length ?m = p + 12 + length ?d + length ?tail" using Cons.prems(2) ok(1) by (simp add: rb)
  have t: "from_be16 (?m ! (p + 2)) (?m ! (p + 2 + 1)) = rr_type r"
    unfolding m1 by (rule field16) (simp add: Cons.prems(2))
  have n: "from_be16 (?m ! (p + 2 + 8)) (?m ! (p + 2 + 8 + 1)) = ?w"
    unfolding m2 by (rule field16) (simp add: Cons.prems(2) ok(1))
  have i: "idx ?m (p + 2) = Ok (?m ! (p + 2))" "idx ?m (p + 2 + 1) = Ok (?m ! (p + 2 + 1))"
    "idx ?m (p + 2 + 8) = Ok (?m ! (p + 2 + 8))" "idx ?m (p + 2 + 9) = Ok (?m ! (p + 2 + 8 + 1))"
    unfolding idx_def L by (simp_all add: numeral_eq_Suc)
  have svc: "(if rr_type r = RR_HTTPS then parse_svcparams_ech ?m (p + 2 + 10) (length ?d) else Ok None) = Ok (rr_ech r)"
  proof (cases r)
    case (HttpsRecord prio target ps)
    then show ?thesis
      using parse_svcparams_written [of prio target ps "pre @ [0xC0, ptr] @ be_bytes16 (rr_type r) @ mid @ be_bytes16 ?w" "p + 2 + 10" ?tail]
        ok Cons.prems(2) unfolding m3 by simp
  qed (use ok in simp)
  have rec: "answers_ech (length rs) ?m (p + 2 + 10 + length ?d) = Ok (first_ech rs)"
    unfolding m4 using Cons.prems ok(1) by (intro Cons.IH) (simp_all add: rb)
  show ?case
    unfolding list.size answers_ech.simps add_0_right add_Suc_right option.case skip L i rbind.simps Let_def t n w svc rec
    by (cases "rr_ech r") (simp_all add: x)
qed simp


text \<open>The reply a server writes: the query's identifier and question, then the records.\<close>

definition ech_reply :: "u16 \<Rightarrow> bytes \<Rightarrow> str \<Rightarrow> (byte \<times> bytes \<times> rr) list \<Rightarrow> bytes" where
  "ech_reply ident flags name rs =
     be_bytes16 ident @ flags @ [0, 1] @ to_be 2 (length rs) @ [0, 0, 0, 0] @
     name_bytes (query_labels name) @ be_bytes16 RR_HTTPS @ [0, 1] @ concat (map rr_bytes rs)"

definition written_reply :: "bytes \<Rightarrow> str \<Rightarrow> (byte \<times> bytes \<times> rr) list \<Rightarrow> bool" where
  "written_reply flags name rs \<longleftrightarrow> length flags = 2 \<and> hd flags AND 0x80 \<noteq> 0 \<and>
     list_all valid_label (query_labels name) \<and> list_all valid_rr_entry rs \<and> length rs < 65536"

lemma same_labels_refl: "same_labels ls ls"
  by (simp add: list_all2_refl eq_ignore_ascii_case_def)

lemma ech_reply_answers:
  assumes "written_reply flags name rs"
  shows "answers_query (ech_reply ident flags name rs) ident name RR_HTTPS"
proof -
  have f: "length flags = 2" "hd flags AND 0x80 \<noteq> 0" using assms by (auto simp: written_reply_def)
  then obtain f0 f1 where fl: "flags = [f0, f1]" by (auto simp: length_Suc_conv numeral_2_eq_2)
  obtain a b where ab: "be_bytes16 ident = [a, b]" by (rule be_bytes16_cases)
  have "list_all (\<lambda>l. length l < 256) (query_labels name)"
    using assms by (auto simp: written_reply_def list_all_iff valid_label_def)
  with f show ?thesis
    unfolding answers_query_def ech_reply_def name_bytes_enc
    by - (rule exI [of _ "be_bytes16 ident @ flags @ [0, 1] @ to_be 2 (length rs) @ [0, 0, 0, 0]"],
      rule exI [of _ "query_labels name"], rule exI [of _ "[0, 1] @ concat (map rr_bytes rs)"],
      simp add: same_labels_refl fl ab sub_def del: to_be.simps)
qed

lemma parse_ech_reply:
  assumes "written_reply flags name rs" "length (ech_reply ident flags name rs) < usize_bound"
  shows "parse_https_ech (ech_reply ident flags name rs) = Ok (first_ech rs)"
proof -
  have f: "length flags = 2" and ok: "list_all valid_label (query_labels name)" "list_all valid_rr_entry rs" "length rs < 65536"
    using assms by (auto simp: written_reply_def)
  let ?w = "word_of_nat (length rs) :: u16"
  have w: "unat ?w = length rs" using ok(3) by (intro unat_word_of_nat_small) simp
  let ?m = "ech_reply ident flags name rs"
  let ?hdr = "be_bytes16 ident @ flags @ [0, 1] @ be_bytes16 ?w @ [0, 0, 0, 0]"
  let ?q = "name_bytes (query_labels name)"
  have m1: "?m = (be_bytes16 ident @ flags) @ be_bytes16 1 @ (be_bytes16 ?w @ [0, 0, 0, 0] @ ?q @ be_bytes16 RR_HTTPS @ [0, 1] @ concat (map rr_bytes rs))"
    unfolding ech_reply_def to_be_16 [OF ok(3)] be_bytes16_1 by simp
  have m2: "?m = (be_bytes16 ident @ flags @ be_bytes16 1) @ be_bytes16 ?w @ ([0, 0, 0, 0] @ ?q @ be_bytes16 RR_HTTPS @ [0, 1] @ concat (map rr_bytes rs))"
    unfolding m1 by simp
  have m3: "?m = ?hdr @ ?q @ (be_bytes16 RR_HTTPS @ [0, 1] @ concat (map rr_bytes rs))"
    unfolding m1 be_bytes16_1 by simp
  have m4: "?m = (?hdr @ ?q @ be_bytes16 RR_HTTPS @ [0, 1]) @ concat (map rr_bytes rs) @ []"
    unfolding m3 by simp
  have qd: "from_be16 (?m ! 4) (?m ! (4 + 1)) = 1"
    unfolding m1 by (rule field16) (simp add: f)
  have an: "from_be16 (?m ! 6) (?m ! (6 + 1)) = ?w"
    unfolding m2 by (rule field16) (simp add: f)
  have L: "12 + length ?q + 4 \<le> length ?m" by (simp add: m3 f)
  have i: "idx ?m 4 = Ok (?m ! 4)" "idx ?m 5 = Ok (?m ! (4 + 1))" "idx ?m 6 = Ok (?m ! 6)" "idx ?m 7 = Ok (?m ! (6 + 1))"
    using L by (simp_all add: idx_def)
  have "skip_name ?m 12 = Some (12 + length ?q)"
    unfolding m3 using ok(1) by (rule skip_name_labels) (simp add: f)
  then have sq: "skip_questions (unat (1 :: u16)) ?m 12 = Some (12 + length ?q + 4)"
    using L assms(2) by (simp add: checked_add_def)
  have "answers_ech (length rs) ?m (12 + length ?q + 4) = Ok (first_ech rs)"
    unfolding m4 using ok(2) by (rule answers_ech_written) (simp add: f)
  then show ?thesis
    unfolding parse_https_ech_def i rbind.simps qd an w sq using L by simp
qed

definition ech_result :: "str \<Rightarrow> bytes option \<Rightarrow> bytes aresult" where
  "ech_result domain r =
     (if r = None \<or> r = Some [] then Err (Ech (domain @ lit '' has no HTTPS record with an ech parameter''))
      else Ok (the r))"

lemma answer_ech_reply:
  assumes "written_reply flags name rs" "length (ech_reply ident flags name rs) < usize_bound"
  shows "answer_ech (ech_reply ident flags name rs) domain = ech_result domain (first_ech rs)"
  unfolding answer_ech_def parse_ech_reply [OF assms] by (auto simp: ech_result_def split: option.splits)

lemma check_ech_reply:
  assumes "written_reply flags name rs" "length (ech_reply ident flags name rs) < usize_bound"
  shows "check_reply ident name (ech_reply ident flags name rs) = ech_result name (first_ech rs)"
  unfolding check_reply_def response_matches_iff [OF assms(2)]
  using ech_reply_answers [OF assms(1)] answer_ech_reply [OF assms] by simp

lemma query_udp_skips:
  assumes "list_all (\<lambda>d. \<not> answers_query (take 4096 d) ident name RR_HTTPS) noise"
  shows "query_udp ident name (noise @ ds) = query_udp ident name ds"
  using assms
proof (induction noise)
  case (Cons d noise)
  have "length (take 4096 d) < usize_bound" by simp
  from response_matches_iff [OF this, of ident name RR_HTTPS] Cons show ?case by simp
qed simp

text \<open>C20. The lookup finds the ECHConfigList.  Over UDP, whatever datagrams arrive before it that
  do not answer the query, the server's reply gives the \<open>ech\<close> parameter of the first HTTPS
  record that has one, wherever it stands among other records and other parameters; over TCP
  the framed reply gives the same.  A reply without a (non-empty) parameter gives the error
  that says so.\<close>

theorem ech_lookup_finds:
  assumes "written_reply flags name rs" "length (ech_reply ident flags name rs) \<le> 4096"
    and "list_all (\<lambda>d. \<not> answers_query (take 4096 d) ident name RR_HTTPS) noise"
  shows "query_udp ident name (noise @ ech_reply ident flags name rs # later) = Some (ech_result name (first_ech rs)) \<and>
    query_tcp ident name (tcp_message (ech_reply ident flags name rs) @ trailing) = ech_result name (first_ech rs)"
proof -
  let ?r = "ech_reply ident flags name rs"
  have b: "length ?r < usize_bound" using assms(2) by simp
  have "query_udp ident name (?r # later) = Some (ech_result name (first_ech rs))"
    using response_matches_iff [OF b, of ident name RR_HTTPS] ech_reply_answers [OF assms(1)]
      answer_ech_reply [OF assms(1) b] assms(2) by simp
  moreover have "query_tcp ident name (tcp_message ?r @ trailing) = ech_result name (first_ech rs)"
  proof -
    let ?w = "word_of_nat (length ?r) :: u16"
    have l: "length ?r < 65536" using assms(2) by simp
    then have w: "unat ?w = length ?r" by (intro unat_word_of_nat_small) simp
    obtain a b' where ab: "be_bytes16 ?w = [a, b']" "from_be16 a b' = ?w" by (rule be_bytes16_cases)
    have "tcp_message ?r = [a, b'] @ ?r"
      unfolding tcp_message_def using l to_be_16 [OF l] ab by simp
    then show ?thesis
      unfolding query_tcp_def using ab w check_ech_reply [OF assms(1) b] by (simp add: Let_def del: unat_from_be16)
  qed
  ultimately show ?thesis using query_udp_skips [OF assms(3)] by simp
qed


theorem ech_lookup_finds_witness:
  "query_udp 0x1234 (lit ''a.io'') ([[1, 2, 3]] @ ech_reply 0x1234 [0x81, 0x80] (lit ''a.io'')
      [(12, [0, 1, 0, 0, 0, 60], OtherRecord 5 [0]),
       (12, [0, 1, 0, 0, 0, 60], HttpsRecord [0, 1] [] [(1, [2, 104, 50]), (5, [0xAB, 0xCD])])] # []) = Some (Ok [0xAB, 0xCD])"
proof -
  let ?rs = "[(12, [0, 1, 0, 0, 0, 60], OtherRecord 5 [0]),
       (12, [0, 1, 0, 0, 0, 60], HttpsRecord [0, 1] [] [(1, [2, 104, 50]), (5, [0xAB, 0xCD])])] :: (byte \<times> bytes \<times> rr) list"
  have q: "query_labels (lit ''a.io'') = [lit ''a'', lit ''io'']" by code_simp
  have w: "written_reply [0x81, 0x80] (lit ''a.io'') ?rs"
    unfolding written_reply_def q
    by (simp add: valid_label_def valid_rr_entry_def name_bytes_def RR_HTTPS_def)
  have l: "length (ech_reply 0x1234 [0x81, 0x80] (lit ''a.io'') ?rs) \<le> 4096"
    unfolding ech_reply_def q by (simp add: name_bytes_def rr_bytes_def)
  have n: "list_all (\<lambda>d. \<not> answers_query (take 4096 d) 0x1234 (lit ''a.io'') RR_HTTPS) [[1, 2, 3]]"
    by (auto simp: answers_query_def dest!: arg_cong [of _ _ length])
  have "first_ech ?rs = Some [0xAB, 0xCD]" by (simp add: SVCPARAM_ECH_def)
  with ech_lookup_finds [OF w l n, of "[]"] show ?thesis
    by (simp add: ech_result_def)
qed


lemma query_labels_dot: "query_labels (name @ [46]) = query_labels name"
  using split_pred_append_sep [of "\<lambda>x. x = 46" 46 name "[]"] by (simp add: query_labels_def split_on_def)

lemma valid_domain_labels:
  assumes "valid_domain name"
  shows "list_all valid_label (query_labels name)"
proof -
  obtain n where n: "list_all label_ok (split_on 46 n)" "query_labels name = query_labels n"
  proof (cases "ends_with name [46]")
    case True
    then have "name = take (length name - 1) name @ [46]"
      using append_take_drop_id [of "length name - 1" name] by (simp add: ends_with_def)
    then obtain n where "name = n @ [46]" by blast
    with that [of n] assms show thesis
      by (simp add: valid_domain_def strip_suffix_def ends_with_def query_labels_dot)
  next
    case False
    with that [of name] assms show thesis by (simp add: valid_domain_def strip_suffix_def)
  qed
  then show ?thesis
    by (auto simp: query_labels_def list_all_iff label_ok_def valid_label_def)
qed

lemma build_query_bytes: "fst (build_query ident name qtype) =
    be_bytes16 ident @ [1, 0, 0, 1, 0, 0, 0, 0, 0, 0] @ name_bytes (query_labels name) @ be_bytes16 qtype @ [0, 1]"
  by (simp add: build_query_def name_bytes_def)

text \<open>Query and check agree: for every valid domain the query that is sent is well formed (its
  name field is skipped exactly, and every label is within its limit), and a server that
  sends the question back with the response bit set, whatever it appends, passes the check.\<close>

lemma query_echo_accepted:
  assumes "valid_domain name" "length (fst (build_query ident name qtype)) + length answers < usize_bound"
  shows "skip_name (fst (build_query ident name qtype)) 12 = Some (length (fst (build_query ident name qtype)) - 4) \<and>
    response_matches ((fst (build_query ident name qtype))[2 := 0x81] @ answers) ident name qtype = Ok True"
proof
  let ?q = "fst (build_query ident name qtype)"
  let ?hdr = "be_bytes16 ident @ [1, 0, 0, 1, 0, 0, 0, 0, 0, 0]"
  have "?q = ?hdr @ name_bytes (query_labels name) @ (be_bytes16 qtype @ [0, 1])"
    by (simp add: build_query_bytes)
  then show "skip_name ?q 12 = Some (length ?q - 4)"
    using skip_name_labels [OF valid_domain_labels [OF assms(1)], of ?hdr 12 "be_bytes16 qtype @ [0, 1]"] by simp
  obtain a b where ab: "be_bytes16 ident = [a, b]" by (rule be_bytes16_cases)
  have "?q[2 := 0x81] @ answers =
      [a, b, 0x81, 0, 0, 1, 0, 0, 0, 0, 0, 0] @ enc_labels (query_labels name) @ [0] @ be_bytes16 qtype @ ([0, 1] @ answers)"
    by (simp add: build_query_bytes ab name_bytes_enc numeral_2_eq_2)
  moreover have "list_all (\<lambda>l. length l < 256) (query_labels name)"
    using valid_domain_labels [OF assms(1)] by (auto simp: list_all_iff valid_label_def)
  ultimately have "answers_query (?q[2 := 0x81] @ answers) ident name qtype"
    unfolding answers_query_def
    by - (rule exI [of _ "[a, b, 0x81, 0, 0, 1, 0, 0, 0, 0, 0, 0]"], rule exI [of _ "query_labels name"],
      rule exI [of _ "[0, 1] @ answers"], simp add: ab sub_def same_labels_refl)
  then show "response_matches (?q[2 := 0x81] @ answers) ident name qtype = Ok True"
    using response_matches_iff [of "?q[2 := 0x81] @ answers" ident name qtype] assms(2) by simp
qed

end
