(* ===== verification/Tls_Ech.thy ===== *)
theory Tls_Ech
  imports Https Dns
begin

text \<open>
  The Encrypted Client Hello of \<open>tls.rs\<close>, and the handshake loop of \<open>https.rs\<close> that offers it:
  the check that a key list is one BoringSSL offers (\<open>check_ech_config_list\<close>), the key an option
  asks for (\<open>ech_key\<close>), the key the sessions of the process share (\<open>EchSession\<close>,
  \<open>adopt_ech_retry\<close>), the one retry of \<open>exchange\<close>, and the wire form of the trust anchor option.
  The base64 decoder, BoringSSL's handshake and the Debug form of a string are parameters.
\<close>

unbundle bit_operations_syntax

section \<open>Reading fields\<close>

definition fld_take :: "nat \<Rightarrow> bytes \<Rightarrow> (bytes \<times> bytes) option" where
  "fld_take n s = (if length s < n then None else Some (take n s, drop n s))"

definition fld_u8 :: "bytes \<Rightarrow> (byte \<times> bytes) option" where
  "fld_u8 s = (case fld_take 1 s of None \<Rightarrow> None | Some (b, r) \<Rightarrow> Some (b ! 0, r))"

definition fld_u16 :: "bytes \<Rightarrow> (u16 \<times> bytes) option" where
  "fld_u16 s = (case fld_take 2 s of None \<Rightarrow> None | Some (b, r) \<Rightarrow> Some (from_be16 (b ! 0) (b ! 1), r))"

definition fld_u8_prefixed :: "bytes \<Rightarrow> (bytes \<times> bytes) option" where
  "fld_u8_prefixed s = (case fld_u8 s of None \<Rightarrow> None | Some (n, r) \<Rightarrow> fld_take (unat n) r)"

definition fld_u16_prefixed :: "bytes \<Rightarrow> (bytes \<times> bytes) option" where
  "fld_u16_prefixed s = (case fld_u16 s of None \<Rightarrow> None | Some (n, r) \<Rightarrow> fld_take (unat n) r)"

section \<open>The key list\<close>

definition ECH_CONFIG_VERSION :: u16 where "ECH_CONFIG_VERSION = 0xfe0d"
definition HPKE_DHKEM_X25519_HKDF_SHA256 :: u16 where "HPKE_DHKEM_X25519_HKDF_SHA256 = 0x0020"
definition HPKE_HKDF_SHA256 :: u16 where "HPKE_HKDF_SHA256 = 0x0001"
definition HPKE_AEADS :: "u16 list" where "HPKE_AEADS = [0x0001, 0x0002, 0x0003]"
definition X25519_PUBLIC_KEY_LEN :: nat where "X25519_PUBLIC_KEY_LEN = 32"

definition is_ascii_hexdigit :: "byte \<Rightarrow> bool" where
  "is_ascii_hexdigit b \<longleftrightarrow> hex_digit_value b \<noteq> None"

definition ldh_label :: "bytes \<Rightarrow> bool" where
  "ldh_label label \<longleftrightarrow> \<not> (label = [] \<or> length label > 63 \<or> hd label = 45 \<or> last label = 45 \<or>
     \<not> list_all (\<lambda>b. is_ascii_alphanumeric b \<or> b = 45) label)"

definition valid_public_name :: "bytes \<Rightarrow> bool" where
  "valid_public_name name =
     (let labels = split_on 46 name; final = last labels;
          decimal = list_all is_ascii_digit final;
          hex = (2 \<le> length final \<and> final ! 0 = 48 \<and> (final ! 1 = 120 \<or> final ! 1 = 88) \<and>
                 list_all is_ascii_hexdigit (drop 2 final))
      in list_all ldh_label labels \<and> \<not> decimal \<and> \<not> hex)"

lemma fld_take_shorter: "fld_take n s = Some (b, r) \<Longrightarrow> length b = n \<and> s = b @ r"
  by (auto simp: fld_take_def split: if_splits)

lemma fld_u16_shorter: "fld_u16 s = Some (w, r) \<Longrightarrow> length r + 2 = length s"
  by (auto simp: fld_u16_def split: option.splits dest!: fld_take_shorter)

lemma fld_u16_prefixed_shorter: "fld_u16_prefixed s = Some (b, r) \<Longrightarrow> length r + 2 \<le> length s"
  by (auto simp: fld_u16_prefixed_def split: option.splits dest!: fld_take_shorter fld_u16_shorter)

text \<open>The loops over the extensions, whether one of them is mandatory, and over the cipher
  suites, whether one of them is offered.\<close>

function extensions_loop :: "bytes \<Rightarrow> bool \<Rightarrow> bool option" where
  "extensions_loop s mandatory =
     (if s = [] then Some mandatory
      else (case fld_u16 s of None \<Rightarrow> None | Some (kind, s1) \<Rightarrow>
        (case fld_u16_prefixed s1 of None \<Rightarrow> None | Some (_, s2) \<Rightarrow>
           extensions_loop s2 (mandatory \<or> kind AND 0x8000 \<noteq> 0))))"
  by pat_completeness auto
termination
  by (relation "measure (\<lambda>(s, m). length s)") (auto dest!: fld_u16_shorter fld_u16_prefixed_shorter)

function suites_loop :: "bytes \<Rightarrow> bool \<Rightarrow> bool option" where
  "suites_loop s found =
     (if s = [] then Some found
      else (case fld_u16 s of None \<Rightarrow> None | Some (kdf, s1) \<Rightarrow>
        (case fld_u16 s1 of None \<Rightarrow> None | Some (aead, s2) \<Rightarrow>
           suites_loop s2 (found \<or> kdf = HPKE_HKDF_SHA256 \<and> aead \<in> set HPKE_AEADS))))"
  by pat_completeness auto
termination
  by (relation "measure (\<lambda>(s, m). length s)") (auto dest!: fld_u16_shorter)

declare extensions_loop.simps [simp del] suites_loop.simps [simp del]

text \<open>The contents of a config of the version offered: \<open>None\<close> when they do not parse, the key
  when the config is offered.\<close>

definition ech_contents :: "bytes \<Rightarrow> bytes option option" where
  "ech_contents c0 =
     (case fld_u8 c0 of None \<Rightarrow> None | Some (_, c1) \<Rightarrow>
      (case fld_u16 c1 of None \<Rightarrow> None | Some (kem_id, c2) \<Rightarrow>
       (case fld_u16_prefixed c2 of None \<Rightarrow> None | Some (public_key, c3) \<Rightarrow>
        (case fld_u16_prefixed c3 of None \<Rightarrow> None | Some (cipher_suites, c4) \<Rightarrow>
         (case fld_u8 c4 of None \<Rightarrow> None | Some (_, c5) \<Rightarrow>
          (case fld_u8_prefixed c5 of None \<Rightarrow> None | Some (public_name, c6) \<Rightarrow>
           (case fld_u16_prefixed c6 of None \<Rightarrow> None | Some (extensions, c7) \<Rightarrow>
              if public_key = [] \<or> cipher_suites = [] \<or> length cipher_suites mod 4 \<noteq> 0 \<or> public_name = [] \<or> c7 \<noteq> []
              then None
              else if \<not> valid_public_name public_name then Some None
              else (case extensions_loop extensions False of None \<Rightarrow> None | Some mandatory_extension \<Rightarrow>
                (case suites_loop cipher_suites False of None \<Rightarrow> None | Some cipher_suite \<Rightarrow>
                   Some (if \<not> mandatory_extension \<and> kem_id = HPKE_DHKEM_X25519_HKDF_SHA256 \<and> cipher_suite
                         then Some public_key else None))))))))))"

definition ech_config :: "bytes \<Rightarrow> (bytes option \<times> bytes) option" where
  "ech_config configs =
     (case fld_u16 configs of None \<Rightarrow> None | Some (version, r1) \<Rightarrow>
      (case fld_u16_prefixed r1 of None \<Rightarrow> None | Some (contents, rest) \<Rightarrow>
         if version \<noteq> ECH_CONFIG_VERSION then Some (None, rest)
         else map_option (\<lambda>r. (r, rest)) (ech_contents contents)))"

lemma ech_config_shorter: "ech_config s = Some (k, r) \<Longrightarrow> length r < length s"
  by (auto simp: ech_config_def split: option.splits if_splits dest!: fld_u16_shorter fld_u16_prefixed_shorter)

definition no_list :: str where "no_list = lit ''it is no ECHConfigList''"
definition bad_key_length :: str where
  "bad_key_length = lit ''the X25519 key of its config is not 32 bytes long''"
definition none_offered :: str where
  "none_offered = lit ''it holds no config BoringSSL offers: ECH version 0xfe0d, X25519, and HKDF-SHA256 with AES-GCM or ChaCha20-Poly1305''"

function configs_loop :: "bytes \<Rightarrow> bytes option \<Rightarrow> (bytes option, str) res" where
  "configs_loop configs picked =
     (if configs = [] then Ok picked
      else (case ech_config configs of
              None \<Rightarrow> Err no_list
            | Some (config, rest) \<Rightarrow> configs_loop rest (case picked of None \<Rightarrow> config | Some k \<Rightarrow> Some k)))"
  by pat_completeness auto
termination
  by (relation "measure (\<lambda>(s, m). length s)") (auto dest!: ech_config_shorter)

declare configs_loop.simps [simp del]

definition check_ech_config_list :: "bytes \<Rightarrow> (unit, str) res" where
  "check_ech_config_list xs =
     (case fld_u16_prefixed xs of
        None \<Rightarrow> Err no_list
      | Some (configs, rest) \<Rightarrow>
          if configs = [] \<or> rest \<noteq> [] then Err no_list
          else rbind (configs_loop configs None) (\<lambda>picked.
            case picked of
              Some key \<Rightarrow> if length key = X25519_PUBLIC_KEY_LEN then Ok () else Err bad_key_length
            | None \<Rightarrow> Err none_offered))"

definition ensure_offerable :: "bytes \<Rightarrow> unit aresult" where
  "ensure_offerable xs =
     map_err (\<lambda>reason. aether_error.Ech (lit ''the ECH key cannot be offered: '' @ reason)) (check_ech_config_list xs)"

definition usable_retry :: "bytes \<Rightarrow> bytes option" where
  "usable_retry retry = (case check_ech_config_list retry of Ok _ \<Rightarrow> Some retry | _ \<Rightarrow> None)"


section \<open>The key an option asks for\<close>

definition NO_ECH_KEY :: str where "NO_ECH_KEY = lit ''ECH is on but there is no ECH key to offer''"

record ech_option =
  eo_flag :: str
  eo_variable :: str
  eo_purpose :: str
  eo_refusal :: str

definition SESSION_ECH_OPTION :: ech_option where
  "SESSION_ECH_OPTION = \<lparr>eo_flag = lit ''--ech'', eo_variable = lit ''AETHER_ECH'', eo_purpose = [],
     eo_refusal = lit ''stopping rather than send the server name in the clear''\<rparr>"

definition API_ECH_OPTION :: ech_option where
  "API_ECH_OPTION = \<lparr>eo_flag = lit ''--ech'', eo_variable = lit ''AETHER_ECH'', eo_purpose = lit '' for the WARP API'',
     eo_refusal = lit ''not asking it rather than send its name in the clear''\<rparr>"

definition decode_ech_config_list :: "(str \<Rightarrow> (bytes, str) res) \<Rightarrow> str \<Rightarrow> bytes aresult" where
  "decode_ech_config_list base64 b64 = map_err (\<lambda>e. aether_error.Ech (lit ''not base64: '' @ e)) (base64 (trim b64))"

definition ech_reason :: "aether_error \<Rightarrow> str" where
  "ech_reason e = (case e of aether_error.Ech reason \<Rightarrow> reason | other \<Rightarrow> error_to_string other)"

definition ech_key :: "(str \<Rightarrow> (bytes, str) res) \<Rightarrow> ech_option \<Rightarrow> str option \<Rightarrow> bytes aresult \<Rightarrow> bytes option aresult" where
  "ech_key base64 opt setting fetch =
     (let settle = (\<lambda>key. (case rbind key (\<lambda>key. rbind (ensure_offerable key) (\<lambda>_. Ok key)) of
            Ok key \<Rightarrow> Ok (Some key)
          | Err e \<Rightarrow> Err (aether_error.Ech (NO_ECH_KEY @ eo_purpose opt @ lit '' ('' @ ech_reason e @ lit ''); '' @ eo_refusal opt))
          | Panic \<Rightarrow> Panic))
      in case setting of
           None \<Rightarrow> Ok None
         | Some v \<Rightarrow>
             if eq_ignore_ascii_case (trim v) (lit ''auto'') then settle fetch
             else if v \<noteq> [] then
               settle (map_err (\<lambda>e. case e of
                   aether_error.Ech reason \<Rightarrow> aether_error.Ech (lit ''the '' @ eo_flag opt @ lit '' value is '' @ reason)
                 | other \<Rightarrow> other) (decode_ech_config_list base64 v))
             else Ok None)"

section \<open>The key the sessions share\<close>

record ech_state =
  session_key :: "bytes option"
  sessions :: nat

definition ech_initial :: ech_state where
  "ech_initial = \<lparr>session_key = None, sessions = 0\<rparr>"

definition use_ech :: "bytes option \<Rightarrow> ech_state \<Rightarrow> ech_state" where
  "use_ech ech s = s\<lparr>session_key := ech\<rparr>"

definition session_start :: "bytes option \<Rightarrow> ech_state \<Rightarrow> ech_state" where
  "session_start ech s0 =
     (let s = s0\<lparr>sessions := sessions s0 + 1\<rparr>
      in if ech \<noteq> None \<or> sessions s = 1 then use_ech ech s else s)"

definition session_drop :: "ech_state \<Rightarrow> ech_state" where
  "session_drop s0 =
     (let s = s0\<lparr>sessions := sessions s0 - 1\<rparr>
      in if sessions s = 0 then use_ech None s else s)"

definition adopt_ech_retry :: "bytes \<Rightarrow> ech_state \<Rightarrow> ech_state" where
  "adopt_ech_retry retry s = (if session_key s \<noteq> None then s\<lparr>session_key := Some retry\<rparr> else s)"

text \<open>A session is dropped once it was started, so there is one to drop.\<close>

inductive ech_step :: "ech_state \<Rightarrow> ech_state \<Rightarrow> bool" where
  start: "ech_step s (session_start ech s)"
| drop: "0 < sessions s \<Longrightarrow> ech_step s (session_drop s)"
| adopt: "ech_step s (adopt_ech_retry retry s)"

inductive ech_reachable :: "ech_state \<Rightarrow> bool" where
  init: "ech_reachable ech_initial"
| step: "ech_reachable s \<Longrightarrow> ech_step s s' \<Longrightarrow> ech_reachable s'"

inductive_cases ech_stepE: "ech_step s s'"

section \<open>The handshake of a request\<close>

text \<open>How a handshake comes out: done, with ECH accepted or not and HTTP/2 picked or not, or
  failed with a message and the key the server handed back.\<close>

datatype handshake_outcome = Connected bool bool | Failed str "bytes option"

record tls_env =
  te_configuration :: "unit aresult"
  te_set_ech :: "bytes \<Rightarrow> unit aresult"
  te_dial :: "nat \<Rightarrow> unit aresult"
  te_connect :: "nat \<Rightarrow> bytes option \<Rightarrow> str \<Rightarrow> handshake_outcome"

definition retry_key :: "bytes option \<Rightarrow> bool \<Rightarrow> str \<Rightarrow> bytes option \<Rightarrow> bytes option" where
  "retry_key ech retried message handed =
     (case ech of
        Some _ \<Rightarrow>
          if \<not> retried \<and> contains message (lit ''ECH_REJECTED'')
          then (case handed of Some configs \<Rightarrow> if configs \<noteq> [] then usable_retry configs else None | None \<Rightarrow> None)
          else None
      | None \<Rightarrow> None)"

text \<open>The loop of \<open>exchange\<close>: the handshake with its number, and the key list as it is left in the
  caller's hands.\<close>

function handshake_loop :: "tls_env \<Rightarrow> str \<Rightarrow> str \<Rightarrow> nat \<Rightarrow> bool \<Rightarrow> bytes option \<Rightarrow> (nat \<times> bool \<times> bool) aresult \<times> bytes option" where
  "handshake_loop env sni peer n retried ech =
     (case rbind (te_configuration env) (\<lambda>_.
         rbind (case ech of None \<Rightarrow> Ok () | Some xs \<Rightarrow> rbind (ensure_offerable xs) (\<lambda>_. te_set_ech env xs)) (\<lambda>_.
           te_dial env n)) of
        Err e \<Rightarrow> (Err e, ech)
      | Panic \<Rightarrow> (Panic, ech)
      | Ok _ \<Rightarrow>
          (case te_connect env n ech sni of
             Connected accepted h2 \<Rightarrow> (Ok (n, accepted, h2), ech)
           | Failed message handed \<Rightarrow>
               (case retry_key ech retried message handed of
                  None \<Rightarrow> (Err (Tls (lit ''handshake with '' @ peer @ lit '': '' @ message)), ech)
                | Some retry \<Rightarrow> handshake_loop env sni peer (n + 1) True (Some retry))))"
  by pat_completeness auto
termination
  by (relation "measure (\<lambda>(env, sni, peer, n, retried, ech). if retried then 0 else 1)")
    (auto simp: retry_key_def split: option.splits if_splits)

declare handshake_loop.simps [simp del]

datatype carried = Http1 | Http2

definition exchange :: "tls_env \<Rightarrow> http_request \<Rightarrow> bytes option \<Rightarrow> (nat \<times> carried) aresult \<times> bytes option" where
  "exchange env request ech =
     (let (address, port) = (case rq_address request of Some a \<Rightarrow> a | None \<Rightarrow> (rq_host request, rq_port request));
          sni = (case rq_sni request of Some name \<Rightarrow> name | None \<Rightarrow> rq_host request);
          (outcome, ech') = handshake_loop env sni (authority address port) 1 False ech
      in (rbind outcome (\<lambda>(n, accepted, h2).
            if ech' \<noteq> None \<and> \<not> accepted then Err (aether_error.Ech (lit ''the handshake went without ECH''))
            else Ok (n, if h2 then Http2 else Http1)), ech'))"

section \<open>Options in wire form\<close>

fun base128_rest :: "nat \<Rightarrow> bytes" where
  "base128_rest v = (if v > 0 then (0x80 OR word_of_nat (v mod 128)) # base128_rest (v div 128) else [])"

declare base128_rest.simps [simp del]

definition base128 :: "nat \<Rightarrow> bytes" where
  "base128 v = rev (word_of_nat (v mod 128) # base128_rest (v div 128))"

definition arc_value :: "str \<Rightarrow> nat option" where
  "arc_value arc =
     (if arc = [] \<or> \<not> list_all is_ascii_digit arc \<or> 1 < length arc \<and> hd arc = 48 then None
      else parse_u64 arc)"

fun encode_arcs :: "str list \<Rightarrow> bytes option" where
  "encode_arcs [] = Some []"
| "encode_arcs (arc # arcs) =
     (case arc_value arc of None \<Rightarrow> None
      | Some v \<Rightarrow> map_option (\<lambda>r. base128 v @ r) (encode_arcs arcs))"

definition bad_anchor :: "(str \<Rightarrow> str) \<Rightarrow> str \<Rightarrow> aether_error" where
  "bad_anchor debug ident = Tls (debug ident @ lit '' is no trust anchor ID (a relative OID in dotted decimal, such as 11129.9.1)'')"

fun trust_anchor_loop :: "(str \<Rightarrow> str) \<Rightarrow> str list \<Rightarrow> bytes aresult" where
  "trust_anchor_loop debug [] = Ok []"
| "trust_anchor_loop debug (ident # rest) =
     (case encode_arcs (split_on 46 ident) of
        None \<Rightarrow> Err (bad_anchor debug ident)
      | Some encoded \<Rightarrow>
          if 255 < length encoded then Err (bad_anchor debug ident)
          else rbind (trust_anchor_loop debug rest) (\<lambda>wire. Ok (word_of_nat (length encoded) # encoded @ wire)))"

definition trust_anchor_ids :: "(str \<Rightarrow> str) \<Rightarrow> str \<Rightarrow> bytes aresult" where
  "trust_anchor_ids debug xs = trust_anchor_loop debug (split_on 58 xs)"

function alpn_loop :: "bytes \<Rightarrow> nat \<Rightarrow> bytes list" where
  "alpn_loop alpn at =
     (if at < length alpn then
        (let stop = min (at + 1 + unat (alpn ! at)) (length alpn)
         in sub alpn (at + 1) stop # alpn_loop alpn stop)
      else [])"
  by pat_completeness auto
termination
  by (relation "measure (\<lambda>(alpn, at). length alpn - at)") auto

declare alpn_loop.simps [simp del]

definition alpn_protocols :: "bytes \<Rightarrow> bytes list" where
  "alpn_protocols alpn = alpn_loop alpn 0"

definition ALPS_PROTOCOLS :: "bytes list" where
  "ALPS_PROTOCOLS = [lit ''h2'', lit ''h3'']"

definition alps_new_codepoint :: "(str \<Rightarrow> str) \<Rightarrow> str \<Rightarrow> bool aresult" where
  "alps_new_codepoint debug codepoint =
     (if codepoint = lit ''new'' then Ok True
      else if codepoint = lit ''old'' then Ok False
      else Err (Tls (debug codepoint @ lit '' is no ALPS codepoint: new (0x44cd, Chrome'' @ [39] @ lit ''s now) or old (0x4469, Chrome 120'' @ [39] @ lit ''s)'')))"

definition server_padding :: "(str \<Rightarrow> str) \<Rightarrow> str \<Rightarrow> u16 aresult" where
  "server_padding debug value =
     ok_or (Tls (debug value @ lit '' is no number of bytes from 0 to 65535'')) (parse_u16 value)"


section \<open>Nothing goes in the clear\<close>

lemma ensure_offerable_Ok: "ensure_offerable xs = Ok u \<longleftrightarrow> check_ech_config_list xs = Ok ()"
  by (simp add: ensure_offerable_def)

lemma usable_retry_Some: "usable_retry configs = Some retry \<Longrightarrow> retry = configs \<and> check_ech_config_list retry = Ok ()"
  by (auto simp: usable_retry_def split: res.splits)

lemma retry_key_Some: "retry_key ech retried message handed = Some retry \<Longrightarrow> ech \<noteq> None \<and> \<not> retried \<and> check_ech_config_list retry = Ok ()"
  by (auto simp: retry_key_def dest!: usable_retry_Some split: option.splits if_splits)

lemma handshake_loop_Ok:
  assumes "handshake_loop env sni peer n retried ech = (Ok (m, accepted, h2), ech')"
  shows "(ech' = None \<longleftrightarrow> ech = None) \<and> te_connect env m ech' sni = Connected accepted h2 \<and>
    (\<forall>xs. ech' = Some xs \<longrightarrow> check_ech_config_list xs = Ok ()) \<and> m \<le> n + (if retried then 0 else 1)"
  using assms
proof (induction env sni peer n retried ech rule: handshake_loop.induct)
  case (1 env sni peer n retried ech)
  let ?prep = "rbind (te_configuration env) (\<lambda>_.
         rbind (case ech of None \<Rightarrow> Ok () | Some xs \<Rightarrow> rbind (ensure_offerable xs) (\<lambda>_. te_set_ech env xs)) (\<lambda>_. te_dial env n))"
  from 1(2) have ok: "?prep = Ok ()"
    by (subst (asm) handshake_loop.simps) (auto split: res.splits)
  then have offer: "\<forall>xs. ech = Some xs \<longrightarrow> check_ech_config_list xs = Ok ()"
    by (auto simp: rbind_eq_Ok ensure_offerable_Ok)
  show ?case
  proof (cases "te_connect env n ech sni")
    case (Connected acc h)
    with 1(2) ok offer show ?thesis by (subst (asm) handshake_loop.simps) auto
  next
    case (Failed message handed)
    with 1(2) ok obtain retry where retry: "retry_key ech retried message handed = Some retry"
        "handshake_loop env sni peer (n + 1) True (Some retry) = (Ok (m, accepted, h2), ech')"
      by (subst (asm) handshake_loop.simps) (auto split: option.splits)
    from 1(1) [OF ok Failed retry] retry_key_Some [OF retry(1)] show ?thesis by auto
  qed
qed

lemma handshake_loop_offers_only:
  assumes "\<And>k m. check_ech_config_list k = Ok () \<Longrightarrow> te_connect env m (Some k) sni = te_connect env2 m (Some k) sni"
    and "te_configuration env2 = te_configuration env" "te_set_ech env2 = te_set_ech env" "te_dial env2 = te_dial env"
    and "ech \<noteq> None"
  shows "handshake_loop env sni peer n retried ech = handshake_loop env2 sni peer n retried ech"
  using assms
proof (induction env sni peer n retried ech rule: handshake_loop.induct)
  case (1 env sni peer n retried ech)
  obtain xs where xs: "ech = Some xs" using 1(6) by auto
  let ?prep = "rbind (te_configuration env) (\<lambda>_. rbind (rbind (ensure_offerable xs) (\<lambda>_. te_set_ech env xs)) (\<lambda>_. te_dial env n))"
  show ?case
  proof (cases ?prep)
    case (Ok u)
    then have con: "te_connect env n ech sni = te_connect env2 n ech sni"
      using 1(2) by (auto simp: rbind_eq_Ok ensure_offerable_Ok xs)
    have prep: "rbind (te_configuration env) (\<lambda>_.
         rbind (case ech of None \<Rightarrow> Ok () | Some xs \<Rightarrow> rbind (ensure_offerable xs) (\<lambda>_. te_set_ech env xs)) (\<lambda>_. te_dial env n)) = Ok ()"
      using Ok by (simp add: xs)
    have prep2: "rbind (te_configuration env2) (\<lambda>_.
         rbind (case ech of None \<Rightarrow> Ok () | Some xs \<Rightarrow> rbind (ensure_offerable xs) (\<lambda>_. te_set_ech env2 xs)) (\<lambda>_. te_dial env2 n)) = Ok ()"
      using prep by (simp only: 1(3-5))
    show ?thesis
    proof (cases "te_connect env n ech sni")
      case (Failed message handed)
      show ?thesis
      proof (cases "retry_key ech retried message handed")
        case (Some retry)
        from 1(1) [OF prep Failed Some 1(2-5)] show ?thesis
          by (subst (1 2) handshake_loop.simps) (simp add: prep prep2 con [symmetric] Failed Some)
      next
        case None
        then show ?thesis
          by (subst (1 2) handshake_loop.simps) (simp add: prep prep2 con [symmetric] Failed)
      qed
    next
      case (Connected accepted h2)
      then show ?thesis
        by (subst (1 2) handshake_loop.simps) (simp add: prep prep2 con [symmetric])
    qed
  qed (use 1(3-5) in \<open>subst (1 2) handshake_loop.simps, simp add: xs\<close>)+
qed


section \<open>A key list as it is written\<close>

definition len16 :: "bytes \<Rightarrow> bytes" where
  "len16 b = to_be 2 (length b) @ b"

lemma fld_u8_Cons [simp]: "fld_u8 (x # r) = Some (x, r)"
  by (simp add: fld_u8_def fld_take_def)

lemma fld_take_append: "length b = n \<Longrightarrow> fld_take n (b @ r) = Some (b, r)"
  by (auto simp: fld_take_def)

lemma fld_u16_written [simp]: "fld_u16 (be_bytes16 w @ r) = Some (w, r)"
proof -
  obtain a b where ab: "be_bytes16 w = [a, b]" "from_be16 a b = w" by (rule be_bytes16_cases)
  then show ?thesis using fld_take_append [of "[a, b]" 2 r] by (simp add: fld_u16_def)
qed

lemma fld_u16_prefixed_written [simp]: "length b < 65536 \<Longrightarrow> fld_u16_prefixed (len16 b @ r) = Some (b, r)"
  using fld_take_append [of b "length b" r]
  by (simp add: fld_u16_prefixed_def len16_def to_be_16 unat_word_of_nat_small del: to_be.simps)

lemma fld_u8_prefixed_written [simp]: "length b < 256 \<Longrightarrow> fld_u8_prefixed (word_of_nat (length b) # b @ r) = Some (b, r)"
  using fld_take_append [of b "length b" r] by (simp add: fld_u8_prefixed_def unat_word_of_nat_small)

datatype ech_entry =
  OtherVersion u16 bytes
| Entry byte u16 bytes "(u16 \<times> u16) list" byte bytes "(u16 \<times> bytes) list"

definition suites_bytes :: "(u16 \<times> u16) list \<Rightarrow> bytes" where
  "suites_bytes ss = concat (map (\<lambda>(k, a). be_bytes16 k @ be_bytes16 a) ss)"

definition extensions_bytes :: "(u16 \<times> bytes) list \<Rightarrow> bytes" where
  "extensions_bytes es = concat (map (\<lambda>(t, d). be_bytes16 t @ len16 d) es)"

fun entry_contents :: "ech_entry \<Rightarrow> bytes" where
  "entry_contents (OtherVersion v c) = c"
| "entry_contents (Entry i kem key ss maxlen name es) =
     i # be_bytes16 kem @ len16 key @ len16 (suites_bytes ss) @ maxlen #
     word_of_nat (length name) # name @ len16 (extensions_bytes es)"

fun entry_version :: "ech_entry \<Rightarrow> u16" where
  "entry_version (OtherVersion v c) = v"
| "entry_version (Entry i kem key ss maxlen name es) = ECH_CONFIG_VERSION"

definition entry_bytes :: "ech_entry \<Rightarrow> bytes" where
  "entry_bytes e = be_bytes16 (entry_version e) @ len16 (entry_contents e)"

fun valid_entry :: "ech_entry \<Rightarrow> bool" where
  "valid_entry (OtherVersion v c) \<longleftrightarrow> v \<noteq> ECH_CONFIG_VERSION \<and> length c < 65536"
| "valid_entry (Entry i kem key ss maxlen name es) \<longleftrightarrow>
     key \<noteq> [] \<and> length key < 65536 \<and> ss \<noteq> [] \<and> length (suites_bytes ss) < 65536 \<and> name \<noteq> [] \<and> length name < 256 \<and>
     list_all (\<lambda>(t, d). length d < 65536) es \<and> length (extensions_bytes es) < 65536 \<and>
     length (entry_contents (Entry i kem key ss maxlen name es)) < 65536"

text \<open>The key of a config BoringSSL offers.\<close>

fun entry_offered :: "ech_entry \<Rightarrow> bytes option" where
  "entry_offered (OtherVersion v c) = None"
| "entry_offered (Entry i kem key ss maxlen name es) =
     (if valid_public_name name \<and> list_all (\<lambda>(t, d). t AND 0x8000 = 0) es \<and> kem = HPKE_DHKEM_X25519_HKDF_SHA256 \<and>
         list_ex (\<lambda>(k, a). k = HPKE_HKDF_SHA256 \<and> a \<in> set HPKE_AEADS) ss
      then Some key else None)"

lemma suites_bytes_Cons: "suites_bytes ((k, a) # ss) = be_bytes16 k @ be_bytes16 a @ suites_bytes ss"
  by (simp add: suites_bytes_def)

lemma length_suites_bytes: "length (suites_bytes ss) = 4 * length ss"
  by (induction ss) (auto simp: suites_bytes_def)

lemma suites_loop_written:
  "suites_loop (suites_bytes ss) found = Some (found \<or> list_ex (\<lambda>(k, a). k = HPKE_HKDF_SHA256 \<and> a \<in> set HPKE_AEADS) ss)"
proof (induction ss arbitrary: found)
  case Nil
  then show ?case by (subst suites_loop.simps) (simp add: suites_bytes_def)
next
  case (Cons x ss)
  obtain k a where x: "x = (k, a)" by (cases x)
  have "suites_bytes (x # ss) \<noteq> []" using length_suites_bytes [of "x # ss"] by auto
  with Cons show ?case by (subst suites_loop.simps) (auto simp: x suites_bytes_Cons)
qed

lemma extensions_loop_written:
  assumes "list_all (\<lambda>(t, d). length d < 65536) es"
  shows "extensions_loop (extensions_bytes es) m = Some (m \<or> \<not> list_all (\<lambda>(t, d). t AND 0x8000 = 0) es)"
  using assms
proof (induction es arbitrary: m)
  case Nil
  then show ?case by (subst extensions_loop.simps) (simp add: extensions_bytes_def)
next
  case (Cons x es)
  obtain t d where x: "x = (t, d)" by (cases x)
  have e: "extensions_bytes (x # es) = be_bytes16 t @ len16 d @ extensions_bytes es"
    by (simp add: extensions_bytes_def x)
  have "length (extensions_bytes (x # es)) \<ge> 2" by (simp add: e)
  then have "extensions_bytes (x # es) \<noteq> []" by auto
  with Cons show ?case by (subst extensions_loop.simps) (auto simp: e [unfolded x] x)
qed

lemma ech_config_written:
  assumes "valid_entry e"
  shows "ech_config (entry_bytes e @ rest) = Some (entry_offered e, rest)"
proof (cases e)
  case (OtherVersion v c)
  with assms show ?thesis by (simp add: ech_config_def entry_bytes_def)
next
  case (Entry i kem key ss maxlen name es)
  have ok: "key \<noteq> []" "length key < 65536" "ss \<noteq> []" "length (suites_bytes ss) < 65536" "name \<noteq> []" "length name < 256"
     "list_all (\<lambda>(t, d). length d < 65536) es" "length (extensions_bytes es) < 65536"
     "length (entry_contents e) < 65536"
    using assms by (simp_all add: Entry)
  have ne: "suites_bytes ss \<noteq> []" using ok(3) length_suites_bytes [of ss] by auto
  have ext: "fld_u16_prefixed (len16 (extensions_bytes es)) = Some (extensions_bytes es, [])"
    using fld_u16_prefixed_written [OF ok(8), of "[]"] by simp
  have "ech_contents (entry_contents e) = Some (entry_offered e)"
    using ok ne ext suites_loop_written [of ss False] extensions_loop_written [OF ok(7), of False]
    by (simp add: Entry ech_contents_def length_suites_bytes)
  with ok(9) show ?thesis
    by (simp add: ech_config_def entry_bytes_def Entry del: entry_contents.simps entry_offered.simps)
qed


definition first_offered :: "ech_entry list \<Rightarrow> bytes option" where
  "first_offered es = (case List.map_filter entry_offered es of [] \<Rightarrow> None | k # _ \<Rightarrow> Some k)"

lemma first_offered_Cons: "first_offered (e # es) = (case entry_offered e of None \<Rightarrow> first_offered es | Some k \<Rightarrow> Some k)"
  by (simp add: first_offered_def List.map_filter_def split: option.splits)

lemma configs_loop_written:
  assumes "list_all valid_entry es"
  shows "configs_loop (concat (map entry_bytes es)) picked = Ok (case picked of None \<Rightarrow> first_offered es | Some k \<Rightarrow> Some k)"
  using assms
proof (induction es arbitrary: picked)
  case Nil
  then show ?case by (subst configs_loop.simps) (simp add: first_offered_def List.map_filter_def split: option.splits)
next
  case (Cons e es)
  have "length (entry_bytes e) \<ge> 2" by (simp add: entry_bytes_def)
  then have "concat (map entry_bytes (e # es)) \<noteq> []" by auto
  with Cons show ?case
    by (subst configs_loop.simps) (auto simp: ech_config_written first_offered_Cons split: option.splits)
qed

lemma check_written:
  assumes "list_all valid_entry es" "es \<noteq> []" "length (concat (map entry_bytes es)) < 65536"
  shows "check_ech_config_list (len16 (concat (map entry_bytes es))) =
    (case first_offered es of
       Some key \<Rightarrow> if length key = 32 then Ok () else Err bad_key_length
     | None \<Rightarrow> Err none_offered)"
proof -
  have "length (entry_bytes (hd es)) \<ge> 2" by (simp add: entry_bytes_def)
  then have ne: "concat (map entry_bytes es) \<noteq> []" using assms(2) by (cases es) auto
  have "fld_u16_prefixed (len16 (concat (map entry_bytes es))) = Some (concat (map entry_bytes es), [])"
    using fld_u16_prefixed_written [OF assms(3), of "[]"] by simp
  with ne show ?thesis
    by (simp add: check_ech_config_list_def configs_loop_written [OF assms(1)] X25519_PUBLIC_KEY_LEN_def del: concat_eq_Nil_conv
        split: option.splits)
qed

text \<open>C29. A key list is taken exactly when BoringSSL would offer ECH from it: of the configs
  written in it, the first with the offered version, a valid public name, no mandatory
  extension, the X25519 KEM and a supported cipher suite decides, and its key has to be 32
  bytes long.  Configs before it that are of other versions or not offered are passed over,
  and later ones change nothing.\<close>

theorem ech_list_check_exact:
  assumes "list_all valid_entry es" and "es \<noteq> []" and "length (concat (map entry_bytes es)) < 65536"
  shows "check_ech_config_list (len16 (concat (map entry_bytes es))) =
    (case first_offered es of
       Some key \<Rightarrow> if length key = 32 then Ok () else Err bad_key_length
     | None \<Rightarrow> Err none_offered)"
  using check_written [OF assms] .

definition demo_entry :: ech_entry where
  "demo_entry = Entry 7 0x0020 (replicate 32 9) [(0x0001, 0x0003)] 0 (lit ''a.io'') []"

lemma demo_entry_valid: "valid_entry demo_entry"
  by (simp add: demo_entry_def suites_bytes_def extensions_bytes_def len16_def)

lemma demo_public_name: "valid_public_name (lit ''a.io'')"
  by code_simp

lemma demo_entry_offered: "entry_offered demo_entry = Some (replicate 32 9)"
  using demo_public_name
  by (simp add: demo_entry_def HPKE_DHKEM_X25519_HKDF_SHA256_def HPKE_HKDF_SHA256_def HPKE_AEADS_def del: lit_Cons)

definition demo_list :: bytes where
  "demo_list = len16 (concat (map entry_bytes [OtherVersion 0x0001 [1, 2], demo_entry]))"

lemma demo_entries:
  "list_all valid_entry [OtherVersion 0x0001 [1, 2], demo_entry]"
  "length (concat (map entry_bytes [OtherVersion 0x0001 [1, 2], demo_entry])) < 65536"
  "first_offered [OtherVersion 0x0001 [1, 2], demo_entry] = Some (replicate 32 9)"
proof -
  show "list_all valid_entry [OtherVersion 0x0001 [1, 2], demo_entry]"
    using demo_entry_valid by (simp add: ECH_CONFIG_VERSION_def)
  show "length (concat (map entry_bytes [OtherVersion 0x0001 [1, 2], demo_entry])) < 65536"
    by (simp add: entry_bytes_def demo_entry_def len16_def suites_bytes_def extensions_bytes_def)
  show "first_offered [OtherVersion 0x0001 [1, 2], demo_entry] = Some (replicate 32 9)"
    using demo_entry_offered by (simp add: first_offered_Cons)
qed

lemma demo_list_ok: "check_ech_config_list demo_list = Ok ()"
  unfolding demo_list_def using check_written [OF demo_entries(1) _ demo_entries(2)] demo_entries(3) by simp

theorem ech_list_check_exact_witness:
  "check_ech_config_list (len16 (concat (map entry_bytes [OtherVersion 0x0001 [1, 2], demo_entry]))) = Ok ()"
  using ech_list_check_exact [OF demo_entries(1) _ demo_entries(2)] demo_entries(3) by simp


section \<open>The guarantees\<close>

definition same_offers :: "tls_env \<Rightarrow> tls_env \<Rightarrow> bool" where
  "same_offers env env2 \<longleftrightarrow> te_configuration env2 = te_configuration env \<and> te_set_ech env2 = te_set_ech env \<and> te_dial env2 = te_dial env \<and>
     (\<forall>k m sni. check_ech_config_list k = Ok () \<longrightarrow> te_connect env m (Some k) sni = te_connect env2 m (Some k) sni)"

lemma exchange_loop: "exchange env request ech =
    (let sni = (case rq_sni request of Some name \<Rightarrow> name | None \<Rightarrow> rq_host request);
         peer = (case rq_address request of Some (a, p) \<Rightarrow> authority a p | None \<Rightarrow> authority (rq_host request) (rq_port request));
         (outcome, ech') = handshake_loop env sni peer 1 False ech
     in (rbind outcome (\<lambda>(n, accepted, h2).
           if ech' \<noteq> None \<and> \<not> accepted then Err (aether_error.Ech (lit ''the handshake went without ECH''))
           else Ok (n, if h2 then Http2 else Http1)), ech'))"
  by (auto simp: exchange_def Let_def split: option.splits prod.splits)

text \<open>C27. A request that is given an ECH key is never sent in the clear: it goes over a handshake
  that offered a key BoringSSL offers and that the server accepted, the first or the second
  one made, and the key used is the one left with the caller.  No handshake without a key, or
  with a key that cannot be offered, is ever made on its way: two environments that differ
  only in how such handshakes would come out give the same outcome.\<close>

theorem exchange_never_clear:
  assumes "ech \<noteq> None"
  shows "(\<forall>n how. fst (exchange env request ech) = Ok (n, how) \<longrightarrow>
      (\<exists>key h2 sni. snd (exchange env request ech) = Some key \<and> check_ech_config_list key = Ok () \<and>
        te_connect env n (Some key) sni = Connected True h2 \<and> n \<le> 2)) \<and>
    (\<forall>env2. same_offers env env2 \<longrightarrow> exchange env2 request ech = exchange env request ech)"
proof (intro conjI allI impI)
  let ?sni = "case rq_sni request of Some name \<Rightarrow> name | None \<Rightarrow> rq_host request"
  let ?peer = "case rq_address request of Some (a, p) \<Rightarrow> authority a p | None \<Rightarrow> authority (rq_host request) (rq_port request)"
  fix n how
  assume ok: "fst (exchange env request ech) = Ok (n, how)"
  obtain outcome ech' where loop: "handshake_loop env ?sni ?peer 1 False ech = (outcome, ech')"
    by (cases "handshake_loop env ?sni ?peer 1 False ech")
  then obtain accepted h2 where o: "outcome = Ok (n, accepted, h2)" "ech' = None \<or> accepted"
    using ok by (auto simp: exchange_loop Let_def rbind_eq_Ok split: if_splits)
  note l = handshake_loop_Ok [OF loop [unfolded o]]
  then obtain key where key: "ech' = Some key" using assms by auto
  have "snd (exchange env request ech) = ech'" by (simp add: exchange_loop Let_def loop del: One_nat_def)
  moreover have "te_connect env n (Some key) ?sni = Connected True h2" using l key o(2) by simp
  ultimately show "\<exists>key h2 sni. snd (exchange env request ech) = Some key \<and> check_ech_config_list key = Ok () \<and>
      te_connect env n (Some key) sni = Connected True h2 \<and> n \<le> 2"
    using l key by auto
next
  fix env2
  assume "same_offers env env2"
  then show "exchange env2 request ech = exchange env request ech"
    using handshake_loop_offers_only [of env _ env2 ech] assms by (simp add: exchange_loop same_offers_def)
qed

definition demo_env :: tls_env where
  "demo_env = \<lparr>te_configuration = Ok (), te_set_ech = (\<lambda>_. Ok ()), te_dial = (\<lambda>_. Ok ()),
     te_connect = (\<lambda>n ech sni. if n = 1 then Failed (lit ''ECH_REJECTED'') (Some demo_list) else Connected (ech = Some demo_list) True)\<rparr>"

definition demo_request :: http_request where
  "demo_request = \<lparr>rq_method = lit ''GET'', rq_host = lit ''a.io'', rq_port = 443, rq_address = None, rq_sni = None,
     rq_path = lit ''/'', rq_headers = [], rq_body = None\<rparr>"

theorem exchange_never_clear_witness:
  "exchange demo_env demo_request (Some demo_list) = (Ok (2, Http2), Some demo_list) \<and>
   (\<exists>h2 sni. te_connect demo_env 2 (Some demo_list) sni = Connected True h2)"
proof -
  have "length demo_list \<ge> 2" by (simp add: demo_list_def len16_def)
  then have ne: "demo_list \<noteq> []" by auto
  have c: "contains (lit ''ECH_REJECTED'') (lit ''ECH_REJECTED'')" by code_simp
  have e: "ensure_offerable demo_list = Ok ()" by (simp add: ensure_offerable_Ok demo_list_ok)
  have r: "retry_key (Some demo_list) False (lit ''ECH_REJECTED'') (Some demo_list) = Some demo_list"
    using c ne by (simp add: retry_key_def usable_retry_def demo_list_ok del: lit_Cons)
  have two: "handshake_loop demo_env sni peer 2 True (Some demo_list) = (Ok (2, True, True), Some demo_list)" for sni peer
    by (subst handshake_loop.simps) (simp add: demo_env_def e)
  have one: "handshake_loop demo_env sni peer 1 False (Some demo_list) = (Ok (2, True, True), Some demo_list)" for sni peer
    using two [of sni peer] r by (subst handshake_loop.simps) (simp add: demo_env_def e numeral_2_eq_2 del: lit_Cons)
  have x: "exchange demo_env demo_request (Some demo_list) = (Ok (2, Http2), Some demo_list)"
    by (simp add: exchange_loop Let_def one demo_request_def del: One_nat_def)
  have "(Some demo_list :: bytes option) \<noteq> None" by simp
  from exchange_never_clear [OF this, of demo_env demo_request] x show ?thesis by auto
qed

lemma ech_idle_inv: "ech_reachable s \<Longrightarrow> sessions s = 0 \<Longrightarrow> session_key s = None"
proof (induction rule: ech_reachable.induct)
  case (step s s')
  from step(2) show ?case
    by cases (use step in \<open>auto simp: session_start_def session_drop_def adopt_ech_retry_def use_ech_def Let_def split: if_splits\<close>)
qed (simp add: ech_initial_def)

text \<open>C30. The key the sessions share goes with the last of them and not before: in every state
  that starts, ends and retries of sessions can reach, without a session there is no key, and
  no step takes the key away while a session runs on.\<close>

theorem ech_session_key_lifetime:
  assumes "ech_reachable s"
  shows "(sessions s = 0 \<longrightarrow> session_key s = None) \<and>
    (\<forall>s'. ech_step s s' \<and> session_key s \<noteq> None \<and> 0 < sessions s' \<longrightarrow> session_key s' \<noteq> None)"
proof (intro conjI allI impI)
  assume "sessions s = 0"
  with assms show "session_key s = None" by (rule ech_idle_inv)
next
  fix s'
  assume s': "ech_step s s' \<and> session_key s \<noteq> None \<and> 0 < sessions s'"
  then have run: "0 < sessions s" using ech_idle_inv [OF assms] by (cases "sessions s") auto
  from s' show "session_key s' \<noteq> None"
    by (auto elim!: ech_stepE simp: session_start_def session_drop_def adopt_ech_retry_def use_ech_def Let_def run
        split: if_splits) (use run in simp)
qed

theorem ech_session_key_lifetime_witness:
  "session_key (session_drop (session_start (Some demo_list) (session_start None ech_initial))) \<noteq> None"
proof -
  let ?s = "session_start (Some demo_list) (session_start None ech_initial)"
  have "ech_reachable ?s"
    by (rule ech_reachable.step [OF ech_reachable.step [OF ech_reachable.init ech_step.start] ech_step.start])
  moreover have "0 < sessions ?s" "session_key ?s \<noteq> None" "0 < sessions (session_drop ?s)"
    by (simp_all add: session_start_def session_drop_def use_ech_def ech_initial_def)
  ultimately show ?thesis using ech_session_key_lifetime ech_step.drop by blast
qed


section \<open>Trust anchors read back\<close>

text \<open>Relative OIDs as the wire has them: arcs in base 128, the high bit set on all bytes of an
  arc but its last, each ID after its length.\<close>

fun read_arcs :: "nat \<Rightarrow> bytes \<Rightarrow> nat list" where
  "read_arcs acc [] = []"
| "read_arcs acc (b # bs) =
     (let v = acc * 128 + unat (b AND 0x7F) in if b AND 0x80 = 0 then v # read_arcs 0 bs else read_arcs v bs)"

function read_anchors :: "bytes \<Rightarrow> nat list list option" where
  "read_anchors [] = Some []"
| "read_anchors (n # r) =
     (if length r < unat n then None
      else map_option (\<lambda>ids. read_arcs 0 (take (unat n) r) # ids) (read_anchors (drop (unat n) r)))"
  by pat_completeness auto
termination
  by (relation "measure length") auto

lemma septet:
  assumes "m < 128"
  shows "unat ((word_of_nat m :: byte) AND 0x7F) = m" "(word_of_nat m :: byte) AND 0x80 = 0"
    "unat ((0x80 OR word_of_nat m :: byte) AND 0x7F) = m" "(0x80 OR word_of_nat m :: byte) AND 0x80 \<noteq> 0"
proof -
  have mask: "(0x7F :: byte) = mask 7" by (simp add: mask_eq_exp_minus_1)
  have low: "(word_of_nat m :: byte) AND 0x7F = word_of_nat m"
    unfolding mask using assms by (simp add: word_of_nat_and_low)
  then show "unat ((word_of_nat m :: byte) AND 0x7F) = m"
    using assms by (simp add: unat_word_of_nat_small)
  have "(word_of_nat m :: byte) AND 0x80 = (word_of_nat m AND 0x7F) AND 0x80" by (simp only: low)
  also have "\<dots> = 0" by (simp add: and.assoc)
  finally show high: "(word_of_nat m :: byte) AND 0x80 = 0" .
  show "unat ((0x80 OR word_of_nat m :: byte) AND 0x7F) = m"
    using assms by (simp add: bit.conj_disj_distrib2 low unat_word_of_nat_small)
  show "(0x80 OR word_of_nat m :: byte) AND 0x80 \<noteq> 0"
    by (simp add: bit.conj_disj_distrib2 high)
qed

lemma read_base128_rest: "read_arcs 0 (rev (base128_rest v) @ r) = read_arcs v r"
proof (induction v arbitrary: r rule: base128_rest.induct)
  case (1 v)
  show ?case
  proof (cases "v > 0")
    case True
    have "v div 128 * 128 + v mod 128 = v" by simp
    with 1 [OF True] True septet(3,4) [of "v mod 128"] show ?thesis
      by (subst base128_rest.simps) (simp add: Let_def)
  next
    case False
    then show ?thesis by (subst base128_rest.simps) simp
  qed
qed

lemma read_base128: "read_arcs 0 (base128 v @ r) = v # read_arcs 0 r"
proof -
  have "v div 128 * 128 + v mod 128 = v" by simp
  with septet(1,2) [of "v mod 128"] show ?thesis
    by (simp add: base128_def read_base128_rest Let_def)
qed

lemma arc_value_digits: "arc_value arc = Some v \<Longrightarrow> v = digits_value 0 arc"
  by (auto simp: arc_value_def parse_u64_def parse_uint_def Let_def is_ascii_digit_def split: if_splits list.splits)

lemma read_encoded: "encode_arcs arcs = Some b \<Longrightarrow> read_arcs 0 b = map (digits_value 0) arcs"
proof (induction arcs arbitrary: b)
  case (Cons arc arcs)
  then show ?case
    by (auto simp: read_base128 dest: arc_value_digits split: option.splits)
qed simp

lemma read_anchor_loop: "trust_anchor_loop debug ids = Ok wire \<Longrightarrow>
    read_anchors wire = Some (map (\<lambda>ident. map (digits_value 0) (split_on 46 ident)) ids)"
proof (induction ids arbitrary: wire)
  case (Cons ident ids)
  then show ?case
    by (auto simp: rbind_eq_Ok read_encoded unat_word_of_nat_small split: option.splits if_splits)
qed simp

text \<open>The trust anchor option round trips: whatever list of relative OIDs the option takes, its
  wire form reads back, by length and base 128, as the same IDs with the same arcs, in order.\<close>

lemma trust_anchors_read_back:
  assumes "trust_anchor_ids debug xs = Ok wire"
  shows "read_anchors wire = Some (map (\<lambda>ident. map (digits_value 0) (split_on 46 ident)) (split_on 58 xs))"
  using read_anchor_loop assms by (simp add: trust_anchor_ids_def)

end
