(* ===== verification/Upstream.thy ===== *)
theory Upstream
  imports Https
begin

text \<open>
  \<open>upstream.rs\<close>: the proxy the core dials out through.  The setting and its parser, the SOCKS5
  and HTTP CONNECT handshakes over the bytes the proxy sends, the UDP relay's header, and the
  detours that lead a socket's datagrams through the relay.  A connection is the bytes that
  come in and the bytes written; connecting, the time limit, the base64 encoder, Unicode
  lower-casing and the lookup of a name are arguments.
\<close>

definition VER :: byte where "VER = 0x05"
definition AUTH_NONE :: byte where "AUTH_NONE = 0x00"
definition AUTH_USERPASS :: byte where "AUTH_USERPASS = 0x02"
definition AUTH_REJECTED :: byte where "AUTH_REJECTED = 0xff"
definition CMD_CONNECT :: byte where "CMD_CONNECT = 0x01"
definition CMD_ASSOCIATE :: byte where "CMD_ASSOCIATE = 0x03"
definition ATYP_V4 :: byte where "ATYP_V4 = 0x01"
definition ATYP_NAME :: byte where "ATYP_NAME = 0x03"
definition ATYP_V6 :: byte where "ATYP_V6 = 0x04"
definition REP_OK :: byte where "REP_OK = 0x00"

lemmas socks_consts = VER_def AUTH_NONE_def AUTH_USERPASS_def AUTH_REJECTED_def CMD_CONNECT_def CMD_ASSOCIATE_def
  ATYP_V4_def ATYP_NAME_def ATYP_V6_def REP_OK_def

section \<open>The setting\<close>

datatype proxy_kind = Socks5 | HttpProxy

fun kind_label :: "proxy_kind \<Rightarrow> str" where
  "kind_label Socks5 = lit ''socks5''"
| "kind_label HttpProxy = lit ''http''"

record upstream =
  up_kind :: proxy_kind
  up_host :: str
  up_port :: u16
  up_user :: "str option"
  up_password :: "str option"

text \<open>\<open>str::split_once\<close> at a text.\<close>

definition split_once_str :: "str \<Rightarrow> str \<Rightarrow> (str \<times> str) option" where
  "split_once_str p s = (case find_sub p s of None \<Rightarrow> None | Some i \<Rightarrow> Some (take i s, drop (i + length p) s))"

definition bad_endpoint :: "str \<Rightarrow> aether_error" where
  "bad_endpoint endpoint = Other (endpoint @ lit '' is not a host and port an upstream proxy can live at'')"

definition split_endpoint :: "str \<Rightarrow> (str \<times> u16) aresult" where
  "split_endpoint endpoint =
     (let checked = (\<lambda>host port_text.
            (case parse_u16 port_text of
               None \<Rightarrow> Err (bad_endpoint endpoint)
             | Some port \<Rightarrow> if host = [] \<or> port = 0 then Err (bad_endpoint endpoint) else Ok (host, port)))
      in case strip_prefix [91] endpoint of
           Some rest \<Rightarrow>
             (case split_once 93 rest of
                None \<Rightarrow> Err (bad_endpoint endpoint)
              | Some (host, tail) \<Rightarrow>
                  (case strip_prefix [58] tail of
                     None \<Rightarrow> Err (bad_endpoint endpoint)
                   | Some port \<Rightarrow> checked host port))
         | None \<Rightarrow>
             (case rsplit_once 58 endpoint of
                None \<Rightarrow> Err (bad_endpoint endpoint)
              | Some (host, port) \<Rightarrow> checked host port))"

definition unreserved :: "byte \<Rightarrow> bool" where
  "unreserved b \<longleftrightarrow> is_ascii_alphanumeric b \<or> b = 45 \<or> b = 46 \<or> b = 95 \<or> b = 126"

definition upper_hex :: "nat \<Rightarrow> byte" where
  "upper_hex n = (if n < 10 then word_of_nat (48 + n) else word_of_nat (55 + n))"

definition percent_encode :: "str \<Rightarrow> str" where
  "percent_encode value =
     concat (map (\<lambda>b. if unreserved b then [b] else [37, upper_hex (unat b div 16), upper_hex (unat b mod 16)]) value)"

text \<open>\<open>u8::from_str_radix(_, 16)\<close> of two bytes.\<close>

definition hex_byte :: "bytes \<Rightarrow> byte option" where
  "hex_byte h =
     (let text = (if utf8_valid h then h else [])
      in case parse_hex text of None \<Rightarrow> None | Some v \<Rightarrow> if v < 256 then Some (word_of_nat v) else None)"

fun percent_decode_bytes :: "bytes \<Rightarrow> bytes" where
  "percent_decode_bytes [] = []"
| "percent_decode_bytes (b # bs) =
     (case (if b = 37 \<and> 2 \<le> length bs then hex_byte (take 2 bs) else None) of
        Some v \<Rightarrow> v # percent_decode_bytes (drop 2 bs)
      | None \<Rightarrow> b # percent_decode_bytes bs)"

definition percent_decode :: "str \<Rightarrow> str" where
  "percent_decode value = from_utf8_lossy (percent_decode_bytes value)"

definition https_refusal :: aether_error where
  "https_refusal = Other (lit ''an https:// upstream with a password is refused: aether talks to its upstream over plain http, which would send the password in the clear; use http:// only if that is acceptable, or socks5://'')"

definition upstream_parse :: "(str \<Rightarrow> str) \<Rightarrow> str \<Rightarrow> upstream aresult" where
  "upstream_parse lc raw0 =
     (let raw = trim raw0;
          (scheme, rest) = (case split_once_str (lit ''://'') raw of
             Some (scheme, rest) \<Rightarrow> (lc scheme, rest) | None \<Rightarrow> (lit ''socks5'', raw));
          kind = (if scheme \<in> {lit ''socks5'', lit ''socks5h'', lit ''socks''} then Some Socks5
                  else if scheme \<in> {lit ''http'', lit ''https''} then Some HttpProxy else None);
          (credentials, endpoint) = (case rsplit_once 64 rest of
             Some (c, e) \<Rightarrow> (Some c, e) | None \<Rightarrow> (None, rest))
      in case kind of
           None \<Rightarrow> Err (Other (scheme @ lit '' is not an upstream proxy kind aether understands''))
         | Some kind \<Rightarrow>
             if scheme = lit ''https'' \<and> credentials \<noteq> None then Err https_refusal
             else rbind (split_endpoint (trim_end_matches 47 endpoint)) (\<lambda>(host, port).
               let (user, password) = (case credentials of
                     Some pair \<Rightarrow> (case split_once 58 pair of
                         Some (u, p) \<Rightarrow> (Some (percent_decode u), Some (percent_decode p))
                       | None \<Rightarrow> (Some (percent_decode pair), None))
                   | None \<Rightarrow> (None, None))
               in Ok \<lparr>up_kind = kind, up_host = host, up_port = port, up_user = user, up_password = password\<rparr>))"

definition usable :: "(str \<Rightarrow> str) \<Rightarrow> str \<Rightarrow> unit aresult" where
  "usable lc raw =
     (if trim raw = [] then Ok ()
      else rbind (map_err (\<lambda>e. Other (lit ''--upstream cannot be used: '' @ error_detail e @
             lit ''; aether ends rather than connect around it'')) (upstream_parse lc raw)) (\<lambda>_. Ok ()))"

definition from_value :: "(str \<Rightarrow> str) \<Rightarrow> str \<Rightarrow> upstream option" where
  "from_value lc raw =
     (if trim raw = [] then None
      else (case upstream_parse lc (trim raw) of Ok up \<Rightarrow> Some up | _ \<Rightarrow> None))"

definition remembered :: "(str \<Rightarrow> str) \<Rightarrow> (str \<times> upstream option) option \<Rightarrow> str \<Rightarrow>
    upstream option \<times> (str \<times> upstream option) option" where
  "remembered lc seen raw =
     (case seen of
        Some (last_raw, up) \<Rightarrow> if last_raw = raw then (up, seen)
          else (from_value lc raw, Some (raw, from_value lc raw))
      | None \<Rightarrow> (from_value lc raw, Some (raw, from_value lc raw)))"

text \<open>\<open>configured\<close>: the task's proxy, or the one the setting names now.\<close>

definition configured :: "(str \<Rightarrow> str) \<Rightarrow> (str \<Rightarrow> str option) \<Rightarrow> upstream option \<Rightarrow> (str \<times> upstream option) option \<Rightarrow>
    upstream option \<times> (str \<times> upstream option) option" where
  "configured lc env task seen =
     (case task of Some proxy \<Rightarrow> (Some proxy, seen)
      | None \<Rightarrow> remembered lc seen (case env (lit ''AETHER_UPSTREAM'') of Some raw \<Rightarrow> raw | None \<Rightarrow> []))"

definition endpoint :: "upstream \<Rightarrow> str" where
  "endpoint up = up_host up @ lit '':'' @ show_nat (unat (up_port up))"

definition bracketed :: "str \<Rightarrow> str" where
  "bracketed host = (if 58 \<in> set host then lit ''['' @ host @ lit '']'' else host)"

definition url :: "upstream \<Rightarrow> str" where
  "url up = (case up_kind up of Socks5 \<Rightarrow> lit ''socks5h'' | HttpProxy \<Rightarrow> lit ''http'') @ lit ''://'' @
     bracketed (up_host up) @ lit '':'' @ show_nat (unat (up_port up))"

definition url_credentials :: "upstream \<Rightarrow> str" where
  "url_credentials up =
     (case (up_user up, up_password up) of
        (Some user, Some password) \<Rightarrow> percent_encode user @ lit '':'' @ percent_encode password @ lit ''@''
      | (Some user, None) \<Rightarrow> percent_encode user @ lit ''@''
      | _ \<Rightarrow> [])"

definition psiphon_url :: "upstream \<Rightarrow> str" where
  "psiphon_url up = (case up_kind up of Socks5 \<Rightarrow> lit ''socks5'' | HttpProxy \<Rightarrow> lit ''http'') @ lit ''://'' @
     url_credentials up @ bracketed (up_host up) @ lit '':'' @ show_nat (unat (up_port up))"

definition socks_address :: "upstream \<Rightarrow> socket_addr option" where
  "socks_address up =
     (if up_kind up \<noteq> Socks5 \<or> up_user up \<noteq> None then None
      else map_option (\<lambda>ip. sock_new ip (up_port up)) (parse_ip (up_host up)))"


section \<open>Addresses on the wire\<close>

definition encode_address :: "socket_addr \<Rightarrow> bytes" where
  "encode_address target =
     (case sock_ip target of
        V4 v4 \<Rightarrow> ATYP_V4 # v4_octets v4
      | V6 v6 \<Rightarrow> ATYP_V6 # v6_octets v6) @ be_bytes16 (sock_port target)"

definition encode_request :: "byte \<Rightarrow> socket_addr \<Rightarrow> bytes" where
  "encode_request command target = [VER, command, 0x00] @ encode_address target"

definition encode_name_request :: "(str \<Rightarrow> str) \<Rightarrow> byte \<Rightarrow> str \<Rightarrow> u16 \<Rightarrow> bytes aresult" where
  "encode_name_request debug command name port =
     (if length name < 256 \<and> 0 < length name
      then Ok ([VER, command, 0x00, ATYP_NAME, word_of_nat (length name)] @ name @ be_bytes16 port)
      else Err (Other (debug name @ lit '' is no name a socks5 proxy can be asked for'')))"

definition encode_udp_header :: "socket_addr \<Rightarrow> bytes" where
  "encode_udp_header target = [0x00, 0x00, 0x00] @ encode_address target"

definition decode_udp_header :: "bytes \<Rightarrow> (socket_addr \<times> nat) option" where
  "decode_udp_header buf =
     (if length buf < 4 \<or> buf ! 2 \<noteq> 0x00 then None
      else if buf ! 3 = ATYP_V4 then
        (if length buf < 10 then None
         else Some (SockV4 (v4_of_octets (sub buf 4 8)) (from_be16 (buf ! 8) (buf ! 9)), 10))
      else if buf ! 3 = ATYP_V6 then
        (if length buf < 22 then None
         else Some (sock_new (V6 (v6_of_octets (sub buf 4 20))) (from_be16 (buf ! 20) (buf ! 21)), 22))
      else if buf ! 3 = ATYP_NAME then
        (case get_at buf 4 of None \<Rightarrow> None
         | Some len \<Rightarrow>
             (let stop = 5 + unat len
              in if length buf < stop + 2 then None
                 else (let port = from_be16 (buf ! stop) (buf ! (stop + 1)); name = sub buf 5 stop
                   in if \<not> utf8_valid name then None
                      else map_option (\<lambda>ip. (sock_new ip port, stop + 2)) (parse_ip name))))
      else None)"

section \<open>The proxy's side of the connection\<close>

record conn =
  c_in :: bytes
  c_out :: bytes

definition write_all :: "bytes \<Rightarrow> conn \<Rightarrow> conn" where
  "write_all b c = c\<lparr>c_out := c_out c @ b\<rparr>"

definition read_exact :: "nat \<Rightarrow> conn \<Rightarrow> (bytes \<times> conn) aresult" where
  "read_exact n c =
     (if length (c_in c) < n then Err (Io (lit ''early eof''))
      else Ok (take n (c_in c), c\<lparr>c_in := drop n (c_in c)\<rparr>))"

definition socks_authenticate :: "upstream \<Rightarrow> conn \<Rightarrow> conn aresult" where
  "socks_authenticate up c =
     (let user = (case up_user up of Some u \<Rightarrow> u | None \<Rightarrow> []);
          password = (case up_password up of Some p \<Rightarrow> p | None \<Rightarrow> [])
      in if 255 < length user \<or> 255 < length password
         then Err (Other (lit ''the upstream proxy credentials are longer than socks5 allows''))
         else rbind (read_exact 2 (write_all
             ([0x01, word_of_nat (length user)] @ user @ [word_of_nat (length password)] @ password) c)) (\<lambda>(answer, c).
           if answer ! 0 \<noteq> 0x01 then Err (Other (lit ''the upstream proxy answered the password negotiation with the wrong version''))
           else if answer ! 1 \<noteq> 0x00 then Err (Other (lit ''the upstream proxy refused the credentials supplied''))
           else Ok c))"

definition socks_greet :: "upstream \<Rightarrow> conn \<Rightarrow> conn aresult" where
  "socks_greet up c =
     (let wants_auth = up_user up \<noteq> None
      in rbind (read_exact 2 (write_all [VER, 1, if wants_auth then AUTH_USERPASS else AUTH_NONE] c)) (\<lambda>(answer, c).
         if answer ! 0 \<noteq> VER then Err (Other (lit ''the upstream proxy did not speak socks5''))
         else if answer ! 1 = AUTH_NONE then
           (if wants_auth then Err (Other (lit ''the upstream proxy skipped authentication even though credentials are configured''))
            else Ok c)
         else if answer ! 1 = AUTH_USERPASS then socks_authenticate up c
         else if answer ! 1 = AUTH_REJECTED then
           Err (Other (lit ''the upstream proxy rejected every authentication method offered''))
         else Err (Other (lit ''the upstream proxy asked for authentication method '' @ show_nat (unat (answer ! 1)) @
           lit '', which aether cannot do''))))"

definition read_reply :: "conn \<Rightarrow> (socket_addr \<times> conn) aresult" where
  "read_reply c =
     rbind (read_exact 4 c) (\<lambda>(head, c).
       if head ! 0 \<noteq> VER then Err (Other (lit ''the upstream proxy answered with something other than socks5''))
       else if head ! 1 \<noteq> REP_OK then
         Err (Other (lit ''the upstream proxy refused the request with code '' @ show_nat (unat (head ! 1))))
       else rbind (if head ! 3 = ATYP_V4 then rbind (read_exact 4 c) (\<lambda>(octets, c). Ok (V4 (v4_of_octets octets), c))
           else if head ! 3 = ATYP_V6 then rbind (read_exact 16 c) (\<lambda>(octets, c). Ok (V6 (v6_of_octets octets), c))
           else if head ! 3 = ATYP_NAME then
             rbind (read_exact 1 c) (\<lambda>(len, c). rbind (read_exact (unat (len ! 0)) c) (\<lambda>(name, c).
               Ok (case parse_ip (from_utf8_lossy name) of Some ip \<Rightarrow> ip | None \<Rightarrow> V4 0, c)))
           else Err (Other (lit ''the upstream proxy sent address type '' @ show_nat (unat (head ! 3)) @ lit '', which aether cannot read'')))
         (\<lambda>(ip, c). rbind (read_exact 2 c) (\<lambda>(port, c). Ok (sock_new ip (from_be16 (port ! 0) (port ! 1)), c))))"

fun connect_head :: "bytes \<Rightarrow> bytes \<Rightarrow> (bytes \<times> bytes) aresult" where
  "connect_head [] head =
     (if 8192 < length head then Err (Other (lit ''the upstream proxy sent an oversized answer''))
      else Err (Other (lit ''the upstream proxy closed before answering the connect'')))"
| "connect_head (b # bs) head =
     (if 8192 < length head then Err (Other (lit ''the upstream proxy sent an oversized answer''))
      else let head = head @ [b]
        in if ends_with head head_end then Ok (head, bs) else connect_head bs head)"

definition http_status :: "bytes \<Rightarrow> nat option" where
  "http_status head =
     (case str_lines (from_utf8_lossy head) of
        [] \<Rightarrow> None
      | line # _ \<Rightarrow>
          (case split_whitespace line of
             version # token # _ \<Rightarrow> if starts_with version (lit ''HTTP/'') then parse_uint (2 ^ 16) token else None
           | _ \<Rightarrow> None))"

definition connect_request :: "(bytes \<Rightarrow> str) \<Rightarrow> upstream \<Rightarrow> str \<Rightarrow> bytes" where
  "connect_request base64 up auth =
     lit ''CONNECT '' @ auth @ lit '' HTTP/1.1'' @ crlf @ lit ''Host: '' @ auth @ crlf @
     lit ''Proxy-Connection: Keep-Alive'' @ crlf @
     (case up_user up of None \<Rightarrow> []
      | Some user \<Rightarrow> lit ''Proxy-Authorization: Basic '' @
          base64 (user @ lit '':'' @ (case up_password up of Some p \<Rightarrow> p | None \<Rightarrow> [])) @ crlf) @ crlf"

definition http_connect :: "(bytes \<Rightarrow> str) \<Rightarrow> upstream \<Rightarrow> str \<Rightarrow> conn \<Rightarrow> conn aresult" where
  "http_connect base64 up auth c0 =
     (let c = write_all (connect_request base64 up auth) c0
      in rbind (connect_head (c_in c) []) (\<lambda>(head, rest).
         case http_status head of
           None \<Rightarrow> Err (Other (lit ''the upstream proxy answer was not http''))
         | Some status \<Rightarrow>
             if \<not> (200 \<le> status \<and> status < 300)
             then Err (Other (lit ''the upstream proxy answered '' @ show_nat status @ lit '' to the connect''))
             else Ok (c\<lparr>c_in := rest\<rparr>)))"

definition open_through :: "(bytes \<Rightarrow> str) \<Rightarrow> upstream \<Rightarrow> conn aresult \<Rightarrow> bool \<Rightarrow> bytes \<Rightarrow> str \<Rightarrow> conn aresult" where
  "open_through base64 up connected in_time socks_request auth =
     (if \<not> in_time then Err (Other (lit ''the upstream proxy at '' @ endpoint up @ lit '' did not answer in time''))
      else rbind connected (\<lambda>c.
        case up_kind up of
          Socks5 \<Rightarrow> rbind (socks_greet up c) (\<lambda>c. rbind (read_reply (write_all socks_request c)) (\<lambda>(_, c). Ok c))
        | HttpProxy \<Rightarrow> http_connect base64 up auth c))"

definition connect_host :: "(str \<Rightarrow> str) \<Rightarrow> (bytes \<Rightarrow> str) \<Rightarrow> upstream \<Rightarrow> conn aresult \<Rightarrow> bool \<Rightarrow> str \<Rightarrow> u16 \<Rightarrow> conn aresult" where
  "connect_host debug base64 up connected in_time host port =
     (case parse_ip host of
        Some ip \<Rightarrow>
          (let target = sock_new ip port
           in open_through base64 up connected in_time (encode_request CMD_CONNECT target) (show_socket_addr target))
      | None \<Rightarrow>
          rbind (encode_name_request debug CMD_CONNECT host port) (\<lambda>request.
            open_through base64 up connected in_time request (host @ lit '':'' @ show_nat (unat port))))"

definition ip_is_unspecified :: "ip_addr \<Rightarrow> bool" where
  "ip_is_unspecified ip = (case ip of V4 a \<Rightarrow> v4_is_unspecified a | V6 a \<Rightarrow> v6_is_unspecified a)"

definition ip_is_loopback :: "ip_addr \<Rightarrow> bool" where
  "ip_is_loopback ip = (case ip of V4 a \<Rightarrow> v4_is_loopback a | V6 a \<Rightarrow> v6_is_loopback a)"

definition relay_address :: "(str \<Rightarrow> u16 \<Rightarrow> socket_addr list aresult) \<Rightarrow> socket_addr \<Rightarrow> str \<Rightarrow> u16 \<Rightarrow> socket_addr aresult" where
  "relay_address lookup bound host port =
     (if \<not> ip_is_unspecified (sock_ip bound) \<and> sock_port bound \<noteq> 0 then Ok bound
      else (let relay_port = (if sock_port bound = 0 then port else sock_port bound)
        in case parse_ip host of
             Some ip \<Rightarrow> Ok (sock_new ip relay_port)
           | None \<Rightarrow> rbind (lookup host relay_port) (\<lambda>found.
               case found of a # _ \<Rightarrow> Ok a
               | [] \<Rightarrow> Err (Other (host @ lit '' does not resolve to a usable relay address'')))))"

definition associate :: "(str \<Rightarrow> u16 \<Rightarrow> socket_addr list aresult) \<Rightarrow> upstream \<Rightarrow> conn aresult \<Rightarrow> bool \<Rightarrow> socket_addr aresult" where
  "associate lookup up connected in_time =
     (if up_kind up \<noteq> Socks5 then Err (Other (lit ''only a socks5 proxy can carry udp, an http proxy cannot''))
      else if \<not> in_time then Err (Other (lit ''the upstream proxy at '' @ endpoint up @ lit '' never opened a udp relay''))
      else rbind connected (\<lambda>c. rbind (socks_greet up c) (\<lambda>c.
        rbind (read_reply (write_all (encode_request CMD_ASSOCIATE (SockV4 0 0)) c)) (\<lambda>(bound, c).
          relay_address lookup bound (up_host up) (up_port up)))))"

section \<open>Detours\<close>

record detour =
  d_id :: nat
  d_shim :: socket_addr
  d_peer :: socket_addr

record detour_state =
  detours :: "socket_addr \<rightharpoonup> detour"
  next_id :: nat

definition relay_target :: "detour_state \<Rightarrow> socket_addr \<Rightarrow> socket_addr \<Rightarrow> socket_addr" where
  "relay_target s local intended = (case detours s local of Some d \<Rightarrow> d_shim d | None \<Rightarrow> intended)"

definition real_source :: "detour_state \<Rightarrow> socket_addr \<Rightarrow> socket_addr \<Rightarrow> socket_addr" where
  "real_source s local observed =
     (case detours s local of Some d \<Rightarrow> if d_shim d = observed then d_peer d else observed | None \<Rightarrow> observed)"

definition forget_detour :: "socket_addr \<Rightarrow> nat \<Rightarrow> detour_state \<Rightarrow> detour_state" where
  "forget_detour client ident s =
     (case detours s client of
        Some d \<Rightarrow> if d_id d = ident then s\<lparr>detours := (detours s)(client := None)\<rparr> else s
      | None \<Rightarrow> s)"

definition next_detour_id :: "detour_state \<Rightarrow> nat \<times> detour_state" where
  "next_detour_id s = (next_id s, s\<lparr>next_id := (next_id s + 1) mod 2 ^ 64\<rparr>)"

text \<open>\<open>attach_detour_via\<close> once the relay and the shim are there; the guard it returns.\<close>

definition attach_detour_via :: "socket_addr \<Rightarrow> socket_addr \<Rightarrow> socket_addr \<Rightarrow> detour_state \<Rightarrow> (socket_addr \<times> nat) option \<times> detour_state" where
  "attach_detour_via client shim peer s0 =
     (if is_private (sock_ip peer) then (None, s0)
      else (let (ident, s) = next_detour_id s0
        in (Some (client, ident), s\<lparr>detours := (detours s)(client \<mapsto> \<lparr>d_id = ident, d_shim = shim, d_peer = peer\<rparr>)\<rparr>)))"

definition guard_drop :: "(socket_addr \<times> nat) option \<Rightarrow> detour_state \<Rightarrow> detour_state" where
  "guard_drop guard s = (case guard of Some (client, ident) \<Rightarrow> forget_detour client ident s | None \<Rightarrow> s)"

definition from_detoured_socket :: "socket_addr \<Rightarrow> socket_addr \<Rightarrow> bool" where
  "from_detoured_socket client origin \<longleftrightarrow> sock_port origin = sock_port client \<and>
     (sock_ip origin = sock_ip client \<or> ip_is_unspecified (sock_ip client) \<and> ip_is_loopback (sock_ip origin))"

definition relay_recv :: "nat \<Rightarrow> bytes \<Rightarrow> (bytes \<times> socket_addr) option" where
  "relay_recv room datagram =
     (let framed = take (max room 2048 + 512) datagram
      in case decode_udp_header framed of
           None \<Rightarrow> None
         | Some (origin, offset) \<Rightarrow> Some (take room (drop offset framed), origin))"

datatype pump_event = FromClient socket_addr bytes | FromRelay bytes

datatype pump_output = ToRelay bytes | ToClient socket_addr bytes

definition pump_step :: "socket_addr \<Rightarrow> socket_addr \<Rightarrow> socket_addr option \<Rightarrow> pump_event \<Rightarrow> socket_addr option \<times> pump_output list" where
  "pump_step client peer reply_to ev =
     (case ev of
        FromClient origin data \<Rightarrow>
          if \<not> from_detoured_socket client origin then (reply_to, [])
          else (Some origin, [ToRelay (encode_udp_header peer @ take 65535 data)])
      | FromRelay datagram \<Rightarrow>
          (case relay_recv 65535 datagram of
             None \<Rightarrow> (reply_to, [])
           | Some (payload, _) \<Rightarrow>
               (case reply_to of Some to \<Rightarrow> (reply_to, [ToClient to payload]) | None \<Rightarrow> (reply_to, []))))"

fun pump :: "socket_addr \<Rightarrow> socket_addr \<Rightarrow> socket_addr option \<Rightarrow> pump_event list \<Rightarrow> pump_output list" where
  "pump client peer reply_to [] = []"
| "pump client peer reply_to (e # es) =
     (case pump_step client peer reply_to e of (reply_to, outs) \<Rightarrow> outs @ pump client peer reply_to es)"


section \<open>Headers and replies read back\<close>

lemma encode_address_V4: "sock_ip t = V4 a \<Longrightarrow> encode_address t = ATYP_V4 # v4_octets a @ be_bytes16 (sock_port t)"
  by (simp add: encode_address_def)

lemma encode_address_V6: "sock_ip t = V6 a \<Longrightarrow> encode_address t = ATYP_V6 # v6_octets a @ be_bytes16 (sock_port t)"
  by (simp add: encode_address_def)

lemma sub_mid: "length pre = i \<Longrightarrow> length x = n \<Longrightarrow> sub (pre @ x @ rest) i (i + n) = x"
  using sub_append_mid by blast

lemma field16_here: "length pre = i \<Longrightarrow> j = Suc i \<Longrightarrow>
    from_be16 ((pre @ be_bytes16 w @ rest) ! i) ((pre @ be_bytes16 w @ rest) ! j) = w"
proof -
  assume i: "length pre = i" and j: "j = Suc i"
  obtain a b where "be_bytes16 w = [a, b]" "from_be16 a b = w" by (rule be_bytes16_cases)
  with i j show ?thesis by (auto simp: nth_append)
qed

lemma decode_encode_header:
  "decode_udp_header (encode_udp_header t @ payload) =
     Some (sock_new (sock_ip t) (sock_port t), length (encode_udp_header t))"
proof (cases "sock_ip t")
  case (V4 a)
  let ?b = "[0, 0, 0, ATYP_V4] @ v4_octets a @ be_bytes16 (sock_port t) @ payload"
  have b: "encode_udp_header t @ payload = ?b" by (simp add: encode_udp_header_def encode_address_V4 [OF V4])
  have "sub ?b 4 8 = v4_octets a" using sub_mid [of "[0, 0, 0, ATYP_V4]" 4 "v4_octets a" 4] by simp
  moreover have "from_be16 (?b ! 8) (?b ! 9) = sock_port t"
    using field16_here [of "[0, 0, 0, ATYP_V4] @ v4_octets a" 8 9 "sock_port t" payload] by simp
  ultimately show ?thesis
    unfolding b decode_udp_header_def by (simp add: V4 encode_udp_header_def encode_address_V4 [OF V4] numeral_3_eq_3)
next
  case (V6 a)
  let ?b = "[0, 0, 0, ATYP_V6] @ v6_octets a @ be_bytes16 (sock_port t) @ payload"
  have b: "encode_udp_header t @ payload = ?b" by (simp add: encode_udp_header_def encode_address_V6 [OF V6])
  have "sub ?b 4 20 = v6_octets a" using sub_mid [of "[0, 0, 0, ATYP_V6]" 4 "v6_octets a" 16] by simp
  moreover have "from_be16 (?b ! 20) (?b ! 21) = sock_port t"
    using field16_here [of "[0, 0, 0, ATYP_V6] @ v6_octets a" 20 21 "sock_port t" payload] by simp
  ultimately show ?thesis
    unfolding b decode_udp_header_def
    by (simp add: V6 encode_udp_header_def encode_address_V6 [OF V6] numeral_3_eq_3 ATYP_V6_def ATYP_V4_def)
qed

lemma read_exact_append: "length b = n \<Longrightarrow> read_exact n \<lparr>c_in = b @ r, c_out = w\<rparr> = Ok (b, \<lparr>c_in = r, c_out = w\<rparr>)"
  by (auto simp: read_exact_def)

lemma read_port:
  "rbind (read_exact 2 \<lparr>c_in = be_bytes16 p @ r, c_out = w\<rparr>) (\<lambda>(port, c). Ok (sock_new ip (from_be16 (port ! 0) (port ! 1)), c)) =
    Ok (sock_new ip p, \<lparr>c_in = r, c_out = w\<rparr>)"
proof -
  obtain a b where "be_bytes16 p = [a, b]" "from_be16 a b = p" by (rule be_bytes16_cases)
  then show ?thesis using read_exact_append [of "[a, b]" 2 r w] by simp
qed

lemma read_reply_written:
  "read_reply \<lparr>c_in = [VER, REP_OK, r] @ encode_address t @ rest, c_out = w\<rparr> =
     Ok (sock_new (sock_ip t) (sock_port t), \<lparr>c_in = rest, c_out = w\<rparr>)"
proof (cases "sock_ip t")
  case (V4 a)
  have head: "read_exact 4 \<lparr>c_in = [VER, REP_OK, r, ATYP_V4] @ v4_octets a @ be_bytes16 (sock_port t) @ rest, c_out = w\<rparr> =
      Ok ([VER, REP_OK, r, ATYP_V4], \<lparr>c_in = v4_octets a @ be_bytes16 (sock_port t) @ rest, c_out = w\<rparr>)"
    by (rule read_exact_append) simp
  show ?thesis
    using head read_exact_append [of "v4_octets a" 4 "be_bytes16 (sock_port t) @ rest" w] read_port [of "sock_port t" rest w "V4 a"]
    by (simp add: read_reply_def encode_address_V4 [OF V4] V4 numeral_3_eq_3)
next
  case (V6 a)
  have head: "read_exact 4 \<lparr>c_in = [VER, REP_OK, r, ATYP_V6] @ v6_octets a @ be_bytes16 (sock_port t) @ rest, c_out = w\<rparr> =
      Ok ([VER, REP_OK, r, ATYP_V6], \<lparr>c_in = v6_octets a @ be_bytes16 (sock_port t) @ rest, c_out = w\<rparr>)"
    by (rule read_exact_append) simp
  show ?thesis
    using head read_exact_append [of "v6_octets a" 16 "be_bytes16 (sock_port t) @ rest" w] read_port [of "sock_port t" rest w "V6 a"]
    by (simp add: read_reply_def encode_address_V6 [OF V6] V6 numeral_3_eq_3 ATYP_V6_def ATYP_V4_def)
qed

text \<open>An address survives the relay: the header put before a datagram decodes to the target's
  address and port and to where the payload starts, for every address and payload, and the
  proxy's reply with an address gives that address and leaves the stream after it.\<close>

lemma relay_header_roundtrip:
  "decode_udp_header (encode_udp_header t @ payload) =
     Some (sock_new (sock_ip t) (sock_port t), length (encode_udp_header t)) \<and>
   read_reply \<lparr>c_in = [VER, REP_OK, r] @ encode_address t @ rest, c_out = w\<rparr> =
     Ok (sock_new (sock_ip t) (sock_port t), \<lparr>c_in = rest, c_out = w\<rparr>)"
  using decode_encode_header read_reply_written by blast


section \<open>The setting read back\<close>

lemma trim_seqs_plain: "list_all (\<lambda>q. q = [] \<or> hd q \<noteq> c) qs \<Longrightarrow> trim_seqs qs (c # s) = c # s"
proof -
  assume "list_all (\<lambda>q. q = [] \<or> hd q \<noteq> c) qs"
  then have "strip_seqs qs (c # s) = 0"
    by (induction qs) (auto simp: starts_with_def neq_Nil_conv)
  then show ?thesis by (simp add: trim_seqs.simps)
qed

lemma trim_plain:
  assumes "list_all (\<lambda>q. q = [] \<or> hd q \<noteq> c) ws_seqs" "list_all (\<lambda>q. q = [] \<or> hd q \<noteq> e) (map rev ws_seqs)"
  shows "trim (c # s @ [e]) = c # s @ [e]"
  using trim_seqs_plain [OF assms(1), of "s @ [e]"] trim_seqs_plain [OF assms(2), of "rev s @ [c]"]
  by (simp add: trim_def trim_start_def trim_end_def)

lemma digit_not_space: "is_ascii_digit e \<Longrightarrow> list_all (\<lambda>q. q = [] \<or> hd q \<noteq> e) (map rev ws_seqs)"
  by (auto simp: ws_seqs_def is_ascii_digit_def word_le_nat_alt)

lemma hex_digits: "k < 16 \<Longrightarrow> hex_digit_value (upper_hex k) = Some k \<and> upper_hex k < 128 \<and> upper_hex k \<noteq> 43 \<and>
    upper_hex k \<noteq> 58 \<and> upper_hex k \<noteq> 64"
proof -
  have "list_all (\<lambda>k. hex_digit_value (upper_hex k) = Some k \<and> upper_hex k < 128 \<and> upper_hex k \<noteq> 43 \<and>
    upper_hex k \<noteq> 58 \<and> upper_hex k \<noteq> 64) [0..<16]" by code_simp
  then show "k < 16 \<Longrightarrow> ?thesis" by (auto simp: list_all_iff)
qed

lemma utf8_valid_ascii: "is_ascii s \<Longrightarrow> utf8_valid s"
proof (induction s)
  case (Cons b s)
  then show ?case by (subst utf8_valid.simps) (simp add: is_ascii_def utf8_step_ascii)
qed (simp add: utf8_valid.simps)

lemma hex_byte_upper: "hex_byte [upper_hex (unat b div 16), upper_hex (unat b mod 16)] = Some b"
proof -
  have lt: "unat b div 16 < 16" "unat b mod 16 < 16" using unat_byte_less [of b] by (simp_all del: unat_byte_less)
  note h = hex_digits [OF lt(1)] hex_digits [OF lt(2)]
  have "utf8_valid [upper_hex (unat b div 16), upper_hex (unat b mod 16)]"
    using h by (intro utf8_valid_ascii) (simp add: is_ascii_def)
  moreover have "parse_hex [upper_hex (unat b div 16), upper_hex (unat b mod 16)] = Some (unat b)"
    using h lt unat_byte_less [of b] by (simp add: parse_hex_def to_digit_def del: unat_byte_less)
  ultimately show ?thesis using unat_byte_less [of b] by (simp add: hex_byte_def)
qed

lemma percent_encode_simps [simp]:
  "percent_encode [] = []"
  "percent_encode (b # v) = (if unreserved b then [b] else [37, upper_hex (unat b div 16), upper_hex (unat b mod 16)]) @ percent_encode v"
  by (simp_all add: percent_encode_def)

lemma decode_encode_bytes: "percent_decode_bytes (percent_encode v) = v"
proof (induction v)
  case (Cons b v)
  then show ?case
    by (cases "unreserved b")
      (auto simp: unreserved_def is_ascii_alphanumeric_def is_ascii_digit_def is_ascii_alpha_def hex_byte_upper)
qed simp

lemma percent_roundtrip: "utf8_valid v \<Longrightarrow> percent_decode (percent_encode v) = v"
  by (simp add: percent_decode_def decode_encode_bytes from_utf8_lossy_valid)

lemma percent_encode_set: "x \<in> set (percent_encode v) \<Longrightarrow> x \<noteq> 58 \<and> x \<noteq> 64"
proof (induction v)
  case (Cons b v)
  have lt: "unat b div 16 < 16" "unat b mod 16 < 16" using unat_byte_less [of b] by (simp_all del: unat_byte_less)
  from Cons hex_digits [OF lt(1)] hex_digits [OF lt(2)] show ?case
    by (auto simp: unreserved_def is_ascii_alphanumeric_def is_ascii_digit_def is_ascii_alpha_def split: if_splits)
qed simp

definition proxy_host :: "str \<Rightarrow> bool" where
  "proxy_host host \<longleftrightarrow> host \<noteq> [] \<and> 64 \<notin> set host \<and> (if 58 \<in> set host then 93 \<notin> set host else hd host \<noteq> 91)"

definition valid_upstream :: "upstream \<Rightarrow> bool" where
  "valid_upstream up \<longleftrightarrow> proxy_host (up_host up) \<and> up_port up \<noteq> 0 \<and>
     (case up_user up of None \<Rightarrow> up_password up = None | Some u \<Rightarrow> utf8_valid u) \<and>
     (case up_password up of None \<Rightarrow> True | Some p \<Rightarrow> utf8_valid p)"

definition port_text :: "u16 \<Rightarrow> str" where
  "port_text p = show_nat (unat p)"

lemma port_text_digits: "port_text p \<noteq> []" "x \<in> set (port_text p) \<Longrightarrow> is_ascii_digit x"
  using show_nat_digits [of "unat p"] by (auto simp: port_text_def list_all_iff)

lemma port_text_set: "58 \<notin> set (port_text p)" "64 \<notin> set (port_text p)"
  using port_text_digits(2) [of 58 p] port_text_digits(2) [of 64 p] by (auto simp: is_ascii_digit_def)

lemma parse_port_text: "parse_u16 (port_text p) = Some p"
proof -
  have "unat p < 2 ^ 16" using unsigned_less [of p, where 'a = nat] by simp
  then show ?thesis by (simp add: parse_u16_def port_text_def parse_show_nat)
qed

lemma last_port_text: "is_ascii_digit (last (port_text p))"
  using port_text_digits by (metis last_in_set)

lemma split_endpoint_written:
  assumes "proxy_host host" "p \<noteq> 0"
  shows "split_endpoint (trim_end_matches 47 (bracketed host @ 58 # port_text p)) = Ok (host, p)"
proof -
  let ?e = "bracketed host @ 58 # port_text p"
  have "last ?e = last (port_text p)" using port_text_digits(1) [of p] by simp
  then have "last ?e \<noteq> 47" using last_port_text [of p] by (auto simp: is_ascii_digit_def)
  then have trim: "trim_end_matches 47 ?e = ?e" by (intro trim_end_matches_plain) simp
  show ?thesis
  proof (cases "58 \<in> set host")
    case True
    have "split_once 93 (host @ 93 # 58 # port_text p) = Some (host, 58 # port_text p)"
      using assms(1) True by (simp add: split_once_Some proxy_host_def)
    with True assms parse_port_text [of p] show ?thesis
      unfolding trim by (simp add: split_endpoint_def bracketed_def strip_prefix_def starts_with_def proxy_host_def)
  next
    case False
    obtain c h where h: "host = c # h" "c \<noteq> 91" using assms(1) False by (cases host) (auto simp: proxy_host_def)
    have "rsplit_once 58 (host @ 58 # port_text p) = Some (host, port_text p)"
      using port_text_set(1) by (simp add: rsplit_once_Some)
    with False assms parse_port_text [of p] h show ?thesis
      unfolding trim by (simp add: split_endpoint_def bracketed_def strip_prefix_def starts_with_def proxy_host_def)
  qed
qed


definition scheme_of :: "proxy_kind \<Rightarrow> str" where
  "scheme_of k = (case k of Socks5 \<Rightarrow> lit ''socks5'' | HttpProxy \<Rightarrow> lit ''http'')"

lemma scheme_facts:
  assumes "ascii_lowercases lc"
  shows "lc (scheme_of k) = scheme_of k" "ends_first (lit ''://'') (scheme_of k)"
    "\<exists>c r. scheme_of k = c # r \<and> list_all (\<lambda>q. q = [] \<or> hd q \<noteq> c) ws_seqs" "scheme_of k \<noteq> lit ''https''"
    "(if scheme_of k \<in> {lit ''socks5'', lit ''socks5h'', lit ''socks''} then Some Socks5
      else if scheme_of k \<in> {lit ''http'', lit ''https''} then Some HttpProxy else None) = Some k"
proof -
  have "is_ascii (scheme_of k)" by (cases k) (simp_all add: scheme_of_def is_ascii_def)
  then show "lc (scheme_of k) = scheme_of k"
    using assms by (cases k) (simp_all add: ascii_lowercases_def scheme_of_def to_ascii_lowercase_def lower_byte_def)
  show "ends_first (lit ''://'') (scheme_of k)"
    by (cases k) (simp_all add: scheme_of_def ends_first_def starts_with_def)
  show "\<exists>c r. scheme_of k = c # r \<and> list_all (\<lambda>q. q = [] \<or> hd q \<noteq> c) ws_seqs"
    by (cases k) (simp_all add: scheme_of_def ws_seqs_def)
  show "scheme_of k \<noteq> lit ''https''"
    "(if scheme_of k \<in> {lit ''socks5'', lit ''socks5h'', lit ''socks''} then Some Socks5
      else if scheme_of k \<in> {lit ''http'', lit ''https''} then Some HttpProxy else None) = Some k"
    by (cases k; simp add: scheme_of_def)+
qed

lemma split_scheme:
  assumes "ends_first (lit ''://'') t"
  shows "split_once_str (lit ''://'') (t @ lit ''://'' @ rest) = Some (t, rest)"
  using ends_first_found [OF assms, of "[]" 0 rest] by (simp add: split_once_str_def pos_from_def)

definition url_pair :: "upstream \<Rightarrow> str option" where
  "url_pair up = map_option (\<lambda>user. percent_encode user @
     (case up_password up of Some password \<Rightarrow> 58 # percent_encode password | None \<Rightarrow> [])) (up_user up)"

lemma url_credentials_pair:
  "url_credentials up = (case url_pair up of None \<Rightarrow> [] | Some pair \<Rightarrow> pair @ [64])"
  by (simp add: url_credentials_def url_pair_def split: option.splits)

lemma rsplit_credentials:
  assumes "64 \<notin> set h"
  shows "(case rsplit_once 64 (url_credentials up @ h) of Some (c, e) \<Rightarrow> (Some c, e) | None \<Rightarrow> (None, url_credentials up @ h)) = (url_pair up, h)"
proof (cases "url_pair up")
  case None
  with assms show ?thesis by (simp add: url_credentials_pair rsplit_once_None [THEN iffD2])
next
  case (Some pair)
  have "rsplit_once 64 (pair @ 64 # h) = Some (pair, h)" using assms by (simp add: rsplit_once_Some)
  with Some show ?thesis by (simp add: url_credentials_pair)
qed

lemma pair_decoded:
  assumes "valid_upstream up"
  shows "(case url_pair up of
        Some pair \<Rightarrow> (case split_once 58 pair of
            Some (u, p) \<Rightarrow> (Some (percent_decode u), Some (percent_decode p))
          | None \<Rightarrow> (Some (percent_decode pair), None))
      | None \<Rightarrow> (None, None)) = (up_user up, up_password up)"
proof (cases "up_user up")
  case None
  with assms show ?thesis by (simp add: valid_upstream_def url_pair_def)
next
  case (Some u)
  then have u: "percent_decode (percent_encode u) = u" using assms by (simp add: valid_upstream_def percent_roundtrip)
  have c: "58 \<notin> set (percent_encode u)" using percent_encode_set by blast
  show ?thesis
  proof (cases "up_password up")
    case None
    with Some u c show ?thesis by (simp add: url_pair_def split_once_None [THEN iffD2])
  next
    case p: (Some p)
    then have "percent_decode (percent_encode p) = p" using assms by (simp add: valid_upstream_def percent_roundtrip)
    moreover have "split_once 58 (percent_encode u @ 58 # percent_encode p) = Some (percent_encode u, percent_encode p)"
      using c by (simp add: split_once_Some)
    ultimately show ?thesis using Some p u by (simp add: url_pair_def)
  qed
qed

lemma trim_url: "trim (scheme_of k @ x @ port_text p) = scheme_of k @ x @ port_text p"
proof -
  obtain c r where c: "scheme_of k = c # r" "list_all (\<lambda>q. q = [] \<or> hd q \<noteq> c) ws_seqs"
    using scheme_facts(3) [of to_ascii_lowercase k] by (auto simp: ascii_lowercases_def)
  obtain d e where e: "port_text p = d @ [e]" using port_text_digits(1) by (metis append_butlast_last_id)
  then have "list_all (\<lambda>q. q = [] \<or> hd q \<noteq> e) (map rev ws_seqs)"
    using last_port_text [of p] by (intro digit_not_space) simp
  from trim_plain [OF c(2) this, of "r @ x @ d"] show ?thesis unfolding c(1) e by simp
qed

lemma upstream_roundtrip:
  assumes "valid_upstream up" "ascii_lowercases lc"
  shows "upstream_parse lc (psiphon_url up) = Ok up"
proof -
  note k = scheme_facts [OF assms(2), of "up_kind up"]
  let ?h = "bracketed (up_host up) @ 58 # port_text (up_port up)"
  have url: "psiphon_url up = scheme_of (up_kind up) @ lit ''://'' @ url_credentials up @ ?h"
    by (simp add: psiphon_url_def scheme_of_def port_text_def split: proxy_kind.splits)
  have host: "proxy_host (up_host up)" "up_port up \<noteq> 0" using assms(1) by (simp_all add: valid_upstream_def)
  have trim: "trim (psiphon_url up) = psiphon_url up"
    using trim_url [of "up_kind up" "lit ''://'' @ url_credentials up @ bracketed (up_host up) @ [58]" "up_port up"]
    unfolding url by (simp del: lit_Cons)
  have at: "64 \<notin> set ?h" using host port_text_set(2) by (auto simp: bracketed_def proxy_host_def)
  show ?thesis
    unfolding upstream_parse_def trim Let_def
    unfolding url split_scheme [OF k(2)] option.case prod.case k(1) rsplit_credentials [OF at] k(5)
      split_endpoint_written [OF host] rbind.simps pair_decoded [OF assms(1)]
    using k(4) by simp
qed

text \<open>C31. The proxy setting round trips: a proxy written as the address psiphon takes, with its
  credentials percent-encoded, is parsed back to the same proxy: kind, host (an IPv6 one in
  brackets), port, user and password, whatever bytes the credentials have, an \<open>@\<close>, a colon
  or a percent sign among them.\<close>

theorem upstream_url_roundtrip:
  assumes "valid_upstream up" and "ascii_lowercases lc"
  shows "upstream_parse lc (psiphon_url up) = Ok up"
  using upstream_roundtrip [OF assms] .

theorem upstream_url_roundtrip_witness:
  "upstream_parse to_ascii_lowercase (psiphon_url \<lparr>up_kind = HttpProxy, up_host = lit ''::1'', up_port = 8080,
     up_user = Some (lit ''a@b''), up_password = Some (lit ''p:%'')\<rparr>) =
   Ok \<lparr>up_kind = HttpProxy, up_host = lit ''::1'', up_port = 8080, up_user = Some (lit ''a@b''), up_password = Some (lit ''p:%'')\<rparr>"
proof (rule upstream_url_roundtrip)
  have "utf8_valid (lit ''a@b'')" "utf8_valid (lit ''p:%'')" by code_simp+
  then show "valid_upstream \<lparr>up_kind = HttpProxy, up_host = lit ''::1'', up_port = 8080,
     up_user = Some (lit ''a@b''), up_password = Some (lit ''p:%'')\<rparr>"
    by (simp add: valid_upstream_def proxy_host_def)
  show "ascii_lowercases to_ascii_lowercase" by (simp add: ascii_lowercases_def)
qed


section \<open>A detour stays until it is closed\<close>

datatype detour_event = Attach socket_addr socket_addr socket_addr | Close_detour socket_addr nat

fun detour_event_step :: "detour_event \<Rightarrow> detour_state \<Rightarrow> detour_state" where
  "detour_event_step (Attach client shim peer) s = snd (attach_detour_via client shim peer s)"
| "detour_event_step (Close_detour client ident) s = guard_drop (Some (client, ident)) s"

text \<open>Events that neither attach the socket again nor close this detour of it.\<close>

fun leaves_detour :: "socket_addr \<Rightarrow> nat \<Rightarrow> detour_event \<Rightarrow> bool" where
  "leaves_detour client ident (Attach c shim peer) \<longleftrightarrow> c \<noteq> client"
| "leaves_detour client ident (Close_detour c i) \<longleftrightarrow> (c, i) \<noteq> (client, ident)"

lemma detour_event_keeps:
  assumes "detours s client = Some d" "leaves_detour client (d_id d) e"
  shows "detours (detour_event_step e s) client = Some d"
  using assms
  by (cases e) (auto simp: attach_detour_via_def next_detour_id_def guard_drop_def forget_detour_def Let_def
      split: option.splits)

lemma detour_run_keeps:
  assumes "detours s client = Some d" "list_all (leaves_detour client (d_id d)) es"
  shows "detours (fold detour_event_step es s) client = Some d"
  using assms
proof (induction es arbitrary: s)
  case (Cons e es)
  then have "detours (detour_event_step e s) client = Some d" by (intro detour_event_keeps) simp_all
  from Cons.IH [OF this] Cons.prems(2) show ?case by simp
qed simp



section \<open>The relay carries one socket's datagrams\<close>

fun pump_allowed :: "socket_addr \<Rightarrow> socket_addr \<Rightarrow> pump_event list \<Rightarrow> pump_output \<Rightarrow> bool" where
  "pump_allowed client peer es (ToRelay b) \<longleftrightarrow>
     (\<exists>origin data. FromClient origin data \<in> set es \<and> from_detoured_socket client origin \<and> b = encode_udp_header peer @ take 65535 data)"
| "pump_allowed client peer es (ToClient to payload) \<longleftrightarrow>
     from_detoured_socket client to \<and> (\<exists>datagram origin. FromRelay datagram \<in> set es \<and> relay_recv 65535 datagram = Some (payload, origin))"

lemma pump_allowed_mono: "pump_allowed client peer es out \<Longrightarrow> set es \<subseteq> set es' \<Longrightarrow> pump_allowed client peer es' out"
  by (cases out) auto

lemma pump_outputs:
  assumes "\<And>to. reply_to = Some to \<Longrightarrow> from_detoured_socket client to" "out \<in> set (pump client peer reply_to es)"
  shows "pump_allowed client peer es out"
  using assms
proof (induction es arbitrary: reply_to)
  case (Cons e es)
  obtain r outs where step: "pump_step client peer reply_to e = (r, outs)" by (cases "pump_step client peer reply_to e")
  have r: "r = Some to \<Longrightarrow> from_detoured_socket client to" for to
    using step Cons.prems(1) by (auto simp: pump_step_def split: pump_event.splits option.splits if_splits)
  have "out \<in> set outs \<Longrightarrow> pump_allowed client peer (e # es) out"
    using step Cons.prems(1) by (auto simp: pump_step_def split: pump_event.splits option.splits if_splits) blast+
  moreover have "out \<in> set (pump client peer r es) \<Longrightarrow> pump_allowed client peer (e # es) out"
    using Cons.IH [OF r] pump_allowed_mono [of client peer es out "e # es"] by auto
  ultimately show ?case using Cons.prems(2) step by auto
qed simp


text \<open>C32. The relay task serves its socket only: whatever arrives at the shim and from the relay,
  in any order, a datagram goes to the relay only if the detoured socket sent it, with the
  peer as its target and its bytes unchanged, and one goes back only to that socket, with the
  payload of a datagram the relay delivered under a well-formed header.\<close>

theorem pump_serves_one_socket:
  assumes "out \<in> set (pump client peer None es)"
  shows "case out of
      ToRelay b \<Rightarrow> \<exists>origin data. FromClient origin data \<in> set es \<and> from_detoured_socket client origin \<and> b = encode_udp_header peer @ take 65535 data
    | ToClient to payload \<Rightarrow> from_detoured_socket client to \<and>
        (\<exists>datagram origin. FromRelay datagram \<in> set es \<and> relay_recv 65535 datagram = Some (payload, origin))"
  using pump_outputs [of None client out peer es] assms by (cases out) auto

theorem pump_serves_one_socket_witness:
  "ToRelay (encode_udp_header (SockV4 0x08080808 443) @ [1, 2]) \<in>
     set (pump (SockV4 0 7) (SockV4 0x08080808 443) None [FromClient (SockV4 5 6) [9], FromClient (SockV4 0 7) [1, 2]]) \<and>
   (\<exists>origin data. FromClient origin data \<in> set [FromClient (SockV4 5 6) [9], FromClient (SockV4 0 7) [1, 2]] \<and>
     from_detoured_socket (SockV4 0 7) origin)"
proof -
  let ?es = "[FromClient (SockV4 5 6) [9], FromClient (SockV4 0 7) [1, 2]]"
  have m: "ToRelay (encode_udp_header (SockV4 0x08080808 443) @ [1, 2]) \<in> set (pump (SockV4 0 7) (SockV4 0x08080808 443) None ?es)"
    by (simp add: pump_step_def from_detoured_socket_def)
  from pump_serves_one_socket [OF m] m show ?thesis by auto
qed

end
