(* ===== verification/Socks_Wire.thy ===== *)
theory Socks_Wire
  imports Upstream Dns Sniff
begin

text \<open>
  The wire formats of \<open>socks.rs\<close>: the SOCKS5 handshake and request a client sends, the replies,
  the UDP request and reply headers, and the resolver that asks for a name inside the tunnel.  The
  constants \<open>VER\<close>, \<open>CMD_CONNECT\<close>, \<open>ATYP_V4\<close>, \<open>ATYP_V6\<close> and \<open>REP_OK\<close> are those of \<open>upstream.rs\<close>,
  which declares the same values.  What comes over a connection is a list of bytes, what the
  resolver receives a list of events.
\<close>

definition CMD_UDP_ASSOCIATE :: byte where "CMD_UDP_ASSOCIATE = 0x03"
definition ATYP_DOMAIN :: byte where "ATYP_DOMAIN = 0x03"
definition REP_GENERAL :: byte where "REP_GENERAL = 0x01"
definition REP_NOT_ALLOWED :: byte where "REP_NOT_ALLOWED = 0x02"
definition REP_NOT_SUPPORTED :: byte where "REP_NOT_SUPPORTED = 0x07"

lemmas server_consts = CMD_UDP_ASSOCIATE_def ATYP_DOMAIN_def REP_GENERAL_def REP_NOT_ALLOWED_def REP_NOT_SUPPORTED_def

datatype target = IpTarget ip_addr | DomainTarget str

fun show_target :: "target \<Rightarrow> str" where
  "show_target (IpTarget ip) = show_ip ip"
| "show_target (DomainTarget name) = name"

fun host_of :: "target \<Rightarrow> host" where
  "host_of (DomainTarget name) = Domain name"
| "host_of (IpTarget ip) = Ip ip"

section \<open>Requests and replies\<close>

definition handshake :: "conn \<Rightarrow> conn aresult" where
  "handshake c =
     rbind (read_exact 2 c) (\<lambda>(prefix, c).
       if prefix ! 0 \<noteq> VER then Err (Other (lit ''bad greeting version''))
       else rbind (read_exact (unat (prefix ! 1)) c) (\<lambda>(_, c). Ok (write_all [VER, 0x00] c)))"

definition read_target :: "byte \<Rightarrow> conn \<Rightarrow> (target \<times> u16 \<times> conn) aresult" where
  "read_target atyp c =
     rbind (if atyp = ATYP_V4 then rbind (read_exact 4 c) (\<lambda>(b, c). Ok (IpTarget (V4 (v4_of_octets b)), c))
         else if atyp = ATYP_V6 then rbind (read_exact 16 c) (\<lambda>(b, c). Ok (IpTarget (V6 (v6_of_octets b)), c))
         else if atyp = ATYP_DOMAIN then
           rbind (read_exact 1 c) (\<lambda>(len, c). rbind (read_exact (unat (len ! 0)) c) (\<lambda>(name, c).
             Ok (DomainTarget (from_utf8_lossy name), c)))
         else Err (Other (lit ''bad atyp'')))
       (\<lambda>(target, c). rbind (read_exact 2 c) (\<lambda>(port, c). Ok (target, from_be16 (port ! 0) (port ! 1), c)))"

definition read_request :: "conn \<Rightarrow> (byte \<times> target \<times> u16 \<times> conn) aresult" where
  "read_request c =
     rbind (handshake c) (\<lambda>c. rbind (read_exact 4 c) (\<lambda>(head, c).
       if head ! 0 \<noteq> VER then Err (Other (lit ''bad socks version''))
       else rbind (read_target (head ! 3) c) (\<lambda>(target, port, c). Ok (head ! 1, target, port, c))))"

definition reply :: "byte \<Rightarrow> bytes" where
  "reply code = [VER, code, 0x00, ATYP_V4, 0, 0, 0, 0, 0, 0]"

definition reply_bound :: "socket_addr \<Rightarrow> bytes" where
  "reply_bound bound =
     [VER, REP_OK, 0x00] @
     (case sock_ip bound of
        V4 v4 \<Rightarrow> ATYP_V4 # v4_octets v4
      | V6 v6 \<Rightarrow> ATYP_V6 # v6_octets v6) @ be_bytes16 (sock_port bound)"

section \<open>UDP requests and replies\<close>

definition parse_udp_request :: "bytes \<Rightarrow> ((target \<times> u16 \<times> bytes) option, unit) res" where
  "parse_udp_request buf =
     (let after = (\<lambda>target pos.
            if length buf < pos + 2 then Ok None
            else rbind (idx buf pos) (\<lambda>p0. rbind (idx buf (pos + 1)) (\<lambda>p1.
              Ok (Some (target, from_be16 p0 p1, drop (pos + 2) buf)))))
      in if length buf < 4 then Ok None
         else rbind (idx buf 2) (\<lambda>frag. if frag \<noteq> 0 then Ok None
         else rbind (idx buf 3) (\<lambda>atyp.
           if atyp = ATYP_V4 then
             (if length buf < 8 then Ok None
              else rbind (idx_range buf 4 8) (\<lambda>b. after (IpTarget (V4 (v4_of_octets b))) 8))
           else if atyp = ATYP_V6 then
             (if length buf < 20 then Ok None
              else rbind (idx_range buf 4 20) (\<lambda>b. after (IpTarget (V6 (v6_of_octets b))) 20))
           else if atyp = ATYP_DOMAIN then
             (case get_at buf 4 of
                None \<Rightarrow> Ok None
              | Some len \<Rightarrow>
                  if length buf < 5 + unat len then Ok None
                  else rbind (idx_range buf 5 (5 + unat len)) (\<lambda>name.
                    after (DomainTarget (from_utf8_lossy name)) (5 + unat len)))
           else Ok None)))"

definition build_udp_reply :: "socket_addr \<Rightarrow> bytes \<Rightarrow> bytes" where
  "build_udp_reply src data =
     [0x00, 0x00, 0x00] @
     (case sock_ip src of
        V4 v4 \<Rightarrow> ATYP_V4 # v4_octets v4
      | V6 v6 \<Rightarrow> ATYP_V6 # v6_octets v6) @ be_bytes16 (sock_port src) @ data"

section \<open>Names resolved inside the tunnel\<close>

definition QTYPE_A :: u16 where "QTYPE_A = 1"
definition QTYPE_AAAA :: u16 where "QTYPE_AAAA = 28"
definition RCODE_NXDOMAIN :: byte where "RCODE_NXDOMAIN = 3"

datatype dns_answer = Found ip_addr | NoRecord | NoSuchName

definition dns_rcode :: "bytes \<Rightarrow> byte option" where
  "dns_rcode resp = map_option (\<lambda>flags. flags AND 0x0f) (get_at resp 3)"

definition build_dns_query :: "u16 \<Rightarrow> str \<Rightarrow> u16 \<Rightarrow> bytes \<times> u16" where
  "build_dns_query ident name qtype =
     (be_bytes16 ident @ [0x01, 0x00] @ [0x00, 0x01] @ [0x00, 0x00, 0x00, 0x00, 0x00, 0x00] @
      concat (map (\<lambda>label. word_of_nat (length label) # label) (split_on 46 name)) @
      [0x00] @ be_bytes16 qtype @ [0x00, 0x01], ident)"

text \<open>\<open>dns_response_matches\<close> and \<open>skip_name\<close> are the functions of \<open>dns.rs\<close> once more, with another
  name for the message.\<close>

definition dns_response_matches :: "bytes \<Rightarrow> u16 \<Rightarrow> str \<Rightarrow> u16 \<Rightarrow> (bool, unit) res" where
  "dns_response_matches resp expected_id expected_name expected_qtype =
     response_matches resp expected_id expected_name expected_qtype"

fun answer_records :: "nat \<Rightarrow> bytes \<Rightarrow> u16 \<Rightarrow> nat \<Rightarrow> (ip_addr option, unit) res" where
  "answer_records 0 resp qtype pos = Ok None"
| "answer_records (Suc n) resp qtype pos =
     (case skip_name resp pos of
        None \<Rightarrow> Ok None
      | Some pos \<Rightarrow>
          if pos + 10 > length resp then Ok None
          else rbind (idx resp pos) (\<lambda>t0. rbind (idx resp (pos + 1)) (\<lambda>t1.
               rbind (idx resp (pos + 8)) (\<lambda>l0. rbind (idx resp (pos + 9)) (\<lambda>l1.
                 let rtype = from_be16 t0 t1; rdlen = unat (from_be16 l0 l1); pos = pos + 10
                 in if pos + rdlen > length resp then Ok None
                    else if rtype = qtype \<and> qtype = QTYPE_A \<and> rdlen = 4 then
                      rbind (idx_range resp pos (pos + 4)) (\<lambda>octets. Ok (Some (V4 (v4_of_octets octets))))
                    else if rtype = qtype \<and> qtype = QTYPE_AAAA \<and> rdlen = 16 then
                      rbind (idx_range resp pos (pos + 16)) (\<lambda>octets. Ok (Some (V6 (v6_of_octets octets))))
                    else answer_records n resp qtype (pos + rdlen))))))"

definition parse_dns_answer :: "bytes \<Rightarrow> u16 \<Rightarrow> (ip_addr option, unit) res" where
  "parse_dns_answer resp qtype =
     (if length resp < 12 then Ok None
      else rbind (idx resp 4) (\<lambda>q0. rbind (idx resp 5) (\<lambda>q1.
           rbind (idx resp 6) (\<lambda>a0. rbind (idx resp 7) (\<lambda>a1.
             case skip_questions (unat (from_be16 q0 q1)) resp 12 of
               None \<Rightarrow> Ok None
             | Some pos \<Rightarrow> answer_records (unat (from_be16 a0 a1)) resp qtype pos)))))"

definition add_server :: "str \<Rightarrow> socket_addr list \<Rightarrow> socket_addr list" where
  "add_server token servers =
     (let entry = trim token
      in if entry = [] then servers
         else (case (case parse_socket_addr entry of Some server \<Rightarrow> Some server
                     | None \<Rightarrow> map_option (\<lambda>ip. sock_new ip 53) (parse_ip entry)) of
                 None \<Rightarrow> servers
               | Some server \<Rightarrow> if server \<in> set servers then servers else servers @ [server]))"

definition resolver_addresses :: "str option \<Rightarrow> socket_addr list" where
  "resolver_addresses aether_dns =
     (let configured = (case aether_dns of Some text \<Rightarrow> text | None \<Rightarrow> []);
          servers = fold add_server (split_pred (\<lambda>b. b = 44 \<or> b = 32 \<or> b = 59) configured) []
      in if servers = [] then [SockV4 0x01010101 53, SockV4 0x01000001 53] else servers)"

text \<open>What happens to a lookup: the socket the stack opens, the identifier and the outcome of each
  query sent, in order, and what comes in on the one channel.  When nothing more comes in, the
  deadline passes.\<close>

datatype dns_event = Arrived bytes | Deadline | ChannelClosed

record dns_script =
  ds_open :: "unit aresult"
  ds_setting :: "str option"
  ds_ident :: "nat \<Rightarrow> u16"
  ds_send :: "nat \<Rightarrow> unit aresult"
  ds_events :: "dns_event list"

fun dns_wait :: "u16 \<Rightarrow> str \<Rightarrow> u16 \<Rightarrow> dns_event list \<Rightarrow> (dns_answer option \<times> dns_event list) aresult" where
  "dns_wait ident name qtype [] = Ok (None, [])"
| "dns_wait ident name qtype (Deadline # es) = Ok (None, es)"
| "dns_wait ident name qtype (ChannelClosed # es) = Err (Other (lit ''dns channel closed''))"
| "dns_wait ident name qtype (Arrived resp # es) =
     rbind (no_panic (dns_response_matches resp ident name qtype)) (\<lambda>matched.
       if \<not> matched then dns_wait ident name qtype es
       else rbind (no_panic (parse_dns_answer resp qtype)) (\<lambda>found.
         Ok (Some (case found of
                     Some ip \<Rightarrow> Found ip
                   | None \<Rightarrow> if dns_rcode resp = Some RCODE_NXDOMAIN then NoSuchName else NoRecord), es)))"

fun dns_servers :: "dns_script \<Rightarrow> str \<Rightarrow> u16 \<Rightarrow> aether_error \<Rightarrow> socket_addr list \<Rightarrow> nat \<Rightarrow> dns_event list \<Rightarrow>
    (dns_answer \<times> nat \<times> dns_event list) aresult" where
  "dns_servers script name qtype last_error [] n es = Err last_error"
| "dns_servers script name qtype last_error (server # servers) n es =
     (case ds_send script n of
        Panic \<Rightarrow> Panic
      | Err e \<Rightarrow> dns_servers script name qtype e servers (n + 1) es
      | Ok _ \<Rightarrow>
          rbind (dns_wait (ds_ident script n) name qtype es) (\<lambda>(answer, es).
            case answer of
              Some answer \<Rightarrow> Ok (answer, n + 1, es)
            | None \<Rightarrow> dns_servers script name qtype (Other (lit ''dns timeout from '' @ show_socket_addr server))
                servers (n + 1) es))"

definition dns_exchange :: "dns_script \<Rightarrow> str \<Rightarrow> u16 \<Rightarrow> nat \<Rightarrow> dns_event list \<Rightarrow> (dns_answer \<times> nat \<times> dns_event list) aresult" where
  "dns_exchange script name qtype n es =
     dns_servers script name qtype (Other (lit ''dns timeout'')) (resolver_addresses (ds_setting script)) n es"

definition resolve_preferring_v4 :: "dns_script \<Rightarrow> str \<Rightarrow> ip_addr aresult" where
  "resolve_preferring_v4 script name =
     rbind (dns_exchange script name QTYPE_A 0 (ds_events script)) (\<lambda>(answer, n, es).
       case answer of
         Found ip \<Rightarrow> Ok ip
       | NoSuchName \<Rightarrow> Err (Other (name @ lit '' does not exist''))
       | NoRecord \<Rightarrow>
           rbind (dns_exchange script name QTYPE_AAAA n es) (\<lambda>(answer, n, es).
             case answer of
               Found ip \<Rightarrow> Ok ip
             | _ \<Rightarrow> Err (Other (lit ''no A or AAAA record for '' @ name))))"

definition dns_resolve :: "dns_script \<Rightarrow> str \<Rightarrow> ip_addr aresult" where
  "dns_resolve script name = rbind (ds_open script) (\<lambda>_. resolve_preferring_v4 script name)"

fun resolve :: "dns_script \<Rightarrow> target \<Rightarrow> ip_addr aresult" where
  "resolve script (IpTarget ip) = Ok ip"
| "resolve script (DomainTarget name) =
     (case parse_ip name of Some ip \<Rightarrow> Ok ip | None \<Rightarrow> dns_resolve script name)"


section \<open>The two ends of the protocol agree\<close>

lemma encode_address_written:
  "encode_address t = (case sock_ip t of V4 v4 \<Rightarrow> ATYP_V4 # v4_octets v4 | V6 v6 \<Rightarrow> ATYP_V6 # v6_octets v6) @ be_bytes16 (sock_port t)"
  by (simp add: encode_address_def)

lemma reply_bound_written: "reply_bound bound = [VER, REP_OK, 0x00] @ encode_address bound"
  by (simp add: reply_bound_def encode_address_def)

lemma build_udp_reply_written: "build_udp_reply src data = encode_udp_header src @ data"
  by (simp add: build_udp_reply_def encode_udp_header_def encode_address_def)

lemma handshake_written:
  assumes "length methods < 256"
  shows "handshake \<lparr>c_in = [VER, word_of_nat (length methods)] @ methods @ rest, c_out = w\<rparr> =
    Ok \<lparr>c_in = rest, c_out = w @ [VER, 0x00]\<rparr>"
proof -
  have n: "unat (word_of_nat (length methods) :: byte) = length methods" using assms by (simp add: unat_word_of_nat_small)
  have "read_exact 2 \<lparr>c_in = [VER, word_of_nat (length methods)] @ methods @ rest, c_out = w\<rparr> =
      Ok ([VER, word_of_nat (length methods)], \<lparr>c_in = methods @ rest, c_out = w\<rparr>)"
    by (rule read_exact_append) simp
  with n read_exact_append [of methods "length methods" rest w] show ?thesis
    by (simp add: handshake_def write_all_def)
qed

lemma target_port_read:
  "rbind (read_exact 2 \<lparr>c_in = be_bytes16 p @ rest, c_out = w\<rparr>) (\<lambda>(port, c). Ok (t, from_be16 (port ! 0) (port ! 1), c)) =
    Ok (t, p, \<lparr>c_in = rest, c_out = w\<rparr>)"
proof -
  obtain a b where "be_bytes16 p = [a, b]" "from_be16 a b = p" by (rule be_bytes16_cases)
  with read_exact_append [of "[a, b]" 2 rest w] show ?thesis by simp
qed

lemma read_target_address:
  "read_target (encode_address t ! 0) \<lparr>c_in = tl (encode_address t) @ rest, c_out = w\<rparr> =
     Ok (IpTarget (sock_ip t), sock_port t, \<lparr>c_in = rest, c_out = w\<rparr>)"
proof (cases "sock_ip t")
  case (V4 a)
  with read_exact_append [of "v4_octets a" 4 "be_bytes16 (sock_port t) @ rest" w] show ?thesis
    by (simp add: read_target_def encode_address_written target_port_read [unfolded One_nat_def])
next
  case (V6 a)
  with read_exact_append [of "v6_octets a" 16 "be_bytes16 (sock_port t) @ rest" w] show ?thesis
    by (simp add: read_target_def encode_address_written target_port_read [unfolded One_nat_def] ATYP_V4_def ATYP_V6_def)
qed

lemma read_target_name:
  assumes "length name < 256"
  shows "read_target ATYP_DOMAIN \<lparr>c_in = word_of_nat (length name) # name @ be_bytes16 p @ rest, c_out = w\<rparr> =
     Ok (DomainTarget (from_utf8_lossy name), p, \<lparr>c_in = rest, c_out = w\<rparr>)"
proof -
  have n: "unat (word_of_nat (length name) :: byte) = length name" using assms by (simp add: unat_word_of_nat_small)
  have "read_exact 1 \<lparr>c_in = [word_of_nat (length name)] @ name @ be_bytes16 p @ rest, c_out = w\<rparr> =
      Ok ([word_of_nat (length name)], \<lparr>c_in = name @ be_bytes16 p @ rest, c_out = w\<rparr>)"
    by (rule read_exact_append) simp
  with n read_exact_append [of name "length name" "be_bytes16 p @ rest" w] show ?thesis
    by (simp add: read_target_def target_port_read [unfolded One_nat_def] ATYP_V4_def ATYP_V6_def ATYP_DOMAIN_def)
qed

lemma read_request_written:
  assumes "length methods < 256"
    and "read_target atyp \<lparr>c_in = body, c_out = w @ [VER, 0x00]\<rparr> = Ok (t, p, c)"
  shows "read_request \<lparr>c_in = [VER, word_of_nat (length methods)] @ methods @ [VER, command, r, atyp] @ body, c_out = w\<rparr> =
    Ok (command, t, p, c)"
proof -
  have "read_exact 4 \<lparr>c_in = [VER, command, r, atyp] @ body, c_out = w @ [VER, 0x00]\<rparr> =
      Ok ([VER, command, r, atyp], \<lparr>c_in = body, c_out = w @ [VER, 0x00]\<rparr>)"
    by (rule read_exact_append) simp
  then show ?thesis
    unfolding read_request_def handshake_written [OF assms(1)] using assms(2) by (simp add: numeral_3_eq_3)
qed

lemma encode_address_Cons: "encode_address t = encode_address t ! 0 # tl (encode_address t)"
  by (simp add: encode_address_def split: ip_addr.splits)

lemma parse_udp_request_address:
  "parse_udp_request (encode_udp_header t @ payload) = Ok (Some (IpTarget (sock_ip t), sock_port t, payload))"
proof -
  obtain a b where p: "be_bytes16 (sock_port t) = [a, b]" "from_be16 a b = sock_port t" by (rule be_bytes16_cases)
  show ?thesis
  proof (cases "sock_ip t")
    case (V4 v)
    let ?m = "encode_udp_header t @ payload"
    have m: "?m = [0, 0, 0, ATYP_V4] @ v4_octets v @ [a, b] @ payload"
      using V4 p by (simp add: encode_udp_header_def encode_address_def)
    have "sub ?m 4 8 = v4_octets v" unfolding m by (simp add: sub_def)
    moreover have "?m ! 8 = a" "?m ! 9 = b" unfolding m by (simp_all add: nth_append)
    moreover have "?m ! 2 = 0" "?m ! 3 = ATYP_V4" "length ?m = 10 + length payload" "drop 10 ?m = payload"
      unfolding m by (simp_all add: numeral_2_eq_2 numeral_3_eq_3)
    ultimately show ?thesis using V4 p(2) by (simp add: parse_udp_request_def Let_def)
  next
    case (V6 v)
    let ?m = "encode_udp_header t @ payload"
    have m: "?m = [0, 0, 0, ATYP_V6] @ v6_octets v @ [a, b] @ payload"
      using V6 p by (simp add: encode_udp_header_def encode_address_def)
    have "sub ?m 4 20 = v6_octets v" unfolding m by (simp add: sub_def)
    moreover have "?m ! 20 = a" "?m ! 21 = b" unfolding m by (simp_all add: nth_append)
    moreover have "?m ! 2 = 0" "?m ! 3 = ATYP_V6" "length ?m = 22 + length payload" "drop 22 ?m = payload"
      unfolding m by (simp_all add: numeral_2_eq_2 numeral_3_eq_3)
    ultimately show ?thesis using V6 p(2)
      by (simp add: parse_udp_request_def Let_def ATYP_V4_def ATYP_V6_def)
  qed
qed


lemma drop_prefix: "length p = n \<Longrightarrow> drop n (p @ r) = r"
  by simp

lemma parse_udp_request_name:
  assumes "length name < 256"
  shows "parse_udp_request ([0, 0, 0, ATYP_DOMAIN, word_of_nat (length name)] @ name @ be_bytes16 p @ payload) =
    Ok (Some (DomainTarget (from_utf8_lossy name), p, payload))"
proof -
  obtain a b where p: "be_bytes16 p = [a, b]" "from_be16 a b = p" by (rule be_bytes16_cases)
  let ?m = "[0, 0, 0, ATYP_DOMAIN, word_of_nat (length name)] @ name @ [a, b] @ payload"
  have n: "unat (word_of_nat (length name) :: byte) = length name" using assms by (simp add: unat_word_of_nat_small)
  have "sub ?m 5 (5 + length name) = name"
    using sub_mid [of "[0, 0, 0, ATYP_DOMAIN, word_of_nat (length name)]" 5 name "length name"] by simp
  moreover have "?m ! (5 + length name) = a" "?m ! (5 + length name + 1) = b" by (simp_all add: nth_append)
  moreover have "?m ! 2 = 0" "?m ! 3 = ATYP_DOMAIN" "get_at ?m 4 = Some (word_of_nat (length name))"
    by (simp_all add: numeral_2_eq_2 numeral_3_eq_3 numeral_eq_Suc)
  moreover have "length ?m = 7 + length name + length payload" by simp
  moreover have "drop (5 + length name + 2) ?m = payload"
    using drop_prefix [of "[0, 0, 0, ATYP_DOMAIN, word_of_nat (length name)] @ name @ [a, b]" "5 + length name + 2" payload]
    by (simp del: drop_append)
  ultimately show ?thesis unfolding p(1) using p(2) n
    by (simp add: parse_udp_request_def Let_def ATYP_V4_def ATYP_V6_def ATYP_DOMAIN_def)
qed

lemma parse_udp_request_Ok: "\<exists>r. parse_udp_request buf = Ok r"
  by (auto simp: parse_udp_request_def Let_def rust_simps split: option.splits)

text \<open>C18. The server and the client of the protocol agree: whatever methods a client offers, the
  server reads the request that the core's own client writes, for an address and for a name,
  with the command, the port and everything after it untouched; the client reads the
  server's reply; and the UDP header of each side is read by the other, payload and all.\<close>

theorem socks_ends_agree:
  assumes "length methods < 256" and "encode_name_request debug command name port = Ok named" and "utf8_valid name"
  shows "read_request \<lparr>c_in = [VER, word_of_nat (length methods)] @ methods @ encode_request command t @ rest, c_out = w\<rparr> =
      Ok (command, IpTarget (sock_ip t), sock_port t, \<lparr>c_in = rest, c_out = w @ [VER, 0x00]\<rparr>) \<and>
    read_request \<lparr>c_in = [VER, word_of_nat (length methods)] @ methods @ named @ rest, c_out = w\<rparr> =
      Ok (command, DomainTarget name, port, \<lparr>c_in = rest, c_out = w @ [VER, 0x00]\<rparr>) \<and>
    read_reply \<lparr>c_in = reply_bound t @ rest, c_out = w\<rparr> =
      Ok (sock_new (sock_ip t) (sock_port t), \<lparr>c_in = rest, c_out = w\<rparr>) \<and>
    parse_udp_request (encode_udp_header t @ payload) = Ok (Some (IpTarget (sock_ip t), sock_port t, payload)) \<and>
    (\<exists>n. decode_udp_header (build_udp_reply t payload) = Some (sock_new (sock_ip t) (sock_port t), n) \<and>
      drop n (build_udp_reply t payload) = payload)"
proof (intro conjI)
  have req: "encode_request command t @ rest = [VER, command, 0, encode_address t ! 0] @ tl (encode_address t) @ rest"
    using encode_address_Cons [of t] by (simp add: encode_request_def)
  show "read_request \<lparr>c_in = [VER, word_of_nat (length methods)] @ methods @ encode_request command t @ rest, c_out = w\<rparr> =
      Ok (command, IpTarget (sock_ip t), sock_port t, \<lparr>c_in = rest, c_out = w @ [VER, 0x00]\<rparr>)"
    unfolding req by (rule read_request_written [OF assms(1) read_target_address])
  have n: "length name < 256" "named @ rest = [VER, command, 0, ATYP_DOMAIN] @ word_of_nat (length name) # name @ be_bytes16 port @ rest"
    using assms(2) by (auto simp: encode_name_request_def ATYP_DOMAIN_def ATYP_NAME_def split: if_splits)
  show "read_request \<lparr>c_in = [VER, word_of_nat (length methods)] @ methods @ named @ rest, c_out = w\<rparr> =
      Ok (command, DomainTarget name, port, \<lparr>c_in = rest, c_out = w @ [VER, 0x00]\<rparr>)"
    unfolding n(2)
    using read_request_written [OF assms(1) read_target_name [OF n(1)]] from_utf8_lossy_valid [OF assms(3)] by simp
  show "read_reply \<lparr>c_in = reply_bound t @ rest, c_out = w\<rparr> =
      Ok (sock_new (sock_ip t) (sock_port t), \<lparr>c_in = rest, c_out = w\<rparr>)"
    using read_reply_written [of 0 t rest w] by (simp add: reply_bound_written)
  show "parse_udp_request (encode_udp_header t @ payload) = Ok (Some (IpTarget (sock_ip t), sock_port t, payload))"
    by (rule parse_udp_request_address)
  show "\<exists>n. decode_udp_header (build_udp_reply t payload) = Some (sock_new (sock_ip t) (sock_port t), n) \<and>
      drop n (build_udp_reply t payload) = payload"
    using decode_encode_header [of t payload] by (auto simp: build_udp_reply_written)
qed

theorem socks_ends_agree_witness:
  "read_request \<lparr>c_in = [VER, 1, 0] @ [VER, CMD_CONNECT, 0, ATYP_NAME, 2] @ lit ''ab'' @ be_bytes16 443 @ [7], c_out = []\<rparr> =
     Ok (CMD_CONNECT, DomainTarget (lit ''ab''), 443, \<lparr>c_in = [7], c_out = [VER, 0]\<rparr>)"
proof -
  have "encode_name_request (\<lambda>s. s) CMD_CONNECT (lit ''ab'') 443 = Ok ([VER, CMD_CONNECT, 0, ATYP_NAME, 2] @ lit ''ab'' @ be_bytes16 443)"
    by (simp add: encode_name_request_def)
  moreover have "utf8_valid (lit ''ab'')" by code_simp
  ultimately show ?thesis
    using socks_ends_agree [of "[0]" "\<lambda>s. s" CMD_CONNECT "lit ''ab''" 443
        "[VER, CMD_CONNECT, 0, ATYP_NAME, 2] @ lit ''ab'' @ be_bytes16 443" "SockV4 0 0" "[7]" "[]"] by simp
qed


section \<open>The resolver\<close>

lemma answer_records_Ok: "\<exists>r. answer_records n resp qtype pos = Ok r"
  by (induction n resp qtype pos rule: answer_records.induct) (auto simp: Let_def split: option.splits)

lemma parse_dns_answer_Ok: "\<exists>r. parse_dns_answer resp qtype = Ok r"
  using answer_records_Ok by (auto simp: parse_dns_answer_def split: option.splits)

lemma response_matches_total: "\<exists>r. response_matches msg ident name qtype = Ok r"
proof (cases "12 \<le> length msg")
  case True
  from match_labels_Ok obtain r where "match_labels msg (split_on 46 name) 12 = Ok r" by blast
  then show ?thesis by (cases r) (auto simp: response_matches_Ok [OF True])
qed (auto simp: response_matches_def)

lemma no_panic_Ok [simp]: "no_panic m = Ok r \<longleftrightarrow> m = Ok r"
  by (cases m) simp_all

lemma dns_wait_safe: "dns_wait ident name qtype es \<noteq> Panic"
proof (induction ident name qtype es rule: dns_wait.induct)
  case (4 ident name qtype resp es)
  obtain m where "response_matches resp ident name qtype = Ok m" using response_matches_total by blast
  moreover obtain r where "parse_dns_answer resp qtype = Ok r" using parse_dns_answer_Ok by blast
  ultimately show ?case using 4 by (simp add: dns_response_matches_def)
qed simp_all

lemma dns_wait_Some:
  assumes "dns_wait ident name qtype es = Ok (Some answer, es')"
  shows "set es' \<subseteq> set es \<and> (\<exists>resp. Arrived resp \<in> set es \<and> response_matches resp ident name qtype = Ok True \<and>
    (\<forall>ip. answer = Found ip \<longrightarrow> parse_dns_answer resp qtype = Ok (Some ip)))"
  using assms
proof (induction ident name qtype es rule: dns_wait.induct)
  case (4 ident name qtype resp es)
  obtain m where m: "response_matches resp ident name qtype = Ok m" using response_matches_total by blast
  show ?case
  proof (cases m)
    case True
    with 4(2) m show ?thesis by (auto simp: rbind_eq_Ok dns_response_matches_def split: option.splits)
  next
    case False
    with 4(2) m have w: "dns_wait ident name qtype es = Ok (Some answer, es')" by (simp add: dns_response_matches_def)
    from 4(1) [OF False w] show ?thesis by auto
  qed
qed simp_all

lemma dns_wait_events: "dns_wait ident name qtype es = Ok (answer, es') \<Longrightarrow> set es' \<subseteq> set es"
  by (induction ident name qtype es rule: dns_wait.induct)
    (auto simp: rbind_eq_Ok split: if_splits)

lemma dns_servers_Found:
  assumes "dns_servers script name qtype e servers n es = Ok (answer, m, es')"
  shows "set es' \<subseteq> set es \<and> (\<exists>resp i. Arrived resp \<in> set es \<and> response_matches resp (ds_ident script i) name qtype = Ok True \<and>
    (\<forall>ip. answer = Found ip \<longrightarrow> parse_dns_answer resp qtype = Ok (Some ip)))"
  using assms
proof (induction script name qtype e servers n es rule: dns_servers.induct)
  case (2 script name qtype e server servers n es)
  show ?case
  proof (cases "ds_send script n")
    case (Ok u)
    with 2(3) obtain a es1 where w: "dns_wait (ds_ident script n) name qtype es = Ok (a, es1)" by (auto simp: rbind_eq_Ok)
    show ?thesis
    proof (cases a)
      case None
      with 2(3) w Ok have r: "dns_servers script name qtype (Other (lit ''dns timeout from '' @ show_socket_addr server))
          servers (n + 1) es1 = Ok (answer, m, es')" by simp
      from 2(1) [OF Ok None r] dns_wait_events [OF w] show ?thesis by blast
    next
      case (Some b)
      with 2(3) w Ok dns_wait_Some [of "ds_ident script n" name qtype es answer es'] show ?thesis by auto
    qed
  qed (use 2 in auto)
qed simp

lemma dns_servers_safe:
  assumes "\<And>i. ds_send script i \<noteq> Panic"
  shows "dns_servers script name qtype e servers n es \<noteq> Panic"
  using assms
  by (induction script name qtype e servers n es rule: dns_servers.induct)
    (auto simp: rbind_eq_Panic dns_wait_safe split: res.splits option.splits)


lemma dns_exchange_Found:
  assumes "dns_exchange script name qtype n es = Ok (answer, m, es')"
  shows "set es' \<subseteq> set es \<and> (\<exists>resp i. Arrived resp \<in> set es \<and> response_matches resp (ds_ident script i) name qtype = Ok True \<and>
    (\<forall>ip. answer = Found ip \<longrightarrow> parse_dns_answer resp qtype = Ok (Some ip)))"
  by (rule dns_servers_Found [OF assms [unfolded dns_exchange_def]])

lemma dns_resolve_sound:
  assumes "dns_resolve script name = Ok ip"
  shows "\<exists>resp i qtype. qtype \<in> {QTYPE_A, QTYPE_AAAA} \<and> Arrived resp \<in> set (ds_events script) \<and>
    response_matches resp (ds_ident script i) name qtype = Ok True \<and> parse_dns_answer resp qtype = Ok (Some ip)"
proof -
  from assms obtain a n es where a: "dns_exchange script name QTYPE_A 0 (ds_events script) = Ok (a, n, es)"
    and b: "(case a of Found ip \<Rightarrow> Ok ip | NoSuchName \<Rightarrow> Err (Other (name @ lit '' does not exist''))
       | NoRecord \<Rightarrow> rbind (dns_exchange script name QTYPE_AAAA n es) (\<lambda>(answer, n, es).
           case answer of Found ip \<Rightarrow> Ok ip | _ \<Rightarrow> Err (Other (lit ''no A or AAAA record for '' @ name)))) = Ok ip"
    unfolding dns_resolve_def resolve_preferring_v4_def rbind_eq_Ok by (auto simp del: lit_Cons)
  have r: "a = Found ip \<or> (a = NoRecord \<and> (\<exists>n' es'. dns_exchange script name QTYPE_AAAA n es = Ok (Found ip, n', es')))"
  proof (cases a)
    case NoRecord
    with b obtain a' n' es' where "dns_exchange script name QTYPE_AAAA n es = Ok (a', n', es')"
      and "(case a' of Found ip \<Rightarrow> Ok ip | _ \<Rightarrow> Err (Other (lit ''no A or AAAA record for '' @ name))) = Ok ip"
      by (auto simp: rbind_eq_Ok simp del: lit_Cons)
    with NoRecord show ?thesis by (cases a') simp_all
  qed (use b in simp_all)
  note first = dns_exchange_Found [OF a]
  from r show ?thesis
  proof
    assume "a = Found ip"
    with first show ?thesis by blast
  next
    assume "a = NoRecord \<and> (\<exists>n' es'. dns_exchange script name QTYPE_AAAA n es = Ok (Found ip, n', es'))"
    then obtain n' es' where "dns_exchange script name QTYPE_AAAA n es = Ok (Found ip, n', es')" by blast
    from dns_exchange_Found [OF this] first show ?thesis by blast
  qed
qed

lemma dns_resolve_safe:
  assumes "ds_open script \<noteq> Panic" "\<And>i. ds_send script i \<noteq> Panic"
  shows "dns_resolve script name \<noteq> Panic"
  using assms dns_servers_safe [OF assms(2)]
  by (auto simp: dns_resolve_def resolve_preferring_v4_def dns_exchange_def rbind_eq_Panic split: dns_answer.splits)

lemma dns_wait_skips:
  assumes "list_all (\<lambda>m. response_matches m ident name qtype = Ok False) junk"
  shows "dns_wait ident name qtype (map Arrived junk @ es) = dns_wait ident name qtype es"
  using assms by (induction junk) (simp_all add: dns_response_matches_def)





text \<open>A name with a final dot makes a malformed question: the empty label after the dot is written
  as the end of the name, and the end of the name once more.\<close>

lemma trailing_dot_query:
  "fst (build_dns_query ident (name @ [46]) qtype) =
     be_bytes16 ident @ [1, 0, 0, 1, 0, 0, 0, 0, 0, 0] @ enc_labels (split_on 46 name) @ [0] @ [0] @ be_bytes16 qtype @ [0, 1]"
  using split_pred_append_sep [of "\<lambda>x. x = 46" 46 name "[]"]
  by (simp add: build_dns_query_def split_on_def enc_labels_def)

end
