(* ===== verification/Socks.thy ===== *)
theory Socks
  imports Socks_Wire
begin

text \<open>
  The SOCKS5 server of \<open>socks.rs\<close>: which way a connection or a datagram takes, and the handlers
  that carry it there.  A handler is a trace of what it does, the bytes the client gets and the
  connections opened among it, with its result; what the network, the stack and the clock answer
  stands in a record, and the routing table, the crates it uses and the memory of names are
  arguments.  A UDP association is a machine over the datagrams that come in from its three
  sides, in any order.
\<close>

section \<open>The gateway\<close>

record gateway =
  gw_proxy :: "socket_addr option"
  gw_healthy :: bool

definition set_gateway_proxy :: "str \<Rightarrow> gateway \<Rightarrow> gateway" where
  "set_gateway_proxy address gw =
     (let trimmed = trim address
      in if trimmed = [] then gw
         else (case parse_socket_addr trimmed of
                 Some parsed \<Rightarrow> if gw_proxy gw = None then gw\<lparr>gw_proxy := Some parsed\<rparr> else gw
               | None \<Rightarrow> gw))"

definition gateway_proxy :: "gateway \<Rightarrow> socket_addr option" where
  "gateway_proxy gw = (if \<not> gw_healthy gw then None else gw_proxy gw)"

definition retire_gateway :: "gateway \<Rightarrow> gateway" where
  "retire_gateway gw = gw\<lparr>gw_healthy := False\<rparr>"

definition should_use_gateway :: "u16 \<Rightarrow> bool" where
  "should_use_gateway port \<longleftrightarrow> port = 80 \<or> port = 443"

definition UA_REGISTER :: str where "UA_REGISTER = lit ''WARP for Android''"

definition build_proxy_connect :: "str \<Rightarrow> u16 \<Rightarrow> bytes" where
  "build_proxy_connect target port =
     (let port_text = show_nat (unat port);
          auth = (if 58 \<in> set target \<and> \<not> starts_with target [91]
                  then lit ''['' @ target @ lit '']:'' @ port_text
                  else target @ lit '':'' @ port_text)
      in lit ''CONNECT '' @ auth @ lit '' HTTP/1.1'' @ crlf @ lit ''Host: '' @ auth @ crlf @
         lit ''User-Agent: '' @ UA_REGISTER @ crlf @ crlf)"

definition proxy_connect_succeeded :: "bytes \<Rightarrow> bool option" where
  "proxy_connect_succeeded head =
     (let text = from_utf8_lossy head
      in case find_sub crlf text of
           None \<Rightarrow> None
         | Some line_end \<Rightarrow>
             (case get_at (split_whitespace (take line_end text)) 1 of
                None \<Rightarrow> None
              | Some token \<Rightarrow> map_option (\<lambda>status. 200 \<le> status \<and> status < 300) (parse_uint (2 ^ 16) token)))"

definition find_head_end :: "bytes \<Rightarrow> nat option" where
  "find_head_end buffer = map_option (\<lambda>at. at + 4) (find_sub head_end buffer)"

definition GATEWAY_HEAD_LIMIT :: nat where "GATEWAY_HEAD_LIMIT = 8192"

section \<open>Traces\<close>

datatype effect =
    ClientGets bytes
  | OpenTunnel socket_addr
  | TunnelGets bytes
  | CloseTunnel
  | ResolveInTunnel str
  | LookupHost str u16
  | ConnectDirect socket_addr
  | DirectGets bytes
  | RetireGateway
  | RelayTunneled
  | RelayDirect
  | ConnectVia str u16
  | RemoteGets bytes
  | RelayGeneric

type_synonym 'a io = "effect list \<times> 'a aresult"

definition io_return :: "'a \<Rightarrow> 'a io" where
  "io_return a = ([], Ok a)"

definition io_do :: "effect \<Rightarrow> 'a aresult \<Rightarrow> 'a io" where
  "io_do e outcome = ([e], outcome)"

fun io_bind :: "'a io \<Rightarrow> ('a \<Rightarrow> 'b io) \<Rightarrow> 'b io" where
  "io_bind (tr, Ok a) f = (tr @ fst (f a), snd (f a))"
| "io_bind (tr, Err e) f = (tr, Err e)"
| "io_bind (tr, Panic) f = (tr, Panic)"

text \<open>An error handled: \<open>match m { Ok(a) => a, Err(e) => h(e) }\<close>.\<close>

fun io_catch :: "'a io \<Rightarrow> (aether_error \<Rightarrow> 'a io) \<Rightarrow> 'a io" where
  "io_catch (tr, Ok a) h = (tr, Ok a)"
| "io_catch (tr, Err e) h = (tr @ fst (h e), snd (h e))"
| "io_catch (tr, Panic) h = (tr, Panic)"

text \<open>What answers a handler: the settings, the client's side of the connection and whether its
  writes succeed, the first bytes it sends, the memory of names and the clock, the stack's
  connections and lookups, the gateway's bytes, the system's own lookups and connections, and
  what a connector, the tunnel of another program, opens.  Where a direct connection takes too
  long, all it might have tried is in the trace.\<close>

datatype sniff_read = ReadBytes bytes | ReadFailed | ReadTimedOut

datatype io_kind = PermissionDenied | NotFound | TimedOut | OtherKind

record proxy_env =
  pe_sniff :: "str option"
  pe_client :: ip_addr
  pe_head :: sniff_read
  pe_write :: "bytes \<Rightarrow> unit aresult"
  pe_memory :: name_memory
  pe_now :: nat
  pe_gateway :: gateway
  pe_gateway_open :: "unit aresult option"
  pe_gateway_chunks :: "bytes list"
  pe_gateway_closes :: bool
  pe_open_tcp :: "socket_addr \<Rightarrow> unit aresult"
  pe_send :: "bytes \<Rightarrow> unit aresult"
  pe_dns :: dns_script
  pe_lookup :: "str \<Rightarrow> u16 \<Rightarrow> (socket_addr list, io_kind \<times> str) res"
  pe_tcp_connect :: "socket_addr \<Rightarrow> (unit, io_kind \<times> str) res"
  pe_direct_in_time :: bool
  pe_direct_write :: "bytes \<Rightarrow> unit aresult"
  pe_connect :: "str \<Rightarrow> u16 \<Rightarrow> (unit, str) res"
  pe_remote_write :: "bytes \<Rightarrow> unit aresult"

definition to_client :: "proxy_env \<Rightarrow> bytes \<Rightarrow> unit io" where
  "to_client env b = io_do (ClientGets b) (pe_write env b)"

text \<open>\<open>let _ = \<dots>\<close>: whether the write succeeded does not matter.\<close>

definition tell_client :: "bytes \<Rightarrow> unit io" where
  "tell_client b = io_do (ClientGets b) (Ok ())"

definition unspecified :: socket_addr where "unspecified = SockV4 0 0"

section \<open>Which way\<close>

definition decide_route :: "('n4, 'n6, 're) crates \<Rightarrow> ('n4, 'n6, 're) rule_set \<Rightarrow> target \<Rightarrow> str option \<Rightarrow> u16 \<Rightarrow> action" where
  "decide_route k rules target sniffed port =
     (case sniffed of
        Some name \<Rightarrow>
          (case decide k rules (Domain name) port of
             Proxy \<Rightarrow> decide k rules (host_of target) port
           | decided \<Rightarrow> decided)
      | None \<Rightarrow> decide k rules (host_of target) port)"

definition recalled_block :: "('n4, 'n6, 're) crates \<Rightarrow> ('n4, 'n6, 're) rule_set \<Rightarrow> name_memory \<Rightarrow> nat \<Rightarrow> target \<Rightarrow> u16 \<Rightarrow> action option" where
  "recalled_block k rules memory now target port =
     (case target of
        DomainTarget _ \<Rightarrow> None
      | IpTarget ip \<Rightarrow>
          if \<not> rule_set_has_domain_rules rules then None
          else (case recall_name ip now memory of
                  None \<Rightarrow> None
                | Some name \<Rightarrow> if decide k rules (Domain name) port = Block then Some Block else None))"

definition decide_udp :: "('n4, 'n6, 're) crates \<Rightarrow> ('n4, 'n6, 're) rule_set \<Rightarrow> name_memory \<Rightarrow> nat \<Rightarrow> target \<Rightarrow> u16 \<Rightarrow> action" where
  "decide_udp k rules memory now target port =
     (case decide k rules (host_of target) port of
        Proxy \<Rightarrow> (case recalled_block k rules memory now target port of Some a \<Rightarrow> a | None \<Rightarrow> Proxy)
      | decided \<Rightarrow> decided)"

definition sniff_enabled :: "str option \<Rightarrow> bool" where
  "sniff_enabled setting \<longleftrightarrow> setting \<notin> {Some (lit ''0''), Some (lit ''off''), Some (lit ''false'')}"

fun read_sniff_head :: "sniff_read \<Rightarrow> bytes option" where
  "read_sniff_head (ReadBytes b) = (if b = [] then None else Some (take PEEK_BUDGET b))"
| "read_sniff_head ReadFailed = None"
| "read_sniff_head ReadTimedOut = Some []"

definition v6_to_ipv4_mapped :: "ipv6 \<Rightarrow> ipv4 option" where
  "v6_to_ipv4_mapped a = (if drop_bit 32 a = 0xffff then Some (ucast a) else None)"

definition normalize_ip :: "ip_addr \<Rightarrow> ip_addr" where
  "normalize_ip ip =
     (case ip of
        V6 v6 \<Rightarrow> (case v6_to_ipv4_mapped v6 of Some v4 \<Rightarrow> V4 v4 | None \<Rightarrow> V6 v6)
      | other \<Rightarrow> other)"

definition direct_target_allowed :: "ip_addr \<Rightarrow> ip_addr \<Rightarrow> bool" where
  "direct_target_allowed client address =
     (let address = normalize_ip address
      in if ip_is_loopback address \<or> ip_is_unspecified address then ip_is_loopback (normalize_ip client) else True)"

section \<open>The direct way\<close>

fun connect_addresses :: "proxy_env \<Rightarrow> str \<Rightarrow> socket_addr list \<Rightarrow> (io_kind \<times> str) option \<Rightarrow>
    effect list \<times> (unit, io_kind \<times> str) res" where
  "connect_addresses env host [] last_error =
     ([], Err (case last_error of Some e \<Rightarrow> e | None \<Rightarrow> (NotFound, host @ lit '' did not resolve to any address'')))"
| "connect_addresses env host (address # addresses) last_error =
     (if \<not> direct_target_allowed (pe_client env) (sock_ip address)
      then connect_addresses env host addresses (Some (PermissionDenied,
        show_socket_addr address @ lit '' is this machine's own loopback, which only local clients may reach''))
      else (case pe_tcp_connect env address of
              Ok _ \<Rightarrow> ([ConnectDirect address], Ok ())
            | Panic \<Rightarrow> ([ConnectDirect address], Panic)
            | Err e \<Rightarrow> (let (tr, r) = connect_addresses env host addresses (Some e) in (ConnectDirect address # tr, r))))"

definition connect_direct :: "proxy_env \<Rightarrow> str \<Rightarrow> u16 \<Rightarrow> effect list \<times> (unit, io_kind \<times> str) res" where
  "connect_direct env host port =
     (case pe_lookup env host port of
        Err e \<Rightarrow> ([LookupHost host port], Err e)
      | Panic \<Rightarrow> ([LookupHost host port], Panic)
      | Ok addresses \<Rightarrow> (let (tr, r) = connect_addresses env host addresses None in (LookupHost host port # tr, r)))"

definition handle_direct :: "proxy_env \<Rightarrow> target \<Rightarrow> u16 \<Rightarrow> bytes \<Rightarrow> bool \<Rightarrow> unit io" where
  "handle_direct env target port head replied =
     (let (tr, connected) = connect_direct env (show_target target) port;
          failed = (\<lambda>code. if replied then io_return () else tell_client (reply code))
      in io_bind (tr, Ok ()) (\<lambda>_.
         if \<not> pe_direct_in_time env then failed REP_GENERAL
         else (case connected of
                 Panic \<Rightarrow> ([], Panic)
               | Err (kind, _) \<Rightarrow> failed (if kind = PermissionDenied then REP_NOT_ALLOWED else REP_GENERAL)
               | Ok _ \<Rightarrow>
                   io_bind (if head = [] then io_return True
                            else io_do (DirectGets head) (Ok (pe_direct_write env head = Ok ()))) (\<lambda>written.
                     if \<not> written then io_return ()
                     else io_bind (if replied then io_return () else to_client env (reply_bound unspecified)) (\<lambda>_.
                       io_do RelayDirect (Ok ()))))))"

section \<open>The way through the tunnel\<close>

fun gateway_answer :: "proxy_env \<Rightarrow> socket_addr \<Rightarrow> str \<Rightarrow> u16 \<Rightarrow> bytes list \<Rightarrow> bytes \<Rightarrow> bytes io" where
  "gateway_answer env proxy auth port [] head =
     ([], Err (Other (lit ''gateway '' @ show_socket_addr proxy @
       (if pe_gateway_closes env then lit '' closed the connection'' else lit '' did not answer in time''))))"
| "gateway_answer env proxy auth port (chunk # chunks) head =
     (let head = head @ chunk
      in case find_head_end head of
           Some at \<Rightarrow>
             (case proxy_connect_succeeded head of
                None \<Rightarrow> ([], Err (Other (lit ''gateway '' @ show_socket_addr proxy @ lit '' sent a malformed response'')))
              | Some accepted \<Rightarrow>
                  if \<not> accepted then
                    (let status = trim (case str_lines (from_utf8_lossy (take at head)) of line # _ \<Rightarrow> line | [] \<Rightarrow> lit ''no status'')
                     in ([CloseTunnel], Err (Other (lit ''gateway refused '' @ auth @ lit '':'' @ show_nat (unat port) @
                          lit '' ('' @ status @ lit '')''))))
                  else io_return (drop at head))
         | None \<Rightarrow>
             if length head > GATEWAY_HEAD_LIMIT
             then ([CloseTunnel], Err (Other (lit ''gateway '' @ show_socket_addr proxy @ lit '' sent an oversized response head'')))
             else gateway_answer env proxy auth port chunks head)"

definition open_through_gateway :: "proxy_env \<Rightarrow> socket_addr \<Rightarrow> str \<Rightarrow> u16 \<Rightarrow> bytes io" where
  "open_through_gateway env proxy auth port =
     io_bind (io_do (OpenTunnel proxy)
         (case pe_gateway_open env of
            None \<Rightarrow> Err (Other (lit ''gateway '' @ show_socket_addr proxy @ lit '' did not accept a connection''))
          | Some outcome \<Rightarrow> outcome)) (\<lambda>_.
       io_bind (io_do (TunnelGets (build_proxy_connect auth port)) (pe_send env (build_proxy_connect auth port))) (\<lambda>_.
         gateway_answer env proxy auth port (pe_gateway_chunks env) []))"

definition resolve_io :: "proxy_env \<Rightarrow> target \<Rightarrow> ip_addr io" where
  "resolve_io env target =
     (case target of
        IpTarget ip \<Rightarrow> io_return ip
      | DomainTarget name \<Rightarrow>
          (case parse_ip name of
             Some ip \<Rightarrow> io_return ip
           | None \<Rightarrow> io_do (ResolveInTunnel name) (dns_resolve (pe_dns env) name)))"

text \<open>The connection itself, for the target's own address.\<close>

definition open_resolved :: "proxy_env \<Rightarrow> target \<Rightarrow> u16 \<Rightarrow> bytes io" where
  "open_resolved env target port =
     io_bind (resolve_io env target) (\<lambda>ip.
       io_bind (io_do (OpenTunnel (sock_new ip port)) (pe_open_tcp env (sock_new ip port))) (\<lambda>_. io_return []))"

definition via_gateway :: "proxy_env \<Rightarrow> u16 \<Rightarrow> socket_addr option" where
  "via_gateway env port = (if should_use_gateway port then gateway_proxy (pe_gateway env) else None)"

text \<open>A failure to resolve or to connect is told to the client, with no look at whether it has had
  its reply.\<close>

definition connect_tunneled :: "proxy_env \<Rightarrow> target \<Rightarrow> u16 \<Rightarrow> bytes \<Rightarrow> bool \<Rightarrow> unit io" where
  "connect_tunneled env target port head replied =
     (let own = io_catch (open_resolved env target port) (\<lambda>e. io_bind (tell_client (reply REP_GENERAL)) (\<lambda>_. ([], Err e)));
          opened = (case via_gateway env port of
                      Some proxy \<Rightarrow> io_catch (open_through_gateway env proxy (show_target target) port) (\<lambda>_.
                        io_bind (io_do RetireGateway (Ok ())) (\<lambda>_. own))
                    | None \<Rightarrow> own)
      in io_bind opened (\<lambda>leftover.
         io_bind (if replied then io_return () else to_client env (reply_bound unspecified)) (\<lambda>_.
         io_bind (if head = [] then io_return True else io_do (TunnelGets head) (Ok (pe_send env head = Ok ()))) (\<lambda>sent.
           if \<not> sent then io_return ()
           else io_bind (if leftover = [] then io_return True
                         else io_do (ClientGets leftover) (Ok (pe_write env leftover = Ok ()))) (\<lambda>written.
             if \<not> written then io_return () else io_do RelayTunneled (Ok ()))))))"

section \<open>One connection\<close>

definition connect_verdict :: "('n4, 'n6, 're) crates \<Rightarrow> ('n4, 'n6, 're) rule_set \<Rightarrow> proxy_env \<Rightarrow> target \<Rightarrow> u16 \<Rightarrow> bytes \<Rightarrow> action" where
  "connect_verdict k rules env target port head =
     (let named = (if head = [] then None else hostname head);
          verdict = decide_route k rules target named port
      in if verdict = Proxy \<and> named = None \<and> head \<noteq> []
         then (case recalled_block k rules (pe_memory env) (pe_now env) target port of Some a \<Rightarrow> a | None \<Rightarrow> verdict)
         else verdict)"

definition connect_decided :: "('n4, 'n6, 're) crates \<Rightarrow> ('n4, 'n6, 're) rule_set \<Rightarrow> proxy_env \<Rightarrow> target \<Rightarrow> u16 \<Rightarrow> bytes \<Rightarrow> bool \<Rightarrow> unit io" where
  "connect_decided k rules env target port head replied =
     (case connect_verdict k rules env target port head of
        Block \<Rightarrow> if replied then io_return () else tell_client (reply REP_NOT_ALLOWED)
      | Direct \<Rightarrow> handle_direct env target port head replied
      | Proxy \<Rightarrow> connect_tunneled env target port head replied)"

definition sniffs :: "('n4, 'n6, 're) rule_set \<Rightarrow> proxy_env \<Rightarrow> target \<Rightarrow> bool" where
  "sniffs rules env target \<longleftrightarrow>
     (case target of IpTarget _ \<Rightarrow> True | DomainTarget _ \<Rightarrow> False) \<and> sniff_enabled (pe_sniff env) \<and> rule_set_has_domain_rules rules"

definition handle_connect :: "('n4, 'n6, 're) crates \<Rightarrow> ('n4, 'n6, 're) rule_set \<Rightarrow> proxy_env \<Rightarrow> target \<Rightarrow> u16 \<Rightarrow> unit io" where
  "handle_connect k rules env target port =
     (if sniffs rules env target then
        io_bind (to_client env (reply_bound unspecified)) (\<lambda>_.
          case read_sniff_head (pe_head env) of
            None \<Rightarrow> io_return ()
          | Some head \<Rightarrow> connect_decided k rules env target port head True)
      else connect_decided k rules env target port [] False)"


section \<open>What a handler may do\<close>

lemma io_bind_effects: "e \<in> set (fst (io_bind m f)) \<longleftrightarrow> e \<in> set (fst m) \<or> (\<exists>a. snd m = Ok a \<and> e \<in> set (fst (f a)))"
proof (cases m)
  case (Pair tr r)
  then show ?thesis by (cases r) auto
qed

lemma io_catch_effects: "e \<in> set (fst (io_catch m h)) \<longleftrightarrow> e \<in> set (fst m) \<or> (\<exists>x. snd m = Err x \<and> e \<in> set (fst (h x)))"
proof (cases m)
  case (Pair tr r)
  then show ?thesis by (cases r) auto
qed

lemma io_do_effects: "e \<in> set (fst (io_do e' r)) \<longleftrightarrow> e = e'"
  by (simp add: io_do_def)

lemma io_return_effects: "e \<notin> set (fst (io_return a))"
  by (simp add: io_return_def)

lemmas io_effects = io_bind_effects io_catch_effects io_do_effects io_return_effects

fun tunnel_effect :: "effect \<Rightarrow> bool" where
  "tunnel_effect (OpenTunnel _) \<longleftrightarrow> True"
| "tunnel_effect (TunnelGets _) \<longleftrightarrow> True"
| "tunnel_effect CloseTunnel \<longleftrightarrow> True"
| "tunnel_effect (ResolveInTunnel _) \<longleftrightarrow> True"
| "tunnel_effect RetireGateway \<longleftrightarrow> True"
| "tunnel_effect RelayTunneled \<longleftrightarrow> True"
| "tunnel_effect (ConnectVia _ _) \<longleftrightarrow> True"
| "tunnel_effect (RemoteGets _) \<longleftrightarrow> True"
| "tunnel_effect RelayGeneric \<longleftrightarrow> True"
| "tunnel_effect _ \<longleftrightarrow> False"

fun direct_effect :: "effect \<Rightarrow> bool" where
  "direct_effect (LookupHost _ _) \<longleftrightarrow> True"
| "direct_effect (ConnectDirect _) \<longleftrightarrow> True"
| "direct_effect (DirectGets _) \<longleftrightarrow> True"
| "direct_effect RelayDirect \<longleftrightarrow> True"
| "direct_effect _ \<longleftrightarrow> False"

fun client_effect :: "effect \<Rightarrow> bool" where
  "client_effect (ClientGets _) \<longleftrightarrow> True"
| "client_effect _ \<longleftrightarrow> False"

lemma connect_addresses_effects:
  "e \<in> set (fst (connect_addresses env host addresses x)) \<Longrightarrow>
     \<exists>a. e = ConnectDirect a \<and> a \<in> set addresses \<and> direct_target_allowed (pe_client env) (sock_ip a)"
  by (induction env host addresses x rule: connect_addresses.induct)
    (auto split: if_splits res.splits prod.splits)

lemma handle_direct_effects:
  assumes "e \<in> set (fst (handle_direct env target port head replied))"
  shows "client_effect e \<or> direct_effect e \<and> (\<forall>a. e = ConnectDirect a \<longrightarrow> direct_target_allowed (pe_client env) (sock_ip a))"
proof -
  have "\<And>e. e \<in> set (fst (connect_direct env (show_target target) port)) \<Longrightarrow>
      direct_effect e \<and> (\<forall>a. e = ConnectDirect a \<longrightarrow> direct_target_allowed (pe_client env) (sock_ip a))"
    by (auto simp: connect_direct_def split: res.splits prod.splits dest!: arg_cong [of _ _ fst] connect_addresses_effects)
  with assms show ?thesis
    unfolding handle_direct_def Let_def split_beta
    by (auto simp: io_effects tell_client_def to_client_def split: if_splits res.splits prod.splits)
qed


lemma gateway_answer_effects: "e \<in> set (fst (gateway_answer env proxy auth port chunks head)) \<Longrightarrow> e = CloseTunnel"
  by (induction env proxy auth port chunks head rule: gateway_answer.induct)
    (auto simp: Let_def io_return_def split: option.splits if_splits)

lemma open_through_gateway_effects:
  "e \<in> set (fst (open_through_gateway env proxy auth port)) \<Longrightarrow> tunnel_effect e"
  by (auto simp: open_through_gateway_def io_effects dest: gateway_answer_effects)

lemma open_resolved_effects: "e \<in> set (fst (open_resolved env target port)) \<Longrightarrow> tunnel_effect e"
  by (auto simp: open_resolved_def resolve_io_def io_effects split: target.splits option.splits)

lemma connect_tunneled_effects:
  assumes "e \<in> set (fst (connect_tunneled env target port head replied))"
  shows "client_effect e \<or> tunnel_effect e"
  using assms open_through_gateway_effects open_resolved_effects
  unfolding connect_tunneled_def Let_def
  by (auto simp: io_effects tell_client_def to_client_def split: if_splits option.splits)

lemma connect_decided_effects:
  assumes "e \<in> set (fst (connect_decided k rules env target port head replied))"
  shows "client_effect e \<or>
    (case connect_verdict k rules env target port head of
       Proxy \<Rightarrow> tunnel_effect e
     | Direct \<Rightarrow> direct_effect e \<and> (\<forall>a. e = ConnectDirect a \<longrightarrow> direct_target_allowed (pe_client env) (sock_ip a))
     | Block \<Rightarrow> False)"
  using assms handle_direct_effects connect_tunneled_effects
  by (auto simp: connect_decided_def io_effects tell_client_def split: action.splits if_splits)

text \<open>The first bytes of the client that the decision is made on.\<close>

definition seen_head :: "('n4, 'n6, 're) rule_set \<Rightarrow> proxy_env \<Rightarrow> target \<Rightarrow> bytes" where
  "seen_head rules env target =
     (if sniffs rules env target then (case read_sniff_head (pe_head env) of Some head \<Rightarrow> head | None \<Rightarrow> []) else [])"

lemma handle_connect_effects:
  assumes "e \<in> set (fst (handle_connect k rules env target port))"
  shows "client_effect e \<or>
    (case connect_verdict k rules env target port (seen_head rules env target) of
       Proxy \<Rightarrow> tunnel_effect e
     | Direct \<Rightarrow> direct_effect e \<and> (\<forall>a. e = ConnectDirect a \<longrightarrow> direct_target_allowed (pe_client env) (sock_ip a))
     | Block \<Rightarrow> False)"
  using assms connect_decided_effects
  by (fastforce simp: handle_connect_def seen_head_def io_effects to_client_def split: if_splits option.splits)

lemma connect_verdict_Proxy:
  "connect_verdict k rules env target port head = Proxy \<longleftrightarrow>
     decide k rules (host_of target) port = Proxy \<and>
     (head \<noteq> [] \<longrightarrow> (case hostname head of
        Some name \<Rightarrow> decide k rules (Domain name) port = Proxy
      | None \<Rightarrow> recalled_block k rules (pe_memory env) (pe_now env) target port = None))"
proof -
  have "recalled_block k rules (pe_memory env) (pe_now env) target port \<noteq> Some Proxy"
    by (auto simp: recalled_block_def split: target.splits option.splits if_splits)
  then show ?thesis
    by (auto simp: connect_verdict_def decide_route_def Let_def split: option.splits action.splits if_splits)
qed

lemma connect_verdict_Direct:
  "connect_verdict k rules env target port head = Direct \<longleftrightarrow>
     (case (if head = [] then None else hostname head) of
        Some name \<Rightarrow> decide k rules (Domain name) port = Direct \<or>
          decide k rules (Domain name) port = Proxy \<and> decide k rules (host_of target) port = Direct
      | None \<Rightarrow> decide k rules (host_of target) port = Direct)"
proof -
  have "recalled_block k rules (pe_memory env) (pe_now env) target port \<noteq> Some Direct"
    by (auto simp: recalled_block_def split: target.splits option.splits if_splits)
  then show ?thesis
    by (auto simp: connect_verdict_def decide_route_def Let_def split: option.splits action.splits if_splits)
qed



definition demo_env :: proxy_env where
  "demo_env = \<lparr>pe_sniff = None, pe_client = V4 0x7F000001, pe_head = ReadTimedOut, pe_write = (\<lambda>_. Ok ()), pe_memory = [],
     pe_now = 0, pe_gateway = \<lparr>gw_proxy = None, gw_healthy = True\<rparr>, pe_gateway_open = None, pe_gateway_chunks = [],
     pe_gateway_closes = False, pe_open_tcp = (\<lambda>a. if a = SockV4 9 443 then Ok () else Err (Other [])), pe_send = (\<lambda>_. Ok ()),
     pe_dns = \<lparr>ds_open = Ok (), ds_setting = None, ds_ident = (\<lambda>_. 7), ds_send = (\<lambda>_. Ok ()), ds_events = []\<rparr>,
     pe_lookup = (\<lambda>_ _. Ok []), pe_tcp_connect = (\<lambda>_. Ok ()), pe_direct_in_time = True, pe_direct_write = (\<lambda>_. Ok ()),
     pe_connect = (\<lambda>_ _. Ok ()), pe_remote_write = (\<lambda>_. Ok ())\<rparr>"

lemma decide_no_rules: "decide k \<lparr>rs_block = rules_default, rs_direct = rules_default\<rparr> h p = Proxy"
  by (auto simp: decide_def rules_matches_def rules_default_def partition_point_def pp_loop.simps Let_def
      split: host.splits ip_addr.splits)

lemma no_domain_rules: "\<not> rule_set_has_domain_rules \<lparr>rs_block = rules_default, rs_direct = rules_default\<rparr>"
  by (simp add: rule_set_has_domain_rules_def rules_has_domain_rules_def rules_default_def)




end
