(* ===== verification/Socks_Udp.thy ===== *)
theory Socks_Udp
  imports Socks
begin

text \<open>
  The UDP associations of \<open>socks.rs\<close>: the one carried by the stack, with its direct way, and the
  one carried by TCP lookups alone.  Each is a machine over what comes in: datagrams of clients,
  datagrams of the two ways back, the end of the control connection, and, as other tasks share it,
  a memory of names changed meanwhile.
\<close>

definition DNS_PORT :: u16 where "DNS_PORT = 53"
definition DNS_MAX_IN_FLIGHT :: nat where "DNS_MAX_IN_FLIGHT = 32"

definition expected_udp_source :: "socket_addr \<Rightarrow> target \<Rightarrow> ip_addr" where
  "expected_udp_source control_peer requested =
     (case requested of
        IpTarget ip \<Rightarrow> if \<not> ip_is_unspecified ip then normalize_ip ip else normalize_ip (sock_ip control_peer)
      | DomainTarget _ \<Rightarrow> normalize_ip (sock_ip control_peer))"

definition udp_source_allowed :: "ip_addr \<Rightarrow> socket_addr option \<Rightarrow> socket_addr \<Rightarrow> bool" where
  "udp_source_allowed expected_ip latched from =
     (case latched of
        Some known \<Rightarrow> known = from
      | None \<Rightarrow> normalize_ip (sock_ip from) = normalize_ip expected_ip)"

definition sinkhole_reply :: "('n4, 'n6, 're) crates \<Rightarrow> ('n4, 'n6, 're) rule_set \<Rightarrow> target \<Rightarrow> u16 \<Rightarrow> bytes \<Rightarrow> (bytes option, unit) res" where
  "sinkhole_reply k rules dst dst_port payload =
     (if dst_port \<noteq> DNS_PORT then Ok None
      else rbind (dns_block_reply k rules payload) (\<lambda>answer.
        case answer of
          None \<Rightarrow> Ok None
        | Some answer \<Rightarrow>
            (let src = (case dst of IpTarget ip \<Rightarrow> sock_new ip dst_port | DomainTarget _ \<Rightarrow> SockV4 0 dst_port)
             in Ok (Some (build_udp_reply src answer)))))"

definition learn_if_dns :: "('n4, 'n6, 're) rule_set \<Rightarrow> u16 \<Rightarrow> bytes \<Rightarrow> nat \<Rightarrow> name_memory \<Rightarrow> (name_memory, unit) res" where
  "learn_if_dns rules src_port data now memory =
     (if src_port = DNS_PORT \<and> rule_set_has_domain_rules rules then learn_dns_answer data now memory else Ok memory)"

section \<open>The association of the stack\<close>

datatype udp_effect =
    ClientReceives socket_addr bytes
  | TunnelSends socket_addr bytes
  | DirectSends socket_addr bytes
  | UdpResolve str
  | UdpLookup str u16

text \<open>A datagram comes with what the lookups for it would give, and with the time.\<close>

record lookups =
  lk_dns :: dns_script
  lk_system :: "socket_addr list option"
  lk_now :: nat

datatype udp_event =
    Datagram socket_addr bytes lookups
  | FromStack socket_addr bytes nat
  | FromDirect socket_addr bytes nat
  | DirectFailed
  | Control
  | Ended
  | OtherTask name_memory

record association =
  as_client :: "socket_addr option"
  as_refused :: nat
  as_memory :: name_memory
  as_open :: bool

definition direct_datagram :: "ip_addr \<Rightarrow> target \<Rightarrow> u16 \<Rightarrow> bytes \<Rightarrow> lookups \<Rightarrow> udp_effect list" where
  "direct_datagram control_ip dst dst_port payload l =
     (let (tr, outside) =
        (case dst of
           IpTarget ip \<Rightarrow> ([], Some (sock_new ip dst_port))
         | DomainTarget name \<Rightarrow> ([UdpLookup name dst_port],
             (case lk_system l of Some (first # _) \<Rightarrow> Some first | _ \<Rightarrow> None)))
      in tr @ (case outside of
                 Some addr \<Rightarrow> if \<not> direct_target_allowed control_ip (sock_ip addr) then [] else [DirectSends addr payload]
               | None \<Rightarrow> []))"

definition tunnel_datagram :: "target \<Rightarrow> u16 \<Rightarrow> bytes \<Rightarrow> lookups \<Rightarrow> (udp_effect list, unit) res" where
  "tunnel_datagram dst dst_port payload l =
     (case dst of
        IpTarget ip \<Rightarrow> Ok [TunnelSends (sock_new ip dst_port) payload]
      | DomainTarget name \<Rightarrow>
          (case dns_resolve (lk_dns l) name of
             Ok ip \<Rightarrow> Ok [UdpResolve name, TunnelSends (sock_new ip dst_port) payload]
           | Err _ \<Rightarrow> Ok [UdpResolve name]
           | Panic \<Rightarrow> Panic))"

definition client_datagram :: "('n4, 'n6, 're) crates \<Rightarrow> ('n4, 'n6, 're) rule_set \<Rightarrow> ip_addr \<Rightarrow> socket_addr \<Rightarrow> bytes \<Rightarrow> lookups \<Rightarrow>
    name_memory \<Rightarrow> (udp_effect list, unit) res" where
  "client_datagram k rules control_ip from buf l memory =
     rbind (parse_udp_request buf) (\<lambda>parsed.
       case parsed of
         None \<Rightarrow> Ok []
       | Some (dst, dst_port, payload) \<Rightarrow>
           rbind (sinkhole_reply k rules dst dst_port payload) (\<lambda>pkt.
             case pkt of
               Some pkt \<Rightarrow> Ok [ClientReceives from pkt]
             | None \<Rightarrow>
                 (case decide_udp k rules memory (lk_now l) dst dst_port of
                    Block \<Rightarrow> Ok []
                  | Direct \<Rightarrow> Ok (direct_datagram control_ip dst dst_port payload l)
                  | Proxy \<Rightarrow> tunnel_datagram dst dst_port payload l)))"

definition returned_datagram :: "('n4, 'n6, 're) rule_set \<Rightarrow> socket_addr \<Rightarrow> bytes \<Rightarrow> nat \<Rightarrow> association \<Rightarrow> (association \<times> udp_effect list, unit) res" where
  "returned_datagram rules src data now st =
     rbind (learn_if_dns rules (sock_port src) data now (as_memory st)) (\<lambda>memory.
       Ok (st\<lparr>as_memory := memory\<rparr>,
         (case as_client st of Some c \<Rightarrow> [ClientReceives c (build_udp_reply src data)] | None \<Rightarrow> [])))"

fun association_step :: "('n4, 'n6, 're) crates \<Rightarrow> ('n4, 'n6, 're) rule_set \<Rightarrow> ip_addr \<Rightarrow> ip_addr \<Rightarrow> udp_event \<Rightarrow> association \<Rightarrow>
    (association \<times> udp_effect list, unit) res" where
  "association_step k rules expected_ip control_ip (Datagram from buf l) st =
     (if \<not> udp_source_allowed expected_ip (as_client st) from
      then Ok (st\<lparr>as_refused := as_refused st + 1\<rparr>, [])
      else (let st = (if as_client st = None then st\<lparr>as_client := Some from\<rparr> else st)
            in rbind (client_datagram k rules control_ip from buf l (as_memory st)) (\<lambda>out. Ok (st, out))))"
| "association_step k rules expected_ip control_ip (FromStack src data now) st = returned_datagram rules src data now st"
| "association_step k rules expected_ip control_ip (FromDirect src data now) st = returned_datagram rules src data now st"
| "association_step k rules expected_ip control_ip DirectFailed st = Ok (st, [])"
| "association_step k rules expected_ip control_ip Control st = Ok (st, [])"
| "association_step k rules expected_ip control_ip Ended st = Ok (st\<lparr>as_open := False\<rparr>, [])"
| "association_step k rules expected_ip control_ip (OtherTask memory) st = Ok (st\<lparr>as_memory := memory\<rparr>, [])"

fun association_run :: "('n4, 'n6, 're) crates \<Rightarrow> ('n4, 'n6, 're) rule_set \<Rightarrow> ip_addr \<Rightarrow> ip_addr \<Rightarrow> udp_event list \<Rightarrow> association \<Rightarrow>
    (association \<times> udp_effect list, unit) res" where
  "association_run k rules expected_ip control_ip [] st = Ok (st, [])"
| "association_run k rules expected_ip control_ip (e # es) st =
     (if \<not> as_open st then Ok (st, [])
      else rbind (association_step k rules expected_ip control_ip e st) (\<lambda>(st, out).
             rbind (association_run k rules expected_ip control_ip es st) (\<lambda>(st, more). Ok (st, out @ more))))"

definition association_start :: "name_memory \<Rightarrow> association" where
  "association_start memory = \<lparr>as_client = None, as_refused = 0, as_memory = memory, as_open = True\<rparr>"

text \<open>The handler: the client is told where to send, then the loop runs.\<close>

definition handle_udp_associate :: "('n4, 'n6, 're) crates \<Rightarrow> ('n4, 'n6, 're) rule_set \<Rightarrow> socket_addr \<Rightarrow> target \<Rightarrow> socket_addr \<Rightarrow>
    name_memory \<Rightarrow> udp_event list \<Rightarrow> bytes \<times> (association \<times> udp_effect list, unit) res" where
  "handle_udp_associate k rules control_peer requested relay_addr memory es =
     (reply_bound relay_addr,
      association_run k rules (expected_udp_source control_peer requested) (sock_ip control_peer) es (association_start memory))"

section \<open>The association of a connector\<close>

text \<open>\<open>dns_over_stream\<close>: the query framed, and the answer in what the stream gives.\<close>

definition frame_query :: "bytes \<Rightarrow> bytes option" where
  "frame_query query = (if length query > 65535 then None else Some (be_bytes16 (word_of_nat (length query)) @ query))"

definition read_framed :: "bytes \<Rightarrow> bytes option" where
  "read_framed stream =
     (if length stream < 2 then None
      else let n = unat (from_be16 (stream ! 0) (stream ! 1))
           in if length stream < 2 + n then None else Some (sub stream 2 (2 + n)))"

definition dns_over_stream :: "(bytes \<Rightarrow> bytes) \<Rightarrow> bytes \<Rightarrow> bytes option" where
  "dns_over_stream peer query = (case frame_query query of None \<Rightarrow> None | Some framed \<Rightarrow> read_framed (peer framed))"

datatype lookup_event =
    Asks socket_addr bytes
  | Answer socket_addr bytes nat
  | LookupOver
  | ControlBytes
  | Over

datatype lookup_effect = Tells socket_addr bytes | StartLookup socket_addr bytes

record connector =
  cn_client :: "socket_addr option"
  cn_refused :: nat
  cn_dropped :: nat
  cn_in_flight :: nat
  cn_memory :: name_memory
  cn_open :: bool

definition connector_datagram :: "('n4, 'n6, 're) crates \<Rightarrow> ('n4, 'n6, 're) rule_set \<Rightarrow> socket_addr \<Rightarrow> bytes \<Rightarrow> connector \<Rightarrow>
    (connector \<times> lookup_effect list, unit) res" where
  "connector_datagram k rules from buf st =
     rbind (parse_udp_request buf) (\<lambda>parsed.
       case parsed of
         None \<Rightarrow> Ok (st, [])
       | Some (dst, dst_port, payload) \<Rightarrow>
           if dst_port \<noteq> DNS_PORT then Ok (st\<lparr>cn_dropped := cn_dropped st + 1\<rparr>, [])
           else rbind (sinkhole_reply k rules dst dst_port payload) (\<lambda>pkt.
             case pkt of
               Some pkt \<Rightarrow> Ok (st, [Tells from pkt])
             | None \<Rightarrow>
                 (case dst of
                    DomainTarget _ \<Rightarrow> Ok (st, [])
                  | IpTarget ip \<Rightarrow>
                      if cn_in_flight st \<ge> DNS_MAX_IN_FLIGHT then Ok (st, [])
                      else Ok (st\<lparr>cn_in_flight := cn_in_flight st + 1\<rparr>, [StartLookup (sock_new ip dst_port) payload]))))"

fun connector_step :: "('n4, 'n6, 're) crates \<Rightarrow> ('n4, 'n6, 're) rule_set \<Rightarrow> ip_addr \<Rightarrow> lookup_event \<Rightarrow> connector \<Rightarrow>
    (connector \<times> lookup_effect list, unit) res" where
  "connector_step k rules expected_ip (Asks from buf) st =
     (if \<not> udp_source_allowed expected_ip (cn_client st) from
      then Ok (st\<lparr>cn_refused := cn_refused st + 1\<rparr>, [])
      else connector_datagram k rules from buf (if cn_client st = None then st\<lparr>cn_client := Some from\<rparr> else st))"
| "connector_step k rules expected_ip (Answer src answer now) st =
     rbind (learn_if_dns rules (sock_port src) answer now (cn_memory st)) (\<lambda>memory.
       Ok (st\<lparr>cn_memory := memory\<rparr>,
         (case cn_client st of Some c \<Rightarrow> [Tells c (build_udp_reply src answer)] | None \<Rightarrow> [])))"
| "connector_step k rules expected_ip LookupOver st = Ok (st\<lparr>cn_in_flight := cn_in_flight st - 1\<rparr>, [])"
| "connector_step k rules expected_ip ControlBytes st = Ok (st, [])"
| "connector_step k rules expected_ip Over st = Ok (st\<lparr>cn_open := False\<rparr>, [])"

fun connector_run :: "('n4, 'n6, 're) crates \<Rightarrow> ('n4, 'n6, 're) rule_set \<Rightarrow> ip_addr \<Rightarrow> lookup_event list \<Rightarrow> connector \<Rightarrow>
    (connector \<times> lookup_effect list, unit) res" where
  "connector_run k rules expected_ip [] st = Ok (st, [])"
| "connector_run k rules expected_ip (e # es) st =
     (if \<not> cn_open st then Ok (st, [])
      else rbind (connector_step k rules expected_ip e st) (\<lambda>(st, out).
             rbind (connector_run k rules expected_ip es st) (\<lambda>(st, more). Ok (st, out @ more))))"


section \<open>One client, its own ways\<close>

fun udp_permitted :: "('n4, 'n6, 're) crates \<Rightarrow> ('n4, 'n6, 're) rule_set \<Rightarrow> ip_addr \<Rightarrow> udp_event set \<Rightarrow> socket_addr \<Rightarrow> udp_effect \<Rightarrow> bool" where
  "udp_permitted k rules control_ip es client (ClientReceives a p) \<longleftrightarrow> a = client"
| "udp_permitted k rules control_ip es client (TunnelSends dst p) \<longleftrightarrow>
     (\<exists>buf l t port. Datagram client buf l \<in> es \<and> parse_udp_request buf = Ok (Some (t, port, p)) \<and>
        sinkhole_reply k rules t port p = Ok None \<and> decide k rules (host_of t) port = Proxy \<and>
        (case t of IpTarget ip \<Rightarrow> dst = sock_new ip port
         | DomainTarget name \<Rightarrow> \<exists>ip. dns_resolve (lk_dns l) name = Ok ip \<and> dst = sock_new ip port))"
| "udp_permitted k rules control_ip es client (DirectSends dst p) \<longleftrightarrow> direct_target_allowed control_ip (sock_ip dst) \<and>
     (\<exists>buf l t port. Datagram client buf l \<in> es \<and> parse_udp_request buf = Ok (Some (t, port, p)) \<and>
        sinkhole_reply k rules t port p = Ok None \<and> decide k rules (host_of t) port = Direct)"
| "udp_permitted k rules control_ip es client (UdpResolve name) \<longleftrightarrow>
     (\<exists>buf l port p. Datagram client buf l \<in> es \<and> parse_udp_request buf = Ok (Some (DomainTarget name, port, p)) \<and>
        decide k rules (Domain name) port = Proxy)"
| "udp_permitted k rules control_ip es client (UdpLookup name port) \<longleftrightarrow>
     (\<exists>buf l p. Datagram client buf l \<in> es \<and> parse_udp_request buf = Ok (Some (DomainTarget name, port, p)) \<and>
        decide k rules (Domain name) port = Direct)"

lemma udp_permitted_mono:
  "udp_permitted k rules control_ip es client out \<Longrightarrow> es \<subseteq> es' \<Longrightarrow> udp_permitted k rules control_ip es' client out"
  by (cases out) auto

lemma decide_udp_Proxy: "decide_udp k rules memory now t port = Proxy \<Longrightarrow> decide k rules (host_of t) port = Proxy"
  by (auto simp: decide_udp_def split: action.splits)

lemma recalled_block_Block: "recalled_block k rules memory now t port = Some a \<Longrightarrow> a = Block"
  by (auto simp: recalled_block_def split: target.splits option.splits if_splits)

lemma decide_udp_Direct: "decide_udp k rules memory now t port = Direct \<Longrightarrow> decide k rules (host_of t) port = Direct"
  by (auto simp: decide_udp_def split: action.splits option.splits dest: recalled_block_Block)

lemma direct_datagram_permitted:
  assumes "parse_udp_request buf = Ok (Some (t, port, p))" "sinkhole_reply k rules t port p = Ok None"
    "decide k rules (host_of t) port = Direct" "out \<in> set (direct_datagram control_ip t port p l)"
  shows "udp_permitted k rules control_ip {Datagram client buf l} client out"
  using assms
  by (cases t) (auto simp: direct_datagram_def split: option.splits list.splits if_splits)

lemma tunnel_datagram_permitted:
  assumes "parse_udp_request buf = Ok (Some (t, port, p))" "sinkhole_reply k rules t port p = Ok None"
    "decide k rules (host_of t) port = Proxy" "tunnel_datagram t port p l = Ok outs" "out \<in> set outs"
  shows "udp_permitted k rules control_ip {Datagram client buf l} client out"
  using assms
  by (cases t) (auto simp: tunnel_datagram_def split: res.splits)

lemma client_datagram_permitted:
  assumes "client_datagram k rules control_ip from buf l memory = Ok outs" "out \<in> set outs"
  shows "udp_permitted k rules control_ip {Datagram from buf l} from out"
proof -
  obtain parsed where p: "parse_udp_request buf = Ok parsed" using parse_udp_request_Ok by blast
  show ?thesis
  proof (cases parsed)
    case None
    with assms p show ?thesis by (simp add: client_datagram_def)
  next
    case (Some q)
    obtain t port pl where q: "q = (t, port, pl)" by (cases q)
    from assms(1) p Some q obtain pkt where s: "sinkhole_reply k rules t port pl = Ok pkt"
      by (auto simp: client_datagram_def rbind_eq_Ok)
    show ?thesis
    proof (cases pkt)
      case None
      with s have n: "sinkhole_reply k rules t port pl = Ok None" by simp
      show ?thesis
      proof (cases "decide_udp k rules memory (lk_now l) t port")
        case Proxy
        with assms p Some q n show ?thesis
          using tunnel_datagram_permitted [OF _ n decide_udp_Proxy [OF Proxy]] by (simp add: client_datagram_def)
      next
        case Direct
        with assms p Some q n show ?thesis
          using direct_datagram_permitted [OF _ n decide_udp_Direct [OF Direct]] by (simp add: client_datagram_def)
      next
        case Block
        with assms p Some q n show ?thesis by (simp add: client_datagram_def)
      qed
    next
      case (Some pk)
      with assms p \<open>parsed = Some q\<close> q s show ?thesis by (auto simp: client_datagram_def)
    qed
  qed
qed

text \<open>The latch: who the association serves has the expected address.\<close>

definition latched :: "ip_addr \<Rightarrow> association \<Rightarrow> bool" where
  "latched expected_ip st \<longleftrightarrow>
     (\<forall>c. as_client st = Some c \<longrightarrow> normalize_ip (sock_ip c) = normalize_ip expected_ip)"

lemma association_step_serves:
  assumes "association_step k rules expected_ip control_ip e st = Ok (st', outs)" "latched expected_ip st"
  shows "latched expected_ip st' \<and> (\<forall>c. as_client st = Some c \<longrightarrow> as_client st' = Some c) \<and>
    (\<forall>out\<in>set outs. \<exists>c. as_client st' = Some c \<and> udp_permitted k rules control_ip {e} c out)"
proof (cases e)
  case (Datagram origin buf l)
  show ?thesis
  proof (cases "udp_source_allowed expected_ip (as_client st) origin")
    case True
    let ?s = "if as_client st = None then st\<lparr>as_client := Some origin\<rparr> else st"
    from True Datagram assms(1) have d: "client_datagram k rules control_ip origin buf l (as_memory ?s) = Ok outs" and st': "st' = ?s"
      by (auto simp: rbind_eq_Ok Let_def)
    have c: "as_client ?s = Some origin" using True by (auto simp: udp_source_allowed_def)
    moreover have "latched expected_ip ?s" using True assms(2) by (auto simp: latched_def udp_source_allowed_def)
    moreover have "as_client st = Some c \<Longrightarrow> as_client ?s = Some c" for c by simp
    ultimately show ?thesis using client_datagram_permitted [OF d] unfolding st' Datagram by auto
  next
    case False
    with Datagram assms show ?thesis by (auto simp: latched_def)
  qed
qed (use assms in \<open>auto simp: returned_datagram_def rbind_eq_Ok latched_def split: option.splits\<close>)

lemma association_run_serves:
  assumes "association_run k rules expected_ip control_ip es st = Ok (st', outs)" "latched expected_ip st"
  shows "latched expected_ip st' \<and> (\<forall>c. as_client st = Some c \<longrightarrow> as_client st' = Some c) \<and>
    (\<forall>out\<in>set outs. \<exists>c. as_client st' = Some c \<and> udp_permitted k rules control_ip (set es) c out)"
  using assms
proof (induction es arbitrary: st outs)
  case (Cons e es)
  show ?case
  proof (cases "as_open st")
    case True
    with Cons.prems(1) obtain st1 out1 out2 where s: "association_step k rules expected_ip control_ip e st = Ok (st1, out1)"
      and r: "association_run k rules expected_ip control_ip es st1 = Ok (st', out2)" and outs: "outs = out1 @ out2"
      by (auto simp: rbind_eq_Ok)
    note one = association_step_serves [OF s Cons.prems(2)]
    note rest = Cons.IH [OF r conjunct1 [OF one]]
    have "\<exists>c. as_client st' = Some c \<and> udp_permitted k rules control_ip (set (e # es)) c out" if "out \<in> set outs" for out
      using that one rest outs udp_permitted_mono [of k rules control_ip "{e}" _ out "set (e # es)"]
        udp_permitted_mono [of k rules control_ip "set es" _ out "set (e # es)"] by fastforce
    with one rest show ?thesis by auto
  qed (use Cons.prems in auto)
qed simp


section \<open>No datagram stops an association\<close>

fun event_ok :: "udp_event \<Rightarrow> bool" where
  "event_ok (Datagram _ _ l) \<longleftrightarrow> ds_open (lk_dns l) \<noteq> Panic \<and> (\<forall>i. ds_send (lk_dns l) i \<noteq> Panic)"
| "event_ok (OtherTask memory) \<longleftrightarrow> memory_inv memory"
| "event_ok _ \<longleftrightarrow> True"

lemma sinkhole_reply_Ok: "\<exists>r. sinkhole_reply k rules t port p = Ok r"
proof -
  obtain q where "dns_question p = Ok q" using dns_question_Ok [of p] by blast
  then have "\<exists>r. dns_block_reply k rules p = Ok r" by (cases q) (auto simp: dns_block_reply_eq)
  then show ?thesis by (auto simp: sinkhole_reply_def Let_def split: option.splits)
qed

lemma learn_if_dns_inv: "memory_inv m \<Longrightarrow> \<exists>m'. learn_if_dns rules port data now m = Ok m' \<and> memory_inv m'"
  using learn_dns_answer_inv by (auto simp: learn_if_dns_def)

lemma tunnel_datagram_Ok:
  assumes "ds_open (lk_dns l) \<noteq> Panic" "\<And>i. ds_send (lk_dns l) i \<noteq> Panic"
  shows "\<exists>r. tunnel_datagram t port p l = Ok r"
  using dns_resolve_safe [OF assms] by (auto simp: tunnel_datagram_def split: target.splits res.splits)

lemma client_datagram_Ok:
  assumes "event_ok (Datagram origin buf l)"
  shows "\<exists>r. client_datagram k rules control_ip origin buf l memory = Ok r"
proof -
  obtain parsed where p: "parse_udp_request buf = Ok parsed" using parse_udp_request_Ok by blast
  show ?thesis
  proof (cases parsed)
    case (Some q)
    obtain t port pl where q: "q = (t, port, pl)" by (cases q)
    obtain pkt where s: "sinkhole_reply k rules t port pl = Ok pkt" using sinkhole_reply_Ok by blast
    obtain r where "tunnel_datagram t port pl l = Ok r" using tunnel_datagram_Ok assms by fastforce
    with p Some q s show ?thesis by (auto simp: client_datagram_def split: option.splits action.splits)
  qed (simp add: client_datagram_def p)
qed

lemma association_step_Ok:
  assumes "event_ok e" "memory_inv (as_memory st)"
  shows "\<exists>st' out. association_step k rules expected_ip control_ip e st = Ok (st', out) \<and> memory_inv (as_memory st')"
proof (cases e)
  case (Datagram origin buf l)
  obtain r where "client_datagram k rules control_ip origin buf l (as_memory st) = Ok r"
    using client_datagram_Ok assms(1) unfolding Datagram by blast
  with Datagram assms(2) show ?thesis by (auto simp: Let_def)
next
  case (FromStack src data now)
  with learn_if_dns_inv [OF assms(2), of rules "sock_port src" data now] show ?thesis by (auto simp: returned_datagram_def)
next
  case (FromDirect src data now)
  with learn_if_dns_inv [OF assms(2), of rules "sock_port src" data now] show ?thesis by (auto simp: returned_datagram_def)
qed (use assms in auto)

lemma association_run_Ok:
  assumes "list_all event_ok es" "memory_inv (as_memory st)"
  shows "\<exists>st' out. association_run k rules expected_ip control_ip es st = Ok (st', out) \<and> memory_inv (as_memory st')"
  using assms
proof (induction es arbitrary: st)
  case (Cons e es)
  then obtain st1 out where s: "association_step k rules expected_ip control_ip e st = Ok (st1, out)" "memory_inv (as_memory st1)"
    using association_step_Ok [of e st k rules expected_ip control_ip] by auto
  with Cons.IH [OF _ s(2)] Cons.prems show ?case by (cases "as_open st") auto
qed simp




section \<open>Lookups over streams\<close>

lemma read_framed_written:
  assumes "frame_query query = Some framed"
  shows "read_framed (framed @ rest) = Some query"
proof -
  from assms have l: "length query \<le> 65535" and f: "framed = be_bytes16 (word_of_nat (length query)) @ query"
    by (auto simp: frame_query_def split: if_splits)
  obtain a b where ab: "be_bytes16 (word_of_nat (length query)) = [a, b]" "from_be16 a b = word_of_nat (length query)"
    by (rule be_bytes16_cases)
  have "unat (from_be16 a b) = length query" unfolding ab(2) using l by (simp add: unat_word_of_nat_small)
  then show ?thesis using sub_mid [of "[a, b]" 2 query "length query" rest]
    by (simp add: f ab(1) read_framed_def Let_def del: unat_from_be16)
qed

lemma sock_port_new [simp]: "sock_port (sock_new ip p) = p"
  by (cases ip) simp_all

definition connector_inv :: "ip_addr \<Rightarrow> connector \<Rightarrow> bool" where
  "connector_inv expected_ip st \<longleftrightarrow> cn_in_flight st \<le> DNS_MAX_IN_FLIGHT \<and>
     (\<forall>c. cn_client st = Some c \<longrightarrow> normalize_ip (sock_ip c) = normalize_ip expected_ip)"

fun connector_permitted :: "('n4, 'n6, 're) crates \<Rightarrow> ('n4, 'n6, 're) rule_set \<Rightarrow> socket_addr \<Rightarrow> lookup_effect \<Rightarrow> bool" where
  "connector_permitted k rules c (Tells a p) \<longleftrightarrow> a = c"
| "connector_permitted k rules c (StartLookup a p) \<longleftrightarrow> sock_port a = DNS_PORT \<and> dns_block_reply k rules p = Ok None"

lemma connector_datagram_serves:
  assumes "connector_datagram k rules origin buf st = Ok (st', outs)" "connector_inv expected_ip st" "cn_client st = Some origin"
  shows "connector_inv expected_ip st' \<and> cn_client st' = Some origin \<and> (\<forall>out\<in>set outs. connector_permitted k rules origin out)"
proof -
  obtain parsed where p: "parse_udp_request buf = Ok parsed" using parse_udp_request_Ok by blast
  show ?thesis
  proof (cases parsed)
    case (Some q)
    obtain t port pl where q: "q = (t, port, pl)" by (cases q)
    obtain pkt where "sinkhole_reply k rules t port pl = Ok pkt" using sinkhole_reply_Ok by blast
    with assms p Some q show ?thesis
      by (cases t) (auto simp: connector_datagram_def connector_inv_def sinkhole_reply_def rbind_eq_Ok
          split: if_splits option.splits)
  qed (use assms p in \<open>simp add: connector_datagram_def\<close>)
qed

lemma connector_step_serves:
  assumes "connector_step k rules expected_ip e st = Ok (st', outs)" "connector_inv expected_ip st"
  shows "connector_inv expected_ip st' \<and> (\<forall>c. cn_client st = Some c \<longrightarrow> cn_client st' = Some c) \<and>
    (\<forall>out\<in>set outs. \<exists>c. cn_client st' = Some c \<and> connector_permitted k rules c out)"
proof (cases e)
  case (Asks origin buf)
  let ?s = "if cn_client st = None then st\<lparr>cn_client := Some origin\<rparr> else st"
  show ?thesis
  proof (cases "udp_source_allowed expected_ip (cn_client st) origin")
    case True
    then have "cn_client ?s = Some origin" "connector_inv expected_ip ?s"
      using assms(2) by (auto simp: udp_source_allowed_def connector_inv_def)
    moreover from True Asks assms(1) have "connector_datagram k rules origin buf ?s = Ok (st', outs)" by simp
    ultimately show ?thesis using connector_datagram_serves [of k rules origin buf ?s st' outs expected_ip]
      by (auto split: if_splits)
  qed (use Asks assms in \<open>auto simp: connector_inv_def\<close>)
qed (use assms in \<open>auto simp: rbind_eq_Ok connector_inv_def split: option.splits\<close>)

text \<open>The association of a connector answers the client it has latched on to, starts lookups of
  names that are not blocked, at a resolver's port, and never more of them than the limit.\<close>

lemma connector_run_serves:
  assumes "connector_run k rules expected_ip es st = Ok (st', outs)" "connector_inv expected_ip st"
  shows "connector_inv expected_ip st' \<and> (\<forall>c. cn_client st = Some c \<longrightarrow> cn_client st' = Some c) \<and>
    (\<forall>out\<in>set outs. \<exists>c. cn_client st' = Some c \<and> connector_permitted k rules c out)"
  using assms
proof (induction es arbitrary: st outs)
  case (Cons e es)
  show ?case
  proof (cases "cn_open st")
    case True
    with Cons.prems(1) obtain st1 out1 out2 where s: "connector_step k rules expected_ip e st = Ok (st1, out1)"
      and r: "connector_run k rules expected_ip es st1 = Ok (st', out2)" and outs: "outs = out1 @ out2"
      by (auto simp: rbind_eq_Ok)
    note one = connector_step_serves [OF s Cons.prems(2)]
    from one Cons.IH [OF r conjunct1 [OF one]] outs show ?thesis by fastforce
  qed (use Cons.prems in auto)
qed simp

end
