(* ===== verification/Http_Proxy.thy ===== *)
theory Http_Proxy
  imports Socks_Udp
begin

text \<open>
  The listeners of \<open>socks.rs\<close>: the dispatch of a SOCKS5 client, the client of a connector, and the
  HTTP proxy, with its request head read in pieces, the request line rewritten to origin form, and
  the three ways a request takes.
\<close>

section \<open>SOCKS5 clients\<close>

text \<open>What becomes of a client: its handler, or, after the reply, the error \<open>unsupported socks command\<close>.\<close>

datatype served = Connect | Associate | Unsupported

definition handle_client :: "bool \<Rightarrow> conn \<Rightarrow> (served \<times> target \<times> u16 \<times> conn) aresult" where
  "handle_client in_time c =
     (if \<not> in_time then Err (Other (lit ''the client did not finish the socks5 handshake in time''))
      else rbind (read_request c) (\<lambda>(cmd, target, port, c).
        if cmd = CMD_CONNECT then Ok (Connect, target, port, c)
        else if cmd = CMD_UDP_ASSOCIATE then Ok (Associate, target, port, c)
        else Ok (Unsupported, target, port, write_all (reply REP_NOT_SUPPORTED) c)))"

text \<open>A connection of a connector's client, its request read.\<close>

definition connect_through :: "proxy_env \<Rightarrow> target \<Rightarrow> u16 \<Rightarrow> unit io" where
  "connect_through env target port =
     (let host = show_target target
      in case pe_connect env host port of
           Panic \<Rightarrow> ([ConnectVia host port], Panic)
         | Ok _ \<Rightarrow> io_bind (io_do (ConnectVia host port) (Ok ())) (\<lambda>_.
             io_bind (to_client env (reply_bound unspecified)) (\<lambda>_. io_do RelayGeneric (Ok ())))
         | Err error \<Rightarrow> io_bind (io_do (ConnectVia host port) (Ok ())) (\<lambda>_.
             io_bind (tell_client (reply REP_GENERAL)) (\<lambda>_.
               ([], Err (Other (host @ lit '':'' @ show_nat (unat port) @ lit '': '' @ error))))))"

section \<open>The head of an HTTP request\<close>

definition HTTP_HEAD_LIMIT :: nat where "HTTP_HEAD_LIMIT = 16 * 1024"

fun read_head :: "bytes aresult list \<Rightarrow> bytes \<Rightarrow> (bytes \<times> bytes) aresult" where
  "read_head [] buf = Err (Other (lit ''the http client closed before sending a request''))"
| "read_head (r # rs) buf =
     rbind r (\<lambda>chunk.
       if chunk = [] then Err (Other (lit ''the http client closed before sending a request''))
       else let search_from = length buf - 3; buf = buf @ chunk
         in case find_sub head_end (drop search_from buf) of
              Some pos \<Rightarrow> Ok (take (search_from + pos + 4) buf, drop (search_from + pos + 4) buf)
            | None \<Rightarrow> if length buf > HTTP_HEAD_LIMIT then Err (Other (lit ''http request head too large''))
                else read_head rs buf)"

definition parse_authority :: "str \<Rightarrow> u16 \<Rightarrow> (str \<times> u16) option" where
  "parse_authority raw default_port =
     (let raw = trim raw
      in if raw = [] then None
         else case strip_prefix [91] raw of
           Some rest \<Rightarrow>
             (case split_once 93 rest of
                None \<Rightarrow> None
              | Some (host, tail) \<Rightarrow>
                  if host = [] then None
                  else (case strip_prefix [58] tail of
                          Some value \<Rightarrow> map_option (\<lambda>port. (host, port)) (parse_u16 value)
                        | None \<Rightarrow> Some (host, default_port)))
         | None \<Rightarrow>
             (case rsplit_once 58 raw of
                Some (host, port) \<Rightarrow>
                  if 58 \<in> set host then Some (raw, default_port)
                  else if host = [] then None
                  else map_option (\<lambda>port. (host, port)) (parse_u16 port)
              | None \<Rightarrow> Some (raw, default_port)))"

record http_request_line =
  hl_method :: str
  hl_authority :: str
  hl_port :: u16
  hl_rewritten :: "str option"

definition parse_request_line :: "str \<Rightarrow> http_request_line option" where
  "parse_request_line line =
     (case split_whitespace line of
        method # target # parts \<Rightarrow>
          (let version = (case parts of v # _ \<Rightarrow> v | [] \<Rightarrow> lit ''HTTP/1.1'')
           in if eq_ignore_ascii_case method (lit ''CONNECT'') then
                map_option (\<lambda>(auth, port). \<lparr>hl_method = method, hl_authority = auth, hl_port = port, hl_rewritten = None\<rparr>)
                  (parse_authority target 443)
              else (case (case strip_prefix (lit ''http://'') target of
                            Some rest \<Rightarrow> Some rest | None \<Rightarrow> strip_prefix (lit ''HTTP://'') target) of
                      None \<Rightarrow> None
                    | Some without_scheme \<Rightarrow>
                        (let (authority_part, path) =
                           (case find_byte 47 without_scheme of
                              Some index \<Rightarrow> (take index without_scheme, drop index without_scheme)
                            | None \<Rightarrow> (without_scheme, lit ''/''))
                         in map_option (\<lambda>(auth, port). \<lparr>hl_method = method, hl_authority = auth, hl_port = port,
                              hl_rewritten = Some (method @ lit '' '' @ path @ lit '' '' @ version @ crlf)\<rparr>)
                              (parse_authority authority_part 80))))
      | _ \<Rightarrow> None)"

section \<open>One request\<close>

definition BAD_REQUEST :: bytes where "BAD_REQUEST = lit ''HTTP/1.1 400 Bad Request'' @ crlf @ lit ''Connection: close'' @ head_end"
definition FORBIDDEN :: bytes where "FORBIDDEN = lit ''HTTP/1.1 403 Forbidden'' @ crlf @ lit ''Connection: close'' @ head_end"
definition BAD_GATEWAY :: bytes where "BAD_GATEWAY = lit ''HTTP/1.1 502 Bad Gateway'' @ crlf @ lit ''Connection: close'' @ head_end"
definition ESTABLISHED :: bytes where "ESTABLISHED = lit ''HTTP/1.1 200 Connection established'' @ head_end"

definition request_target :: "http_request_line \<Rightarrow> target" where
  "request_target request =
     (case parse_ip (hl_authority request) of Some ip \<Rightarrow> IpTarget ip | None \<Rightarrow> DomainTarget (hl_authority request))"

text \<open>The rewritten line before the rest of the head.\<close>

definition forwarded_head :: "str \<Rightarrow> str \<Rightarrow> bytes" where
  "forwarded_head line text = line @ (case split_once_str crlf text of Some (_, tail) \<Rightarrow> tail | None \<Rightarrow> [])"

definition relay_http_direct :: "proxy_env \<Rightarrow> http_request_line \<Rightarrow> bytes \<Rightarrow> bytes \<Rightarrow> unit io" where
  "relay_http_direct env request head early =
     (let (tr, connected) = connect_direct env (hl_authority request) (hl_port request);
          connected = (if pe_direct_in_time env then connected
            else Err (TimedOut, lit ''direct connect to '' @ hl_authority request @ lit '':'' @ show_nat (unat (hl_port request)) @ lit '' timed out''))
      in io_bind (tr, Ok ()) (\<lambda>_.
         case connected of
           Panic \<Rightarrow> ([], Panic)
         | Err (kind, message) \<Rightarrow>
             io_bind (tell_client (if kind = PermissionDenied then FORBIDDEN else BAD_GATEWAY)) (\<lambda>_. ([], Err (Io message)))
         | Ok _ \<Rightarrow>
             io_bind (case hl_rewritten request of
                 Some line \<Rightarrow> (let b = forwarded_head line (from_utf8_lossy head) in io_do (DirectGets b) (pe_direct_write env b))
               | None \<Rightarrow> to_client env ESTABLISHED) (\<lambda>_.
             io_bind (if early = [] then io_return () else io_do (DirectGets early) (pe_direct_write env early)) (\<lambda>_.
               io_do RelayDirect (Ok ())))))"

definition open_tunneled :: "proxy_env \<Rightarrow> target \<Rightarrow> u16 \<Rightarrow> bytes io" where
  "open_tunneled env target port =
     (case via_gateway env port of
        Some proxy \<Rightarrow> io_catch (open_through_gateway env proxy (show_target target) port) (\<lambda>_.
          io_bind (io_do RetireGateway (Ok ())) (\<lambda>_. open_resolved env target port))
      | None \<Rightarrow> open_resolved env target port)"

text \<open>A send whose failure ends the handler quietly.\<close>

definition send_or_stop :: "effect \<Rightarrow> unit aresult \<Rightarrow> unit io \<Rightarrow> unit io" where
  "send_or_stop e outcome next = io_bind (io_do e (Ok ())) (\<lambda>_. if outcome = Ok () then next else io_return ())"

definition http_tunneled :: "proxy_env \<Rightarrow> http_request_line \<Rightarrow> target \<Rightarrow> str \<Rightarrow> bytes \<Rightarrow> unit io" where
  "http_tunneled env request target text early =
     io_bind (io_catch (open_tunneled env target (hl_port request)) (\<lambda>e. io_bind (tell_client BAD_GATEWAY) (\<lambda>_. ([], Err e)))) (\<lambda>leftover.
       let relayed = io_do RelayTunneled (Ok ());
           after_preamble = (if early = [] then relayed else send_or_stop (TunnelGets early) (pe_send env early) relayed);
           after_leftover = (case hl_rewritten request of
               Some line \<Rightarrow> (let b = forwarded_head line text in send_or_stop (TunnelGets b) (pe_send env b) after_preamble)
             | None \<Rightarrow> after_preamble)
       in io_bind (case hl_rewritten request of None \<Rightarrow> to_client env ESTABLISHED | Some _ \<Rightarrow> io_return ()) (\<lambda>_.
            if leftover = [] then after_leftover
            else send_or_stop (ClientGets leftover) (pe_write env leftover) after_leftover))"

definition http_through :: "proxy_env \<Rightarrow> http_request_line \<Rightarrow> str \<Rightarrow> bytes \<Rightarrow> unit io" where
  "http_through env request text early =
     (case pe_connect env (hl_authority request) (hl_port request) of
        Panic \<Rightarrow> ([ConnectVia (hl_authority request) (hl_port request)], Panic)
      | Err error \<Rightarrow> io_bind (io_do (ConnectVia (hl_authority request) (hl_port request)) (Ok ())) (\<lambda>_.
          io_bind (tell_client BAD_GATEWAY) (\<lambda>_.
            ([], Err (Other (hl_authority request @ lit '':'' @ show_nat (unat (hl_port request)) @ lit '': '' @ error)))))
      | Ok _ \<Rightarrow> io_bind (io_do (ConnectVia (hl_authority request) (hl_port request)) (Ok ())) (\<lambda>_.
          io_bind (case hl_rewritten request of
              Some line \<Rightarrow> (let b = forwarded_head line text in io_do (RemoteGets b) (pe_remote_write env b))
            | None \<Rightarrow> to_client env ESTABLISHED) (\<lambda>_.
          io_bind (if early = [] then io_return () else io_do (RemoteGets early) (pe_remote_write env early)) (\<lambda>_.
            io_do RelayGeneric (Ok ())))))"

text \<open>Both listeners: \<open>handle_http_client\<close> for the stack, \<open>handle_http_through\<close> for a connector.\<close>

definition http_request_handled :: "('n4, 'n6, 're) crates \<Rightarrow> ('n4, 'n6, 're) rule_set \<Rightarrow> proxy_env \<Rightarrow>
    (http_request_line \<Rightarrow> target \<Rightarrow> str \<Rightarrow> bytes \<Rightarrow> unit io) \<Rightarrow> bool \<Rightarrow> bytes aresult list \<Rightarrow> unit io" where
  "http_request_handled k rules env proxied in_time reads =
     (if \<not> in_time then ([], Err (Other (lit ''the client did not send a request head in time'')))
      else io_bind ([], read_head reads []) (\<lambda>(head, early).
        let text = from_utf8_lossy head;
            first_line = (case str_lines text of line # _ \<Rightarrow> line | [] \<Rightarrow> [])
        in case parse_request_line first_line of
             None \<Rightarrow> io_bind (tell_client BAD_REQUEST) (\<lambda>_. ([], Err (Other (lit ''unsupported http proxy request: '' @ first_line))))
           | Some request \<Rightarrow>
               (let target = request_target request
                in case decide k rules (host_of target) (hl_port request) of
                     Block \<Rightarrow> tell_client FORBIDDEN
                   | Direct \<Rightarrow> relay_http_direct env request head early
                   | Proxy \<Rightarrow> proxied request target text early)))"

definition handle_http_client :: "('n4, 'n6, 're) crates \<Rightarrow> ('n4, 'n6, 're) rule_set \<Rightarrow> proxy_env \<Rightarrow> bool \<Rightarrow> bytes aresult list \<Rightarrow> unit io" where
  "handle_http_client k rules env in_time reads = http_request_handled k rules env (http_tunneled env) in_time reads"

definition handle_http_through :: "('n4, 'n6, 're) crates \<Rightarrow> ('n4, 'n6, 're) rule_set \<Rightarrow> proxy_env \<Rightarrow> bool \<Rightarrow> bytes aresult list \<Rightarrow> unit io" where
  "handle_http_through k rules env in_time reads =
     http_request_handled k rules env (\<lambda>request target text early. http_through env request text early) in_time reads"


section \<open>Requests read in pieces\<close>

lemma read_head_pieces:
  assumes "find_sub head_end (h @ early) = Some (length h - 4)" "4 \<le> length h" "length h \<le> HTTP_HEAD_LIMIT"
    and "length buf < length h" "take (length buf) h = buf" "[] \<notin> set cs"
    and "buf @ concat cs = h @ early"
  shows "\<exists>e. read_head (map Ok cs @ rs) buf = Ok (h, e) \<and> (\<exists>n. h @ e = buf @ concat (take n cs))"
  using assms
proof (induction cs arbitrary: buf)
  case Nil
  then have "length buf = length h + length early" by (metis append_Nil2 concat.simps(1) length_append)
  with Nil.prems(4) show ?case by simp
next
  case (Cons c cs)
  let ?f = "length buf - 3" and ?b = "buf @ c"
  have c: "c \<noteq> []" using Cons.prems(6) by auto
  have whole: "?b @ concat cs = h @ early" using Cons.prems(7) by simp
  have pre: "\<And>k. k \<le> length ?b \<Longrightarrow> take k ?b = take k (h @ early)"
    unfolding whole [symmetric] by simp
  have tk: "take (length ?b) (h @ early) = ?b" unfolding whole [symmetric] by simp
  have before: "find_sub head_end buf = None"
  proof -
    have "buf = take (length buf) (h @ early)" using pre [of "length buf"] by simp
    then show ?thesis using find_sub_prefix [OF Cons.prems(1), of "length buf"] Cons.prems(2,4) by (simp add: head_end_def)
  qed
  have pos: "pos_from head_end 0 ?b = pos_from head_end ?f ?b"
    using pos_from_resume [of head_end 0 buf 3 c] before by (simp add: head_end_def)
  show ?case
  proof (cases "length h \<le> length ?b")
    case True
    have "find_sub head_end (take (length ?b) (h @ early)) = Some (length h - 4)"
    proof -
      have "find_sub head_end h = Some (length h - 4)"
        using Cons.prems(1,2) unfolding find_sub_iff by (auto simp: starts_with_def head_end_def)
      then have "find_sub head_end (h @ take (length ?b - length h) early) = Some (length h - 4)"
        using find_sub_append [of head_end 0 h "length h - 4"] by (simp add: head_end_def)
      with True show ?thesis by simp
    qed
    then have "find_sub head_end ?b = Some (length h - 4)" unfolding tk .
    then have "pos_from head_end ?f ?b = Some (length h - 4)" using pos by (simp add: pos_from_def)
    then obtain p where p: "find_sub head_end (drop ?f ?b) = Some p" "?f + p = length h - 4" by (auto simp: pos_from_def)
    have h: "take (length h) ?b = h" using pre [OF True] by simp
    have "read_head (map Ok (c # cs) @ rs) buf = Ok (h, drop (length h) ?b)"
      using c p Cons.prems(2) h by (simp add: Let_def)
    moreover have "h @ drop (length h) ?b = buf @ concat (take 1 (c # cs))" using h by (metis append_take_drop_id concat.simps concat_append append_Nil2 take_Suc_Cons take_0 One_nat_def)
    ultimately show ?thesis by blast
  next
    case False
    have none: "find_sub head_end ?b = None"
      using find_sub_prefix [OF Cons.prems(1), of "length ?b"] False Cons.prems(2)
      unfolding tk by (simp add: head_end_def)
    then have "find_sub head_end (drop ?f ?b) = None" using pos by (simp add: pos_from_def)
    moreover have "take (length ?b) h = ?b" using False tk by simp
    ultimately show ?thesis
      using Cons.IH [of ?b] Cons.prems False c whole by (auto simp: Let_def) (metis concat.simps(2) append_assoc take_Suc_Cons)
  qed
qed


section \<open>Requests in absolute form\<close>

definition token :: "str \<Rightarrow> bool" where
  "token t \<longleftrightarrow> t \<noteq> [] \<and> (\<forall>b\<in>set t. 33 \<le> b \<and> b \<le> 126)"

lemma strip_seqs_plain: "list_all (\<lambda>q. q = [] \<or> hd q \<noteq> c) qs \<Longrightarrow> strip_seqs qs (c # s) = 0"
proof (induction qs)
  case (Cons q qs)
  then show ?case by (cases q) (auto simp: starts_with_def)
qed simp

lemma strip_ws_graphic:
  assumes "33 \<le> b" "b \<le> 126"
  shows "strip_seqs ws_seqs (b # s) = 0"
proof (rule strip_seqs_plain)
  have "list_all (\<lambda>q. q \<noteq> [] \<and> (hd q < 33 \<or> 126 < hd q)) ws_seqs" by code_simp
  with assms show "list_all (\<lambda>q. q = [] \<or> hd q \<noteq> b) ws_seqs"
    by (auto simp: list_all_iff)
qed

lemma split_ws_token:
  "\<forall>b\<in>set t. 33 \<le> b \<and> b \<le> 126 \<Longrightarrow> split_ws acc (t @ s) = split_ws (rev t @ acc) s"
proof (induction t arbitrary: acc)
  case (Cons b t)
  then have "split_ws acc ((b # t) @ s) = split_ws (b # acc) (t @ s)"
    by (subst split_ws.simps) (simp add: strip_ws_graphic)
  with Cons show ?case by simp
qed simp

lemma split_ws_space: "acc \<noteq> [] \<Longrightarrow> split_ws acc (32 # s) = rev acc # split_ws [] s"
  by (subst split_ws.simps) (simp add: ws_seqs_def starts_with_def)

lemma split_ws_end: "acc \<noteq> [] \<Longrightarrow> split_ws acc [] = [rev acc]"
  by (subst split_ws.simps) simp

lemma split_whitespace_three:
  assumes "token a" "token b" "token c"
  shows "split_whitespace (a @ 32 # b @ 32 # c) = [a, b, c]"
  using assms split_ws_token [of a "[]" "32 # b @ 32 # c"] split_ws_token [of b "[]" "32 # c"] split_ws_token [of c "[]" "[]"]
  by (simp add: split_whitespace_def token_def split_ws_space split_ws_end)

lemma first_line:
  assumes "10 \<notin> set line" "13 \<notin> set line"
  shows "\<exists>more. str_lines (line @ crlf @ rest) = line # more"
proof -
  have "split_on 10 (line @ crlf @ rest) = (line @ [13]) # split_on 10 rest"
    using split_on_append_sep [of 10 "line @ [13]" rest] assms by (simp add: crlf_def)
  moreover have "split_on 10 rest \<noteq> []" by (simp add: split_on_def)
  ultimately show ?thesis by (auto simp: str_lines_def Let_def drop_cr_def)
qed

lemma find_crlf_first:
  assumes "13 \<notin> set line"
  shows "find_sub crlf (line @ crlf @ rest) = Some (length line)"
  using assms by (induction line) (auto simp: crlf_def starts_with_def)

lemma forwarded_head_written: "13 \<notin> set line \<Longrightarrow> forwarded_head new (line @ crlf @ rest) = new @ rest"
  using find_crlf_first [of line rest]
  by (simp add: forwarded_head_def split_once_str_def)

lemma parse_request_line_absolute:
  assumes "token method" "token version" "token (lit ''http://'' @ auth @ path)" "\<not> eq_ignore_ascii_case method (lit ''CONNECT'')"
    and "47 \<notin> set auth" "path = 47 # p" "parse_authority auth 80 = Some (host, port)"
  shows "parse_request_line (method @ 32 # (lit ''http://'' @ auth @ path) @ 32 # version) =
    Some \<lparr>hl_method = method, hl_authority = host, hl_port = port,
      hl_rewritten = Some (method @ lit '' '' @ path @ lit '' '' @ version @ crlf)\<rparr>"
proof -
  have "find_byte 47 (auth @ path) = Some (length auth)"
    using assms(5,6) by (auto simp: find_byte_def takeWhile_append)
  moreover have "strip_prefix (lit ''http://'') (lit ''http://'' @ auth @ path) = Some (auth @ path)"
    by (simp add: strip_prefix_def starts_with_def)
  ultimately show ?thesis
    using assms(4,7) unfolding parse_request_line_def split_whitespace_three [OF assms(1,3,2)]
    by (simp del: lit_Cons)
qed


text \<open>A request as a client of a proxy writes it, and the bytes it sends after its head.\<close>

definition absolute_line :: "str \<Rightarrow> str \<Rightarrow> str \<Rightarrow> str \<Rightarrow> str" where
  "absolute_line method auth path version = method @ 32 # (lit ''http://'' @ auth @ path) @ 32 # version"

definition plain_request :: "str \<Rightarrow> str \<Rightarrow> str \<Rightarrow> str \<Rightarrow> bool" where
  "plain_request method auth path version \<longleftrightarrow> token method \<and> token version \<and> token (lit ''http://'' @ auth @ path) \<and>
     \<not> eq_ignore_ascii_case method (lit ''CONNECT'') \<and> 47 \<notin> set auth \<and> path \<noteq> [] \<and> hd path = 47"

lemma token_no_break: "token t \<Longrightarrow> 10 \<notin> set t \<and> 13 \<notin> set t"
  by (auto simp: token_def)

lemma absolute_line_no_break:
  assumes "plain_request method auth path version"
  shows "10 \<notin> set (absolute_line method auth path version)" "13 \<notin> set (absolute_line method auth path version)"
  using assms token_no_break [of "method"] token_no_break [of "version"] token_no_break [of "lit ''http://'' @ auth @ path"]
  by (auto simp: plain_request_def absolute_line_def simp del: lit_Cons)

lemma http_tunneled_trace:
  assumes "open_tunneled env target (hl_port request) = (tr, Ok [])" "hl_rewritten request = Some line"
    "\<And>b. pe_send env b = Ok ()"
  shows "http_tunneled env request target text early =
    (tr @ TunnelGets (forwarded_head line text) # (if early = [] then [] else [TunnelGets early]) @ [RelayTunneled], Ok ())"
  using assms by (simp add: http_tunneled_def Let_def io_return_def io_do_def send_or_stop_def)




end
