(* ===== verification/Quic_Ranges.thy ===== *)
theory Quic_Ranges
  imports Prelude
begin

text \<open>
  \<open>ranges.rs\<close> of quiche: sets of packet numbers and stream offsets kept as sorted ranges, in a
  small vector while there are few of them and in a B-tree map when there are more.  A range
  \<open>(s, e)\<close> is \<open>s..e\<close>, without its end; numbers are those of a 64-bit word.  A \<open>BTreeMap\<close> is the
  list of its entries in the order of their keys.
\<close>

type_synonym range = "nat \<times> nat"

abbreviation (input) u64_bound :: nat where "u64_bound \<equiv> 2 ^ 64"

definition MAX_INLINE_CAPACITY :: nat where "MAX_INLINE_CAPACITY = 4"
definition MIN_TO_INLINE :: nat where "MIN_TO_INLINE = 2"

datatype range_set = Inline "range list" nat | BTree "range list" nat

fun inner :: "range_set \<Rightarrow> range list" where
  "inner (Inline rs _) = rs"
| "inner (BTree rs _) = rs"

fun capacity :: "range_set \<Rightarrow> nat" where
  "capacity (Inline _ c) = c"
| "capacity (BTree _ c) = c"

definition rs_new :: "nat \<Rightarrow> range_set" where
  "rs_new cap = Inline [] cap"

definition rs_default :: range_set where
  "rs_default = Inline [] (usize_bound - 1)"

definition rs_len :: "range_set \<Rightarrow> nat" where
  "rs_len r = length (inner r)"

definition rs_iter :: "range_set \<Rightarrow> range list" where
  "rs_iter r = inner r"

definition rs_last :: "range_set \<Rightarrow> nat option" where
  "rs_last r = (if inner r = [] then None else Some (snd (last (inner r)) - 1))"

definition rs_eq_range :: "range_set \<Rightarrow> range \<Rightarrow> bool" where
  "rs_eq_range r other \<longleftrightarrow> rs_len r = 1 \<and> hd (rs_iter r) = other"

fun fixup :: "range_set \<Rightarrow> range_set" where
  "fixup (Inline rs c) = (if length rs = MAX_INLINE_CAPACITY then BTree rs c else Inline rs c)"
| "fixup (BTree rs c) = (if length rs \<le> MIN_TO_INLINE then Inline rs c else BTree rs c)"

section \<open>The vector\<close>

definition vec_insert :: "nat \<Rightarrow> 'a \<Rightarrow> 'a list \<Rightarrow> 'a list" where
  "vec_insert pos x xs = take pos xs @ x # drop pos xs"

definition vec_remove :: "nat \<Rightarrow> 'a list \<Rightarrow> 'a list" where
  "vec_remove pos xs = take pos xs @ drop (Suc pos) xs"

function inline_merge :: "range list \<Rightarrow> nat \<Rightarrow> nat \<Rightarrow> range list" where
  "inline_merge rs pos stop =
     (case get_at rs (pos + 1) of
        None \<Rightarrow> rs
      | Some (s, e) \<Rightarrow>
          if stop < s then rs
          else let new_e = max e stop
            in inline_merge (vec_remove (pos + 1) (rs[pos := (fst (rs ! pos), new_e)])) pos new_e)"
  by pat_completeness auto
termination
  by (relation "measure (\<lambda>(rs, pos, stop). length rs)") (auto simp: vec_remove_def get_at_Some)

declare inline_merge.simps [simp del]

text \<open>\<open>inner.remove(0)\<close> at capacity, with the position of the insertion one less.\<close>

function inline_insert_at :: "nat \<Rightarrow> nat \<Rightarrow> nat \<Rightarrow> range list \<Rightarrow> nat \<Rightarrow> (range list, unit) res" where
  "inline_insert_at cap start stop rs pos =
     (case get_at rs pos of
        Some (s, e) \<Rightarrow>
          if start > e then inline_insert_at cap start stop rs (pos + 1)
          else if stop < s then
            (if length rs = cap then
               (if pos = 0 then Panic else Ok (vec_insert (pos - 1) (start, stop) (tl rs)))
             else Ok (vec_insert pos (start, stop) rs))
          else let s' = (if start < s then start else s)
            in if stop > e then Ok (inline_merge (rs[pos := (s', stop)]) pos stop)
               else Ok (rs[pos := (s', e)])
      | None \<Rightarrow>
          if length rs = cap then (if rs = [] then Panic else Ok (tl rs @ [(start, stop)]))
          else Ok (rs @ [(start, stop)]))"
  by pat_completeness auto
termination
  by (relation "measure (\<lambda>(cap, start, stop, rs, pos). length rs - pos)") (auto simp: get_at_Some)

declare inline_insert_at.simps [simp del]

definition inline_insert :: "nat \<Rightarrow> range \<Rightarrow> range list \<Rightarrow> (range list, unit) res" where
  "inline_insert cap item rs = inline_insert_at cap (fst item) (snd item) rs 0"

fun inline_remove_until :: "nat \<Rightarrow> range list \<Rightarrow> range list" where
  "inline_remove_until largest [] = []"
| "inline_remove_until largest ((s, e) # rs) =
     (if largest \<ge> e then inline_remove_until largest rs
      else let s' = max (largest + 1) s in if s' = e then rs else (s', e) # rs)"

section \<open>The tree\<close>

definition bt_remove :: "nat \<Rightarrow> range list \<Rightarrow> range list" where
  "bt_remove k rs = filter (\<lambda>r. fst r \<noteq> k) rs"

definition bt_put :: "nat \<Rightarrow> 'v \<Rightarrow> (nat \<times> 'v) list \<Rightarrow> (nat \<times> 'v) list" where
  "bt_put k v rs = filter (\<lambda>r. fst r < k) rs @ (k, v) # filter (\<lambda>r. k < fst r) rs"

definition prev_to :: "nat \<Rightarrow> range list \<Rightarrow> range option" where
  "prev_to item rs = (let below = filter (\<lambda>r. fst r \<le> item) rs in if below = [] then None else Some (last below))"

definition next_to :: "nat \<Rightarrow> range list \<Rightarrow> range option" where
  "next_to item rs = (let above = filter (\<lambda>r. item \<le> fst r) rs in if above = [] then None else Some (hd above))"

definition range_contains :: "range \<Rightarrow> nat \<Rightarrow> bool" where
  "range_contains r x \<longleftrightarrow> fst r \<le> x \<and> x < snd r"

definition range_overlaps :: "range \<Rightarrow> range \<Rightarrow> bool" where
  "range_overlaps r other \<longleftrightarrow>
     fst other \<ge> fst r \<and> fst other \<le> snd r \<or> snd other \<ge> fst r \<and> snd other \<le> snd r"

lemma next_to_Some: "next_to item rs = Some r \<Longrightarrow> r \<in> set rs \<and> item \<le> fst r"
  unfolding next_to_def Let_def by (metis (mono_tags, lifting) hd_in_set mem_Collect_eq option.distinct(1) option.inject set_filter)

lemma bt_remove_shorter: "r \<in> set rs \<Longrightarrow> length (bt_remove (fst r) rs) < length rs"
  unfolding bt_remove_def by (rule length_filter_less) auto

text \<open>The loop over the following ranges: what is left, and the range grown over them.\<close>

function bt_absorb :: "range \<Rightarrow> range list \<Rightarrow> nat \<Rightarrow> nat \<Rightarrow> range list \<times> nat \<times> nat" where
  "bt_absorb item rs start stop =
     (case next_to start rs of
        None \<Rightarrow> (rs, start, stop)
      | Some r \<Rightarrow>
          if range_contains item (fst r) \<and> range_contains item (snd r) then bt_absorb item (bt_remove (fst r) rs) start stop
          else if \<not> range_overlaps r item then (rs, start, stop)
          else bt_absorb item (bt_remove (fst r) rs) (min start (fst r)) (max stop (snd r)))"
  by pat_completeness auto
termination
  by (relation "measure (\<lambda>(item, rs, start, stop). length rs)") (auto dest!: next_to_Some bt_remove_shorter)

declare bt_absorb.simps [simp del]

definition bt_insert :: "nat \<Rightarrow> range \<Rightarrow> range list \<Rightarrow> range list" where
  "bt_insert cap item rs =
     (let (rs, start, stop) =
        (case prev_to (fst item) rs of
           Some r \<Rightarrow>
             if range_overlaps r item then (bt_remove (fst r) rs, min (fst item) (fst r), max (snd item) (snd r))
             else (rs, fst item, snd item)
         | None \<Rightarrow> (rs, fst item, snd item));
          (rs, start, stop) = bt_absorb item rs start stop;
          rs = (if length rs \<ge> cap then tl rs else rs)
      in bt_put start stop rs)"

text \<open>\<open>largest + 1\<close> overflows for the largest number of all.\<close>

fun bt_remove_loop :: "nat \<Rightarrow> nat \<Rightarrow> range list \<Rightarrow> range list \<Rightarrow> (range list, unit) res" where
  "bt_remove_loop cap largest [] rs = Ok rs"
| "bt_remove_loop cap largest (r # ranges) rs =
     (if u64_bound \<le> largest + 1 then Panic
      else let rs = bt_remove (fst r) rs
        in bt_remove_loop cap largest ranges
             (if snd r > largest + 1 then bt_insert cap (largest + 1, snd r) rs else rs))"

definition bt_remove_until :: "nat \<Rightarrow> nat \<Rightarrow> range list \<Rightarrow> (range list, unit) res" where
  "bt_remove_until cap largest rs = bt_remove_loop cap largest (filter (\<lambda>r. fst r \<le> largest) rs) rs"

section \<open>Both\<close>

definition rs_insert :: "range \<Rightarrow> range_set \<Rightarrow> (range_set, unit) res" where
  "rs_insert item r =
     (case r of
        Inline rs c \<Rightarrow> rbind (inline_insert c item rs) (\<lambda>rs. Ok (fixup (Inline rs c)))
      | BTree rs c \<Rightarrow> Ok (fixup (BTree (bt_insert c item rs) c)))"

definition rs_remove_until :: "nat \<Rightarrow> range_set \<Rightarrow> (range_set, unit) res" where
  "rs_remove_until largest r =
     (case r of
        Inline rs c \<Rightarrow> Ok (fixup (Inline (inline_remove_until largest rs) c))
      | BTree rs c \<Rightarrow> rbind (bt_remove_until c largest rs) (\<lambda>rs. Ok (fixup (BTree rs c))))"

definition push_item :: "nat \<Rightarrow> range_set \<Rightarrow> (range_set, unit) res" where
  "push_item item r = (if u64_bound \<le> item + 1 then Panic else rs_insert (item, item + 1) r)"

section \<open>What the ranges stand for\<close>

definition points :: "range list \<Rightarrow> nat set" where
  "points rs = (\<Union>(s, e)\<in>set rs. {s..<e})"

definition canonical :: "range list \<Rightarrow> bool" where
  "canonical rs \<longleftrightarrow> (\<forall>r\<in>set rs. fst r < snd r) \<and> sorted_wrt (\<lambda>a b. snd a < fst b) rs"

lemma points_simps [simp]: "points [] = {}" "points (r # rs) = {fst r..<snd r} \<union> points rs"
  "points (xs @ ys) = points xs \<union> points ys"
  by (auto simp: points_def)

lemma canonical_simps [simp]: "canonical []"
  "canonical (r # rs) \<longleftrightarrow> fst r < snd r \<and> (\<forall>b\<in>set rs. snd r < fst b) \<and> canonical rs"
  by (auto simp: canonical_def)

lemma canonical_append: "canonical (xs @ ys) \<longleftrightarrow> canonical xs \<and> canonical ys \<and> (\<forall>a\<in>set xs. \<forall>b\<in>set ys. snd a < fst b)"
  by (induction xs) auto

lemma canonical_fst: "canonical (xs @ ys) \<Longrightarrow> a \<in> set xs \<Longrightarrow> b \<in> set ys \<Longrightarrow> fst a < fst b"
  using canonical_append [of xs ys] canonical_def [of xs] by (meson less_trans)

lemma canonical_mid:
  assumes "canonical (B @ t # A)"
  shows "\<forall>b\<in>set B. fst b < fst t" "\<forall>a\<in>set A. fst t < fst a" "fst t < snd t" "canonical (B @ A)"
  using canonical_fst [of B "t # A"] canonical_fst [of "B @ [t]" A] assms by (fastforce, fastforce, auto simp: canonical_append)

lemma canonical_last: "canonical rs \<Longrightarrow> rs \<noteq> [] \<Longrightarrow> fst (last rs) < snd (last rs)"
  by (simp add: canonical_def)

text \<open>The insertion as one pass over the ranges, with no capacity.\<close>

fun grow :: "nat \<Rightarrow> nat \<Rightarrow> range list \<Rightarrow> range list" where
  "grow start stop [] = [(start, stop)]"
| "grow start stop ((s, e) # rs) = (if stop < s then (start, stop) # (s, e) # rs else grow start (max e stop) rs)"

fun merged :: "nat \<Rightarrow> nat \<Rightarrow> range list \<Rightarrow> range list" where
  "merged start stop [] = [(start, stop)]"
| "merged start stop ((s, e) # rs) =
     (if e < start then (s, e) # merged start stop rs
      else if stop < s then (start, stop) # (s, e) # rs
      else grow (min start s) (max stop e) rs)"

lemma grow_facts:
  assumes "canonical rs" "start < stop" "\<forall>b\<in>set rs. start < fst b"
  shows "canonical (grow start stop rs) \<and> points (grow start stop rs) = {start..<stop} \<union> points rs \<and>
    (\<forall>b\<in>set (grow start stop rs). start \<le> fst b)"
  using assms
proof (induction start stop rs rule: grow.induct)
  case (2 start stop s e rs)
  show ?case
  proof (cases "stop < s")
    case False
    from 2(2-4) have se: "s < e" "start < s" "canonical rs" "\<forall>b\<in>set rs. start < fst b" by auto
    with 2(1) [OF False] 2(3) False show ?thesis by auto
  qed (use 2 in auto)
qed auto

lemma merged_facts:
  assumes "canonical rs" "start < stop"
  shows "canonical (merged start stop rs) \<and> points (merged start stop rs) = {start..<stop} \<union> points rs \<and>
    (\<forall>b\<in>set (merged start stop rs). min start (fst (hd (rs @ [(start, stop)]))) \<le> fst b)"
  using assms
proof (induction start stop rs rule: merged.induct)
  case (2 start stop s e rs)
  consider "e < start" | "\<not> e < start" "stop < s" | "\<not> e < start" "\<not> stop < s" by blast
  then show ?case
  proof cases
    case 1
    from 2(2) have "\<forall>b\<in>set rs. e < fst b" "canonical rs" by auto
    with 2(1) [OF 1] 2(2,3) 1 show ?thesis by (cases rs) force+
  next
    case 3
    from 2(2) have "\<forall>b\<in>set rs. min start s < fst b" "canonical rs" "s < e" by auto
    with grow_facts [of rs "min start s" "max stop e"] 2(3) 3 show ?thesis by auto
  qed (use 2 in auto)
qed auto


section \<open>The vector inserts as the one pass does\<close>

lemma inline_merge_grow: "inline_merge (pre @ (s, stop) # rs) (length pre) stop = pre @ grow s stop rs"
proof (induction rs arbitrary: stop)
  case Nil
  then show ?case by (subst inline_merge.simps) (simp add: get_at_def)
next
  case (Cons r rs)
  obtain s2 e2 where r: "r = (s2, e2)" by (cases r)
  have g: "get_at (pre @ (s, stop) # (s2, e2) # rs) (Suc (length pre)) = Some (s2, e2)" by (simp add: get_at_def nth_append)
  have v: "vec_remove (Suc (length pre)) (pre @ (s, k) # (s2, e2) # rs) = pre @ (s, k) # rs" for k
    by (simp add: vec_remove_def)
  show ?case
    using Cons [of "max e2 stop"] unfolding r
    by (subst inline_merge.simps) (simp only: g v Let_def One_nat_def add_Suc_right add_0_right option.case prod.case list_update_length nth_append_length fst_conv grow.simps split: if_splits; simp)
qed

lemma grow_past: "\<forall>b\<in>set rs. stop < fst b \<Longrightarrow> grow start stop rs = (start, stop) # rs"
  by (cases rs) auto

lemma inline_insert_merged:
  assumes "canonical rs" "length (pre @ rs) \<noteq> cap"
  shows "inline_insert_at cap start stop (pre @ rs) (length pre) = Ok (pre @ merged start stop rs)"
  using assms
proof (induction rs arbitrary: pre)
  case Nil
  then show ?case by (subst inline_insert_at.simps) (simp add: get_at_def)
next
  case (Cons r rs)
  obtain s e where r: "r = (s, e)" by (cases r)
  have g: "get_at (pre @ r # rs) (length pre) = Some (s, e)" by (simp add: get_at_def r)
  have v: "vec_insert (length pre) x (pre @ r # rs) = pre @ x # r # rs" for x by (simp add: vec_insert_def)
  consider "e < start" | "\<not> e < start" "stop < s" | "\<not> e < start" "\<not> stop < s" by blast
  then show ?case
  proof cases
    case 1
    with Cons.IH [of "pre @ [r]"] Cons.prems g r show ?thesis by (subst inline_insert_at.simps) simp
  next
    case 2
    with Cons.prems g v r show ?thesis by (subst inline_insert_at.simps) simp
  next
    case 3
    have "\<forall>b\<in>set rs. e < fst b" using Cons.prems(1) r by simp
    with 3 g r grow_past [of rs e] inline_merge_grow [of pre _ stop rs] show ?thesis
      by (subst inline_insert_at.simps) (auto simp: Let_def min_def max_def not_less le_less)
  qed
qed

section \<open>The tree inserts as the one pass does\<close>

lemma touched_split:
  assumes "canonical rs" "start < stop"
  shows "\<exists>B T A. rs = B @ T @ A \<and> (\<forall>b\<in>set B. snd b < start) \<and> (\<forall>t\<in>set T. start \<le> snd t \<and> fst t \<le> stop) \<and>
    (\<forall>a\<in>set A. stop < fst a)"
  using assms(1)
proof (induction rs)
  case (Cons r rs)
  then obtain B T A where d: "rs = B @ T @ A" "\<forall>b\<in>set B. snd b < start" "\<forall>t\<in>set T. start \<le> snd t \<and> fst t \<le> stop"
    "\<forall>a\<in>set A. stop < fst a" by auto
  consider "snd r < start" | "stop < fst r" | "start \<le> snd r" "fst r \<le> stop" by linarith
  then show ?case
  proof cases
    case 1
    with d show ?thesis by (intro exI [of _ "r # B"] exI [of _ T] exI [of _ A]) simp
  next
    case 2
    with Cons.prems have "\<forall>a\<in>set (r # rs). stop < fst a" by auto
    then show ?thesis by (intro exI [of _ "[]"] exI [of _ "[]"] exI [of _ "r # rs"]) simp
  next
    case 3
    with Cons.prems d have "B = []" by (cases B) auto
    with d 3 show ?thesis by (intro exI [of _ "[]"] exI [of _ "r # T"] exI [of _ A]) simp
  qed
qed simp

definition grown :: "nat \<Rightarrow> range list \<Rightarrow> nat" where
  "grown cur T = (if T = [] then cur else max cur (snd (last T)))"

lemma grown_Cons:
  assumes "canonical (t # T)"
  shows "grown cur (t # T) = grown (max cur (snd t)) T"
proof (cases "T = []")
  case False
  then have "snd t < fst (last T)" "fst (last T) < snd (last T)" using assms canonical_last by auto
  with False show ?thesis by (simp add: grown_def max_def)
qed (simp add: grown_def)

lemma grow_split:
  assumes "canonical (T @ A)" "\<forall>t\<in>set T. fst t \<le> cur" "\<forall>a\<in>set A. cur < fst a"
  shows "grow start cur (T @ A) = (start, grown cur T) # A"
  using assms
proof (induction T arbitrary: cur)
  case Nil
  then show ?case using grow_past by (simp add: grown_def)
next
  case (Cons t T)
  obtain s e where t: "t = (s, e)" by (cases t)
  have "grow start (max e cur) (T @ A) = (start, grown (max e cur) T) # A"
    using Cons.prems t by (intro Cons.IH) (auto simp: canonical_append le_max_iff_disj)
  moreover have "grown cur (t # T) = grown (max cur e) T"
    using grown_Cons [of t T cur] Cons.prems(1) t by (simp add: canonical_append)
  ultimately show ?case using Cons.prems(2) t by (simp add: max.commute)
qed

lemma merged_split:
  assumes "canonical (B @ T @ A)" "start < stop" "\<forall>b\<in>set B. snd b < start" "\<forall>t\<in>set T. start \<le> snd t \<and> fst t \<le> stop"
    "\<forall>a\<in>set A. stop < fst a"
  shows "merged start stop (B @ T @ A) = B @ (if T = [] then start else min start (fst (hd T)), grown stop T) # A"
  using assms
proof (induction B)
  case Nil
  show ?case
  proof (cases T)
    case Nil
    with \<open>\<forall>a\<in>set A. stop < fst a\<close> \<open>start < stop\<close> Nil.prems(1) show ?thesis by (cases A) (auto simp: grown_def)
  next
    case (Cons t T')
    obtain s e where t: "t = (s, e)" by (cases t)
    have "grow (min start s) (max stop e) (T' @ A) = (min start s, grown (max stop e) T') # A"
      using Nil.prems Cons t by (intro grow_split) (auto simp: canonical_append le_max_iff_disj)
    moreover have "grown stop (t # T') = grown (max stop e) T'"
      using grown_Cons [of t T' stop] Nil.prems(1) Cons t by (simp add: canonical_append)
    ultimately show ?thesis using Nil.prems(4) Cons t by auto
  qed
qed auto


lemma filter_none: "\<forall>x\<in>set xs. \<not> P x \<Longrightarrow> filter P xs = []"
  by (simp add: filter_empty_conv)

lemma bt_remove_mid:
  assumes "canonical (B @ t # A)"
  shows "bt_remove (fst t) (B @ t # A) = B @ A"
proof -
  have "\<forall>b\<in>set B. fst b \<noteq> fst t" "\<forall>a\<in>set A. fst a \<noteq> fst t" using canonical_mid [OF assms] by auto
  then show ?thesis by (simp add: bt_remove_def filter_id_conv)
qed

lemma bt_put_mid:
  assumes "\<forall>b\<in>set B. fst b < k" "\<forall>a\<in>set A. k < fst a"
  shows "bt_put k v (B @ A) = B @ (k, v) # A"
proof -
  have "filter (\<lambda>r. fst r < k) A = []" "filter (\<lambda>r. k < fst r) B = []" using assms by (force intro: filter_none)+
  with assms show ?thesis by (simp add: bt_put_def filter_id_conv)
qed

lemma next_to_mid:
  assumes "\<forall>b\<in>set B. fst b < k" "\<forall>a\<in>set A. k \<le> fst a"
  shows "next_to k (B @ A) = (if A = [] then None else Some (hd A))"
proof -
  have "filter (\<lambda>r. k \<le> fst r) B = []" using assms by (force intro: filter_none)
  with assms show ?thesis by (simp add: next_to_def filter_id_conv)
qed

lemma prev_to_mid:
  assumes "\<forall>b\<in>set B. fst b \<le> k" "\<forall>a\<in>set A. k < fst a"
  shows "prev_to k (B @ A) = (if B = [] then None else Some (last B))"
proof -
  have "filter (\<lambda>r. fst r \<le> k) A = []" using assms by (force intro: filter_none)
  with assms show ?thesis by (simp add: prev_to_def filter_id_conv)
qed

lemma bt_absorb_split:
  assumes "canonical (B @ T @ A)" "start < stop" "s0 \<le> start" "stop \<le> cur"
    "\<forall>b\<in>set B. fst b < s0" "\<forall>t\<in>set T. start < fst t \<and> fst t \<le> stop" "\<forall>a\<in>set A. stop < fst a"
    "\<forall>a\<in>set A. cur < fst a"
  shows "bt_absorb (start, stop) (B @ T @ A) s0 cur = (B @ A, s0, grown cur T)"
  using assms
proof (induction T arbitrary: cur)
  case Nil
  then have n: "next_to s0 (B @ A) = (if A = [] then None else Some (hd A))" by (intro next_to_mid) auto
  have "\<not> (fst (hd A) \<le> stop)" if "A \<noteq> []" using Nil(7) hd_in_set [OF that] by (metis leD)
  with n Nil.prems(2) show ?case
    by (subst bt_absorb.simps) (auto simp: grown_def range_contains_def range_overlaps_def)
next
  case (Cons t T)
  then have n: "next_to s0 (B @ t # T @ A) = Some t" by (subst next_to_mid) auto
  have r: "bt_remove (fst t) (B @ t # T @ A) = B @ T @ A" using Cons.prems(1) by (intro bt_remove_mid) simp
  have c: "canonical (B @ T @ A)" "fst t < snd t" "\<forall>a\<in>set A. snd t < fst a" using Cons.prems(1) by (auto simp: canonical_append)
  have "\<forall>a\<in>set A. max cur (snd t) < fst a" using Cons.prems(8) c(3) by simp
  then have IH: "bt_absorb (start, stop) (B @ T @ A) s0 k = (B @ A, s0, grown k T)" if "k = cur \<or> k = max cur (snd t)" for k
    using Cons.prems c that by (intro Cons.IH) (elim disjE; simp)+
  have "grown cur (t # T) = grown (max cur (snd t)) T" using grown_Cons Cons.prems(1) by (simp add: canonical_append)
  moreover have "max cur (snd t) = cur" if "snd t < stop" using Cons.prems(4) that by simp
  ultimately show ?case
    using n r c Cons.prems(3,6) IH [of cur] IH [of "max cur (snd t)"]
    by (subst bt_absorb.simps) (auto simp: range_contains_def range_overlaps_def min_absorb1)
qed


text \<open>The ranges an insertion leaves as they are: those before and after what it touches.\<close>

lemma bt_insert_split:
  assumes "canonical (B @ T @ A)" "start < stop" "\<forall>b\<in>set B. snd b < start" "\<forall>t\<in>set T. start \<le> snd t \<and> fst t \<le> stop"
    "\<forall>a\<in>set A. stop < fst a"
  defines "s0 \<equiv> if T = [] then start else min start (fst (hd T))"
  shows "bt_insert cap (start, stop) (B @ T @ A) =
    bt_put s0 (grown stop T) (if cap \<le> length (B @ A) then tl (B @ A) else B @ A)"
proof -
  have B: "\<forall>b\<in>set B. fst b < start" using assms(1,3) by (force simp: canonical_append canonical_def)
  show ?thesis
  proof (cases "T = [] \<or> start < fst (hd T)")
    case True
    then have T: "\<forall>t\<in>set T. start < fst t" using assms(1) by (cases T) (force simp: canonical_append)+
    have "prev_to start (B @ T @ A) = (if B = [] then None else Some (last B))"
      using B T assms(2,5) by (intro prev_to_mid) (auto simp: less_imp_le)
    moreover have "\<not> range_overlaps (last B) (start, stop)" if "B \<noteq> []"
    proof -
      have "snd (last B) < start" using assms(3) last_in_set [OF that] by blast
      with assms(2) show ?thesis by (simp add: range_overlaps_def)
    qed
    moreover have "bt_absorb (start, stop) (B @ T @ A) start stop = (B @ A, start, grown stop T)"
      using B T assms by (intro bt_absorb_split) auto
    moreover have "s0 = start" using True by (auto simp: s0_def)
    ultimately show ?thesis by (auto simp: bt_insert_def Let_def)
  next
    case False
    then obtain t T' where T: "T = t # T'" "fst t \<le> start" by (cases T) auto
    have c: "canonical (B @ t # T' @ A)" using assms(1) T by simp
    have T': "\<forall>x\<in>set T'. start < fst x" 
    proof
      fix x assume "x \<in> set T'"
      then have "snd t < fst x" "start \<le> snd t" using c assms(4) T by (auto simp: canonical_append)
      then show "start < fst x" by simp
    qed
    have "prev_to start ((B @ [t]) @ T' @ A) = Some t"
      using B T T' assms(2,5) by (subst prev_to_mid) (auto simp: less_imp_le)
    moreover have "range_overlaps t (start, stop)" using assms(4) T by (simp add: range_overlaps_def)
    moreover have "bt_remove (fst t) (B @ t # T' @ A) = B @ T' @ A" using c by (rule bt_remove_mid)
    moreover have "bt_absorb (start, stop) (B @ T' @ A) (fst t) (max stop (snd t)) = (B @ A, fst t, grown (max stop (snd t)) T')"
      using c T T' assms canonical_fst [of B "t # T' @ A"] by (intro bt_absorb_split) (auto simp: canonical_append)
    moreover have "grown stop T = grown (max stop (snd t)) T'" using c T grown_Cons by (simp add: canonical_append)
    moreover have "s0 = fst t" using T by (simp add: s0_def)
    ultimately show ?thesis using T by (simp add: bt_insert_def Let_def min_absorb2)
  qed
qed

lemma insert_split:
  assumes "canonical rs" "start < stop"
  obtains B A s0 e0 where "merged start stop rs = B @ (s0, e0) # A" "length (B @ A) \<le> length rs"
    "length (B @ A) = length rs \<longrightarrow> rs = B @ A \<and> s0 = start \<and> e0 = stop"
    "bt_insert cap (start, stop) rs = bt_put s0 e0 (if cap \<le> length (B @ A) then tl (B @ A) else B @ A)"
    "set (B @ A) \<subseteq> set rs"
    "s0 \<le> start" "stop \<le> e0"
proof -
  obtain B T A where d: "rs = B @ T @ A" "\<forall>b\<in>set B. snd b < start" "\<forall>t\<in>set T. start \<le> snd t \<and> fst t \<le> stop"
    "\<forall>a\<in>set A. stop < fst a" using touched_split [OF assms] by blast
  show thesis
    using bt_insert_split [of B T A start stop cap] merged_split [of B T A start stop] assms d
    by (intro that [of B "if T = [] then start else min start (fst (hd T))" "grown stop T" A]) (auto simp: grown_def)
qed

lemma bt_insert_merged:
  assumes "canonical rs" "start < stop" "length rs < cap"
  shows "bt_insert cap (start, stop) rs = merged start stop rs"
proof -
  obtain B A s0 e0 where d: "merged start stop rs = B @ (s0, e0) # A" "length (B @ A) \<le> length rs"
    "bt_insert cap (start, stop) rs = bt_put s0 e0 (if cap \<le> length (B @ A) then tl (B @ A) else B @ A)"
    using insert_split [OF assms(1,2), of cap] by metis
  have c: "canonical (B @ (s0, e0) # A)" using merged_facts [OF assms(1,2)] d by simp
  have "bt_put s0 e0 (B @ A) = B @ (s0, e0) # A"
    using canonical_mid [OF c] by (intro bt_put_mid) auto
  with d assms(3) show ?thesis by simp
qed


lemma points_mono: "set xs \<subseteq> set ys \<Longrightarrow> points xs \<subseteq> points ys"
  by (auto simp: points_def)

text \<open>At its capacity the tree gives up the smallest range it had, never the new one.\<close>

lemma bt_insert_full:
  assumes "canonical rs" "start < stop" "length rs = cap" "0 < cap"
  shows "canonical (bt_insert cap (start, stop) rs) \<and> length (bt_insert cap (start, stop) rs) \<le> cap \<and>
    {start..<stop} \<subseteq> points (bt_insert cap (start, stop) rs) \<and>
    points (bt_insert cap (start, stop) rs) \<subseteq> points rs \<union> {start..<stop}"
proof -
  obtain B A s0 e0 where d: "merged start stop rs = B @ (s0, e0) # A" "length (B @ A) \<le> length rs"
    "bt_insert cap (start, stop) rs = bt_put s0 e0 (if cap \<le> length (B @ A) then tl (B @ A) else B @ A)" "s0 \<le> start" "stop \<le> e0"
    using insert_split [OF assms(1,2), of cap] by metis
  have c: "canonical (B @ (s0, e0) # A)" and p: "points (B @ (s0, e0) # A) = {start..<stop} \<union> points rs"
    using merged_facts [OF assms(1,2)] d(1) by auto
  define B' where "B' = (if cap \<le> length (B @ A) then tl B else B)"
  define A' where "A' = (if cap \<le> length (B @ A) \<and> B = [] then tl A else A)"
  have "(if cap \<le> length (B @ A) then tl (B @ A) else B @ A) = B' @ A'" by (cases B) (auto simp: A'_def B'_def)
  moreover have sub: "set B' \<subseteq> set B" "set A' \<subseteq> set A" by (cases B; cases A; auto simp: B'_def A'_def)+
  moreover have "\<forall>b\<in>set B'. fst b < s0" "\<forall>a\<in>set A'. s0 < fst a" using canonical_mid(1,2) [OF c] sub by auto
  ultimately have o: "bt_insert cap (start, stop) rs = B' @ (s0, e0) # A'" using d(3) bt_put_mid by simp
  have "canonical (B' @ (s0, e0) # A')"
    using c by (cases B; cases A) (auto simp: canonical_append B'_def A'_def)
  moreover have "length (B' @ A') < cap"
    using d(2) assms(3,4) by (cases B; cases A) (auto simp: B'_def A'_def)
  moreover have "points (B' @ (s0, e0) # A') \<subseteq> points (B @ (s0, e0) # A)" using sub by (intro points_mono) auto
  moreover have "{start..<stop} \<subseteq> points (B' @ (s0, e0) # A')" using d(4,5) by auto
  ultimately show ?thesis unfolding o using p by auto
qed

section \<open>Removing\<close>

lemma remove_until_facts:
  assumes "canonical rs"
  shows "canonical (inline_remove_until largest rs) \<and> points (inline_remove_until largest rs) = points rs - {..largest} \<and>
    length (inline_remove_until largest rs) \<le> length rs"
  using assms
proof (induction rs)
  case (Cons r rs)
  obtain s e where r: "r = (s, e)" by (cases r)
  show ?case
  proof (cases "largest \<ge> e")
    case True
    then have "{s..<e} - {..largest} = {}" by auto
    with Cons True r show ?thesis by (auto simp: Un_Diff)
  next
    case False
    have "\<forall>b\<in>set rs. e < fst b" using Cons.prems r by simp
    with False have "points rs - {..largest} = points rs" by (fastforce simp: points_def)
    moreover have "{s..<e} - {..largest} = {max (largest + 1) s..<e}" by auto
    ultimately show ?thesis using Cons.prems False r by (auto simp: Let_def Un_Diff)
  qed
qed simp

lemma remove_until_past: "\<forall>a\<in>set rs. largest < fst a \<Longrightarrow> canonical rs \<Longrightarrow> inline_remove_until largest rs = rs"
  by (cases rs) (auto simp: Let_def max_def)

lemma bt_remove_loop_inline:
  assumes "canonical (B @ A)" "\<forall>b\<in>set B. fst b \<le> largest" "\<forall>a\<in>set A. largest < fst a" "length (B @ A) \<le> cap"
    "largest + 1 < u64_bound"
  shows "bt_remove_loop cap largest B (B @ A) = Ok (inline_remove_until largest (B @ A))"
  using assms
proof (induction B)
  case Nil
  then show ?case using remove_until_past by simp
next
  case (Cons b B)
  obtain s e where b: "b = (s, e)" by (cases b)
  have r: "bt_remove s (b # B @ A) = B @ A" using bt_remove_mid [of "[]" b "B @ A"] Cons.prems(1) b by simp
  show ?case
  proof (cases "largest + 1 < e")
    case True
    then have "B = []" using Cons.prems b by (cases B) auto
    moreover have "bt_insert cap (largest + 1, e) A = merged (largest + 1) e A"
      using Cons.prems True by (intro bt_insert_merged) (auto simp: canonical_append)
    moreover have "merged (largest + 1) e A = (largest + 1, e) # A" using Cons.prems b True \<open>B = []\<close> by (cases A) auto
    ultimately show ?thesis using Cons.prems b r True by (auto simp: Let_def max_def)
  next
    case False
    with Cons b r show ?thesis
      using remove_until_past [of "B @ A" largest] by (cases B) (auto simp: Let_def max_def)
  qed
qed


lemma bt_remove_until_inline:
  assumes "canonical rs" "length rs \<le> cap" "largest + 1 < u64_bound"
  shows "bt_remove_until cap largest rs = Ok (inline_remove_until largest rs)"
proof -
  have "\<exists>B A. rs = B @ A \<and> (\<forall>b\<in>set B. fst b \<le> largest) \<and> (\<forall>a\<in>set A. largest < fst a)"
    using assms(1)
  proof (induction rs)
    case (Cons r rs)
    then obtain B A where d: "rs = B @ A" "\<forall>b\<in>set B. fst b \<le> largest" "\<forall>a\<in>set A. largest < fst a" by auto
    show ?case
    proof (cases "fst r \<le> largest")
      case True
      with d show ?thesis by (intro exI [of _ "r # B"] exI [of _ A]) simp
    next
      case False
      with Cons.prems have "\<forall>a\<in>set (r # rs). largest < fst a" by auto
      then show ?thesis by (intro exI [of _ "[]"] exI [of _ "r # rs"]) simp
    qed
  qed simp
  then obtain B A where d: "rs = B @ A" "\<forall>b\<in>set B. fst b \<le> largest" "\<forall>a\<in>set A. largest < fst a" by blast
  then have "filter (\<lambda>r. fst r \<le> largest) rs = B" by (auto simp: filter_id_conv not_le intro: filter_none)
  with bt_remove_loop_inline [of B A largest cap] d assms show ?thesis by (simp add: bt_remove_until_def)
qed

section \<open>The contract of a set of ranges\<close>

datatype range_op = Put nat nat | Cut nat

fun range_op_ok :: "range_op \<Rightarrow> bool" where
  "range_op_ok (Put a b) \<longleftrightarrow> a < b"
| "range_op_ok (Cut l) \<longleftrightarrow> l + 1 < u64_bound"

fun range_op_spec :: "range_op \<Rightarrow> nat set \<Rightarrow> nat set" where
  "range_op_spec (Put a b) P = P \<union> {a..<b}"
| "range_op_spec (Cut l) P = P - {..l}"

fun range_run :: "(range \<Rightarrow> 's \<Rightarrow> ('s, unit) res) \<Rightarrow> (nat \<Rightarrow> 's \<Rightarrow> ('s, unit) res) \<Rightarrow> range_op list \<Rightarrow> 's \<Rightarrow> ('s, unit) res" where
  "range_run put trim [] s = Ok s"
| "range_run put trim (Put a b # ops) s = rbind (put (a, b) s) (range_run put trim ops)"
| "range_run put trim (Cut l # ops) s = rbind (trim l s) (range_run put trim ops)"

text \<open>
  A store of ranges: \<open>pts\<close> are the numbers it holds, \<open>size\<close> counts its ranges and \<open>room\<close> is its
  capacity.  While there is room, what it holds is the union of what was put, less what was trimmed.
\<close>

locale range_store =
  fixes ok :: "'s \<Rightarrow> bool"
    and pts :: "'s \<Rightarrow> nat set"
    and count :: "'s \<Rightarrow> nat"
    and room :: "'s \<Rightarrow> nat"
    and put :: "range \<Rightarrow> 's \<Rightarrow> ('s, unit) res"
    and trim :: "nat \<Rightarrow> 's \<Rightarrow> ('s, unit) res"
  assumes put_law: "ok s \<Longrightarrow> a < b \<Longrightarrow> count s < room s \<Longrightarrow>
      \<exists>s'. put (a, b) s = Ok s' \<and> ok s' \<and> room s' = room s \<and> count s' \<le> count s + 1 \<and> pts s' = pts s \<union> {a..<b}"
    and trim_law: "ok s \<Longrightarrow> l + 1 < u64_bound \<Longrightarrow>
      \<exists>s'. trim l s = Ok s' \<and> ok s' \<and> room s' = room s \<and> count s' \<le> count s \<and> pts s' = pts s - {..l}"
begin

lemma run_exact:
  assumes "ok s" "list_all range_op_ok ops" "count s + length ops \<le> room s"
  shows "\<exists>s'. range_run put trim ops s = Ok s' \<and> ok s' \<and> pts s' = fold range_op_spec ops (pts s)"
  using assms
proof (induction ops arbitrary: s)
  case (Cons x ops)
  show ?case
  proof (cases x)
    case (Put a b)
    with put_law [of s a b] Cons.prems obtain s' where s: "put (a, b) s = Ok s'" "ok s'" "room s' = room s"
      "count s' \<le> count s + 1" "pts s' = pts s \<union> {a..<b}" by auto
    with Cons.IH [of s'] Cons.prems Put show ?thesis by auto
  next
    case (Cut l)
    with trim_law [of s l] Cons.prems obtain s' where s: "trim l s = Ok s'" "ok s'" "room s' = room s"
      "count s' \<le> count s" "pts s' = pts s - {..l}" by auto
    with Cons.IH [of s'] Cons.prems Cut show ?thesis by auto
  qed
qed simp

end

definition ranges_ok :: "nat \<Rightarrow> range list \<Rightarrow> bool" where
  "ranges_ok cap rs \<longleftrightarrow> canonical rs \<and> length rs \<le> cap"

definition set_ok :: "range_set \<Rightarrow> bool" where
  "set_ok r \<longleftrightarrow> ranges_ok (capacity r) (inner r) \<and>
     (case r of Inline rs _ \<Rightarrow> length rs < MAX_INLINE_CAPACITY | BTree rs _ \<Rightarrow> MIN_TO_INLINE < length rs)"

lemma merged_length: "length (merged start stop rs) \<le> length rs + 1"
proof -
  have "length (grow start stop rs) \<le> length rs + 1" for start stop rs
    by (induction start stop rs rule: grow.induct) auto
  then show ?thesis by (induction start stop rs rule: merged.induct) (auto simp: le_SucI)
qed

interpretation vec_ranges: range_store "ranges_ok cap" points length "\<lambda>_. cap" "inline_insert cap"
    "\<lambda>l rs. Ok (inline_remove_until l rs)" for cap
proof
  fix s a b
  assume "ranges_ok cap s" "a < (b :: nat)" "length s < cap"
  then show "\<exists>s'. inline_insert cap (a, b) s = Ok s' \<and> ranges_ok cap s' \<and> cap = cap \<and> length s' \<le> length s + 1 \<and>
      points s' = points s \<union> {a..<b}"
    using inline_insert_merged [of s "[]" cap a b] merged_facts [of s a b] merged_length [of a b s]
    by (auto simp: inline_insert_def ranges_ok_def)
qed (use remove_until_facts in \<open>auto simp: ranges_ok_def\<close>, meson le_trans)

interpretation tree_ranges: range_store "ranges_ok cap" points length "\<lambda>_. cap" "\<lambda>i rs. Ok (bt_insert cap i rs)"
    "bt_remove_until cap" for cap
proof
  fix s a b
  assume "ranges_ok cap s" "a < (b :: nat)" "length s < cap"
  then show "\<exists>s'. Ok (bt_insert cap (a, b) s) = Ok s' \<and> ranges_ok cap s' \<and> cap = cap \<and> length s' \<le> length s + 1 \<and>
      points s' = points s \<union> {a..<b}"
    using bt_insert_merged [of s a b cap] merged_facts [of s a b] merged_length [of a b s] by (auto simp: ranges_ok_def)
next
  fix s l
  assume "ranges_ok cap s" "l + 1 < u64_bound"
  then show "\<exists>s'. bt_remove_until cap l s = Ok s' \<and> ranges_ok cap s' \<and> cap = cap \<and> length s' \<le> length s \<and>
      points s' = points s - {..l}"
    using bt_remove_until_inline [of s cap l] remove_until_facts [of s l] by (auto simp: ranges_ok_def)
qed


lemma fixup_same [simp]: "inner (fixup r) = inner r" "capacity (fixup r) = capacity r"
  by (cases r; simp)+

lemma fixup_ok: "ranges_ok c rs \<Longrightarrow> length rs \<le> MAX_INLINE_CAPACITY \<Longrightarrow> set_ok (fixup (Inline rs c))"
  "ranges_ok c rs \<Longrightarrow> set_ok (fixup (BTree rs c))"
  by (auto simp: set_ok_def MAX_INLINE_CAPACITY_def MIN_TO_INLINE_def)

definition rs_points :: "range_set \<Rightarrow> nat set" where
  "rs_points r = points (rs_iter r)"

lemmas rs_defs = rs_points_def rs_iter_def rs_len_def set_ok_def

lemma rs_remove_until_exact:
  assumes "set_ok r" "l + 1 < u64_bound"
  shows "\<exists>r'. rs_remove_until l r = Ok r' \<and> set_ok r' \<and> capacity r' = capacity r \<and> rs_len r' \<le> rs_len r \<and>
    rs_points r' = rs_points r - {..l}"
proof (cases r)
  case (Inline rs c)
  with assms vec_ranges.trim_law [of c rs l] have s: "ranges_ok c (inline_remove_until l rs)"
    "length (inline_remove_until l rs) \<le> length rs" "points (inline_remove_until l rs) = points rs - {..l}"
    by (auto simp: set_ok_def)
  have "length rs < MAX_INLINE_CAPACITY" using assms(1) Inline by (simp add: set_ok_def)
  with s have "set_ok (fixup (Inline (inline_remove_until l rs) c))" by (intro fixup_ok) auto
  with s Inline show ?thesis by (simp add: rs_remove_until_def rs_points_def rs_iter_def rs_len_def del: fixup.simps)
next
  case (BTree rs c)
  with assms tree_ranges.trim_law [of c rs l] obtain s' where "bt_remove_until c l rs = Ok s'" "ranges_ok c s'"
    "length s' \<le> length rs" "points s' = points rs - {..l}" by (auto simp: set_ok_def)
  with BTree fixup_ok(2) show ?thesis by (simp add: rs_remove_until_def rs_points_def rs_iter_def rs_len_def del: fixup.simps)
qed

lemma rs_insert_exact:
  assumes "set_ok r" "a < b" "rs_len r < capacity r"
  shows "\<exists>r'. rs_insert (a, b) r = Ok r' \<and> set_ok r' \<and> capacity r' = capacity r \<and> rs_len r' \<le> rs_len r + 1 \<and>
    rs_points r' = rs_points r \<union> {a..<b}"
proof (cases r)
  case (Inline rs c)
  with assms vec_ranges.put_law [of c rs a b] obtain s' where "inline_insert c (a, b) rs = Ok s'" "ranges_ok c s'"
    "length s' \<le> length rs + 1" "points s' = points rs \<union> {a..<b}" by (auto simp: set_ok_def rs_len_def)
  note s = this
  have "length rs < MAX_INLINE_CAPACITY" using assms(1) Inline by (simp add: set_ok_def)
  with s have "set_ok (fixup (Inline s' c))" by (intro fixup_ok) auto
  with s Inline show ?thesis by (simp add: rs_insert_def rs_points_def rs_iter_def rs_len_def del: fixup.simps)
next
  case (BTree rs c)
  with assms tree_ranges.put_law [of c rs a b] have "ranges_ok c (bt_insert c (a, b) rs)"
    "length (bt_insert c (a, b) rs) \<le> length rs + 1" "points (bt_insert c (a, b) rs) = points rs \<union> {a..<b}"
    by (auto simp: set_ok_def rs_len_def)
  with BTree fixup_ok(2) show ?thesis by (simp add: rs_insert_def rs_points_def rs_iter_def rs_len_def del: fixup.simps)
qed

interpretation range_sets: range_store set_ok rs_points rs_len capacity rs_insert rs_remove_until
  by unfold_locales (rule rs_insert_exact rs_remove_until_exact; assumption)+

lemma rs_insert_bounded:
  assumes "set_ok r" "a < b" "MAX_INLINE_CAPACITY \<le> capacity r"
  shows "\<exists>r'. rs_insert (a, b) r = Ok r' \<and> set_ok r' \<and> capacity r' = capacity r \<and>
    {a..<b} \<subseteq> rs_points r' \<and> rs_points r' \<subseteq> rs_points r \<union> {a..<b}"
proof (cases "rs_len r < capacity r")
  case True
  with rs_insert_exact [OF assms(1,2)] show ?thesis by fastforce
next
  case False
  with assms(1,3) obtain rs c where r: "r = BTree rs c" "canonical rs" "length rs = c" "0 < c"
    by (cases r) (auto simp: set_ok_def ranges_ok_def rs_len_def MIN_TO_INLINE_def)
  with bt_insert_full [of rs a b c] assms(2) show ?thesis
    by (auto simp: rs_insert_def rs_points_def rs_iter_def ranges_ok_def simp del: fixup.simps intro!: fixup_ok)
qed

lemma range_run_bounded:
  assumes "set_ok r" "list_all range_op_ok ops" "MAX_INLINE_CAPACITY \<le> capacity r" "rs_points r \<subseteq> P"
  shows "\<exists>r'. range_run rs_insert rs_remove_until ops r = Ok r' \<and> set_ok r' \<and> capacity r' = capacity r \<and>
    rs_points r' \<subseteq> fold range_op_spec ops P"
  using assms
proof (induction ops arbitrary: r P)
  case (Cons x ops)
  show ?case
  proof (cases x)
    case (Put a b)
    with rs_insert_bounded [of r a b] Cons.prems obtain s' where s: "rs_insert (a, b) r = Ok s'" "set_ok s'"
      "capacity s' = capacity r" "rs_points s' \<subseteq> rs_points r \<union> {a..<b}" by auto
    with Cons.IH [of s' "P \<union> {a..<b}"] Cons.prems Put show ?thesis by fastforce
  next
    case (Cut l)
    with rs_remove_until_exact [of r l] Cons.prems obtain s' where s: "rs_remove_until l r = Ok s'" "set_ok s'"
      "capacity s' = capacity r" "rs_points s' = rs_points r - {..l}" by auto
    with Cons.IH [of s' "P - {..l}"] Cons.prems Cut show ?thesis by fastforce
  qed
qed simp

lemma rs_new_ok: "set_ok (rs_new cap)" "rs_len (rs_new cap) = 0" "capacity (rs_new cap) = cap" "rs_points (rs_new cap) = {}"
  by (simp_all add: rs_new_def set_ok_def ranges_ok_def MAX_INLINE_CAPACITY_def rs_len_def rs_points_def rs_iter_def)

text \<open>
  With a capacity below four the vector can be full; a range before all others then takes the
  position below zero.
\<close>

lemma inline_insert_full_panics:
  assumes "rs \<noteq> []" "length rs = cap" "stop < fst (hd rs)" "start \<le> snd (hd rs)"
  shows "inline_insert cap (start, stop) rs = Panic"
  using assms unfolding inline_insert_def by (subst inline_insert_at.simps) (cases rs; auto)

text \<open>C8.  A \<open>RangeSet\<close> is the set it stands for: after any sequence of insertions and removals (at most as
  many as its capacity), across the switches between vector and tree, it holds exactly the numbers
  inserted and not removed since, in sorted ranges with gaps between them.
\<close>

theorem range_set_exact:
  assumes "list_all range_op_ok ops" "length ops \<le> cap"
  shows "\<exists>r. range_run rs_insert rs_remove_until ops (rs_new cap) = Ok r \<and> canonical (rs_iter r) \<and>
    points (rs_iter r) = fold range_op_spec ops {}"
proof -
  obtain r where "range_run rs_insert rs_remove_until ops (rs_new cap) = Ok r" "set_ok r" "rs_points r = fold range_op_spec ops {}"
    using range_sets.run_exact [of "rs_new cap" ops] assms rs_new_ok by auto
  then show ?thesis by (auto simp: rs_points_def set_ok_def ranges_ok_def rs_iter_def)
qed

theorem range_set_exact_witness:
  "\<exists>r. range_run rs_insert rs_remove_until [Put 4 7, Put 9 12, Put 20 25, Put 30 31, Put 7 9, Cut 5] (rs_new 6) = Ok r \<and>
    canonical (rs_iter r) \<and> points (rs_iter r) = fold range_op_spec [Put 4 7, Put 9 12, Put 20 25, Put 30 31, Put 7 9, Cut 5] {}"
  by (rule range_set_exact) simp_all



end
