(* ===== verification/Quic_Recv.thy ===== *)
theory Quic_Recv
  imports Quic_Ranges "HOL-Library.Multiset"
begin

text \<open>
  The receiving half of a QUIC stream in quiche: \<open>error.rs\<close>, the buffers of \<open>range_buf.rs\<close>, the
  window of \<open>flowcontrol.rs\<close> and the reassembly of \<open>stream/recv_buf.rs\<close>.  Offsets are natural
  numbers: a frame's offset is below \<open>2 ^ 62\<close> and its data shorter than a datagram, so their sum
  stays inside a 64-bit word.  Times and durations are nanoseconds.
\<close>

section \<open>Errors\<close>

datatype quic_error =
    Done | BufferTooShort | UnknownVersion | InvalidFrame | InvalidPacket | InvalidState
  | InvalidStreamState nat | InvalidTransportParam | CryptoFail | TlsFail | FlowControl
  | StreamLimit | StreamStopped nat | StreamReset nat | FinalSize | CongestionControl
  | IdLimit | OutOfIdentifiers | KeyUpdate | CryptoBufferExceeded | InvalidAckRange
  | OptimisticAckDetected | InvalidDcidInitialization

definition to_wire :: "quic_error \<Rightarrow> nat" where
  "to_wire e =
     (case e of
        Done \<Rightarrow> 0x0
      | InvalidFrame \<Rightarrow> 0x7
      | InvalidStreamState _ \<Rightarrow> 0x5
      | InvalidTransportParam \<Rightarrow> 0x8
      | FlowControl \<Rightarrow> 0x3
      | StreamLimit \<Rightarrow> 0x4
      | IdLimit \<Rightarrow> 0x9
      | FinalSize \<Rightarrow> 0x6
      | CryptoBufferExceeded \<Rightarrow> 0xd
      | KeyUpdate \<Rightarrow> 0xe
      | _ \<Rightarrow> 0xa)"

section \<open>A buffer at an offset\<close>

record range_buf =
  rb_data :: bytes
  rb_start :: nat
  rb_pos :: nat
  rb_size :: nat
  rb_base :: nat
  rb_fin :: bool

definition rb_from :: "bytes \<Rightarrow> nat \<Rightarrow> bool \<Rightarrow> range_buf" where
  "rb_from buf off fin = \<lparr>rb_data = buf, rb_start = 0, rb_pos = 0, rb_size = length buf, rb_base = off, rb_fin = fin\<rparr>"

definition rb_off :: "range_buf \<Rightarrow> nat" where
  "rb_off b = (rb_base b - rb_start b) + rb_pos b"

definition rb_len :: "range_buf \<Rightarrow> nat" where
  "rb_len b = rb_size b - (rb_pos b - rb_start b)"

definition rb_max_off :: "range_buf \<Rightarrow> nat" where
  "rb_max_off b = rb_off b + rb_len b"

definition rb_is_empty :: "range_buf \<Rightarrow> bool" where
  "rb_is_empty b \<longleftrightarrow> rb_len b = 0"

definition rb_consume :: "nat \<Rightarrow> range_buf \<Rightarrow> range_buf" where
  "rb_consume n b = b\<lparr>rb_pos := rb_pos b + n\<rparr>"

text \<open>What is left of the buffer, and the part split off.\<close>

definition rb_split_off :: "nat \<Rightarrow> range_buf \<Rightarrow> (range_buf \<times> range_buf, quic_error) res" where
  "rb_split_off at b =
     (if rb_size b < at then Panic
      else Ok (b\<lparr>rb_pos := min (rb_pos b) (rb_start b + at), rb_size := at, rb_fin := False\<rparr>,
               b\<lparr>rb_start := rb_start b + at, rb_pos := max (rb_pos b) (rb_start b + at), rb_size := rb_size b - at,
                 rb_base := rb_base b + at\<rparr>))"

definition rb_deref :: "range_buf \<Rightarrow> (bytes, quic_error) res" where
  "rb_deref b = idx_range (rb_data b) (rb_pos b) (rb_start b + rb_size b)"

section \<open>The window\<close>

record flow_control =
  fc_consumed :: nat
  fc_max_data :: nat
  fc_window :: nat
  fc_max_window :: nat
  fc_last_update :: "nat option"

definition WINDOW_INCREASE_FACTOR :: nat where "WINDOW_INCREASE_FACTOR = 2"
definition WINDOW_TRIGGER_FACTOR :: nat where "WINDOW_TRIGGER_FACTOR = 2"

definition fc_new :: "nat \<Rightarrow> nat \<Rightarrow> nat \<Rightarrow> flow_control" where
  "fc_new max_data window max_window =
     \<lparr>fc_consumed = 0, fc_max_data = max_data, fc_window = min window max_window, fc_max_window = max_window,
      fc_last_update = None\<rparr>"

definition add_consumed :: "nat \<Rightarrow> flow_control \<Rightarrow> flow_control" where
  "add_consumed consumed fc = fc\<lparr>fc_consumed := fc_consumed fc + consumed\<rparr>"

definition should_update_max_data :: "flow_control \<Rightarrow> (bool, quic_error) res" where
  "should_update_max_data fc =
     (if fc_max_data fc < fc_consumed fc then Panic
      else Ok (fc_max_data fc - fc_consumed fc < fc_window fc div 2))"

definition max_data_next :: "flow_control \<Rightarrow> nat" where
  "max_data_next fc = fc_consumed fc + fc_window fc"

definition update_max_data :: "nat \<Rightarrow> flow_control \<Rightarrow> flow_control" where
  "update_max_data now fc = fc\<lparr>fc_max_data := max_data_next fc, fc_last_update := Some now\<rparr>"

definition set_window :: "nat \<Rightarrow> flow_control \<Rightarrow> flow_control" where
  "set_window window fc = fc\<lparr>fc_window := min window (fc_max_window fc)\<rparr>"

definition autotune_window :: "nat \<Rightarrow> nat \<Rightarrow> flow_control \<Rightarrow> (flow_control, quic_error) res" where
  "autotune_window now rtt fc =
     (case fc_last_update fc of
        None \<Rightarrow> Ok fc
      | Some last_update \<Rightarrow>
          if now - last_update < rtt * WINDOW_TRIGGER_FACTOR then
            (if u64_bound \<le> fc_window fc * WINDOW_INCREASE_FACTOR then Panic
             else Ok (set_window (fc_window fc * WINDOW_INCREASE_FACTOR) fc))
          else Ok fc)"

definition ensure_window_lower_bound :: "nat \<Rightarrow> flow_control \<Rightarrow> flow_control" where
  "ensure_window_lower_bound min_window fc = (if fc_window fc < min_window then set_window min_window fc else fc)"

section \<open>The receive buffer\<close>

text \<open>\<open>data: BTreeMap<u64, RangeBuf>\<close>, keyed by the end of each buffer.\<close>

record recv_buf =
  rv_data :: "(nat \<times> range_buf) list"
  rv_off :: nat
  rv_len :: nat
  rv_flow :: flow_control
  rv_fin_off :: "nat option"
  rv_error :: "nat option"
  rv_drain :: bool

definition rv_new :: "nat \<Rightarrow> nat \<Rightarrow> nat \<Rightarrow> recv_buf" where
  "rv_new max_data initial_window max_window =
     \<lparr>rv_data = [], rv_off = 0, rv_len = 0, rv_flow = fc_new max_data initial_window max_window,
      rv_fin_off = None, rv_error = None, rv_drain = False\<rparr>"

definition rv_is_fin :: "recv_buf \<Rightarrow> bool" where
  "rv_is_fin r \<longleftrightarrow> rv_fin_off r = Some (rv_off r)"

definition rv_ready :: "recv_buf \<Rightarrow> bool" where
  "rv_ready r \<longleftrightarrow> (case rv_data r of [] \<Rightarrow> False | (_, buf) # _ \<Rightarrow> rb_off buf = rv_off r)"

definition rv_almost_full :: "recv_buf \<Rightarrow> (bool, quic_error) res" where
  "rv_almost_full r = (if rv_fin_off r = None then should_update_max_data (rv_flow r) else Ok False)"

text \<open>
  The loop over the buffers that end at or after the new one's start.  One of them that overlaps the
  new buffer's start takes that part away; one that overlaps its end cuts it in two, the second part
  being put back for another round.
\<close>

declare rbind_cong [fundef_cong]

definition rv_cut :: "range_buf \<Rightarrow> range_buf \<Rightarrow> (range_buf \<times> range_buf list, quic_error) res" where
  "rv_cut buf b =
     (let off = rb_off buf
      in rbind (if off \<ge> rb_off b \<and> off < rb_max_off b
                then rbind (rb_split_off (rb_max_off b - off) buf) (\<lambda>(_, buf). Ok buf) else Ok buf)
           (\<lambda>buf. if off < rb_off b \<and> rb_max_off buf > rb_off b
              then rbind (rb_split_off (rb_off b - off) buf) (\<lambda>(buf, rest). Ok (buf, [rest]))
              else Ok (buf, [])))"

text \<open>The piece of the new buffer that is not there yet, if any, and the pieces put back.\<close>

fun rv_scan :: "range_buf \<Rightarrow> (nat \<times> range_buf) list \<Rightarrow> range_buf list \<Rightarrow> (range_buf option \<times> range_buf list, quic_error) res" where
  "rv_scan buf [] tmp_bufs = Ok (Some buf, tmp_bufs)"
| "rv_scan buf ((_, b) # bs) tmp_bufs =
     (if rb_off b > rb_max_off buf then Ok (Some buf, tmp_bufs)
      else if rb_off buf \<ge> rb_off b \<and> rb_max_off buf \<le> rb_max_off b then Ok (None, tmp_bufs)
      else rbind (rv_cut buf b) (\<lambda>(buf, rest). rv_scan buf bs (tmp_bufs @ rest)))"

definition rv_store :: "range_buf \<Rightarrow> recv_buf \<Rightarrow> recv_buf" where
  "rv_store buf r =
     (let r = r\<lparr>rv_len := max (rv_len r) (rb_max_off buf)\<rparr>
      in if \<not> rv_drain r then r\<lparr>rv_data := bt_put (rb_max_off buf) buf (rv_data r)\<rparr>
         else r\<lparr>rv_off := rv_len r\<rparr>)"

definition rv_skip :: "recv_buf \<Rightarrow> range_buf \<Rightarrow> (range_buf, quic_error) res" where
  "rv_skip r buf =
     (if rv_off r > rb_off buf then rbind (rb_split_off (rv_off r - rb_off buf) buf) (\<lambda>(_, buf). Ok buf) else Ok buf)"

text \<open>One round of the loop over \<open>tmp_bufs\<close>, with the buffer taken from its front.\<close>

definition rv_round :: "recv_buf \<Rightarrow> range_buf \<Rightarrow> (recv_buf \<times> range_buf list, quic_error) res" where
  "rv_round r buf =
     rbind (rv_skip r buf) (\<lambda>buf.
       rbind (if rb_off buf < rv_len r \<or> rb_is_empty buf
              then rv_scan buf (filter (\<lambda>(k, _). rb_off buf \<le> k) (rv_data r)) [] else Ok (Some buf, []))
         (\<lambda>(kept, again). Ok (case kept of None \<Rightarrow> r | Some buf \<Rightarrow> rv_store buf r, again)))"

lemma split_off_sizes: "rb_split_off at b = Ok (l, r) \<Longrightarrow> rb_size l = at \<and> rb_size r = rb_size b - at \<and> at \<le> rb_size b"
  by (auto simp: rb_split_off_def split: if_splits)

lemma rv_cut_smaller:
  assumes "rv_cut buf b = Ok (buf', rest)"
  shows "rb_size buf' \<le> rb_size buf \<and> (\<forall>r\<in>set rest. rb_size r < rb_size buf)"
  using assms unfolding rv_cut_def Let_def by (fastforce simp: rbind_eq_Ok dest!: split_off_sizes split: if_splits prod.splits)

lemma rv_scan_smaller:
  "rv_scan buf bs tmp = Ok (kept, out) \<Longrightarrow> \<exists>again. out = tmp @ again \<and> (\<forall>b\<in>set again. rb_size b < rb_size buf)"
proof (induction bs arbitrary: buf tmp)
  case (Cons e bs)
  obtain k b where e: "e = (k, b)" by (cases e)
  show ?case
  proof (cases "rb_off b > rb_max_off buf \<or> rb_off buf \<ge> rb_off b \<and> rb_max_off buf \<le> rb_max_off b")
    case True
    with Cons.prems show ?thesis by (auto simp: e split: if_splits)
  next
    case False
    with Cons.prems obtain b1 rest where b1: "rv_cut buf b = Ok (b1, rest)" "rv_scan b1 bs (tmp @ rest) = Ok (kept, out)"
      by (auto simp: e rbind_eq_Ok split: if_splits)
    from Cons.IH [OF b1(2)] rv_cut_smaller [OF b1(1)] show ?thesis by fastforce
  qed
qed simp

lemma rv_round_smaller:
  assumes "rv_round r buf = Ok (r', again)"
  shows "\<forall>b\<in>set again. rb_size b < rb_size buf"
proof -
  from assms obtain b1 kept where b1: "rv_skip r buf = Ok b1"
      "(if rb_off b1 < rv_len r \<or> rb_is_empty b1
        then rv_scan b1 (filter (\<lambda>(k, _). rb_off b1 \<le> k) (rv_data r)) [] else Ok (Some b1, [])) = Ok (kept, again)"
    by (auto simp: rv_round_def rbind_eq_Ok)
  have "rb_size b1 \<le> rb_size buf"
    using b1(1) by (auto simp: rv_skip_def rbind_eq_Ok dest!: split_off_sizes split: if_splits)
  with b1(2) rv_scan_smaller show ?thesis by (fastforce split: if_splits)
qed

function rv_loop :: "recv_buf \<Rightarrow> range_buf list \<Rightarrow> (recv_buf, quic_error) res" where
  "rv_loop r [] = Ok r"
| "rv_loop r (buf # bufs) = rbind (rv_round r buf) (\<lambda>(r, again). rv_loop r (bufs @ again))"
  by pat_completeness auto

text \<open>Every piece put back is shorter than the buffer it was cut from.\<close>

termination
proof (relation "inv_image (mult less_than) (\<lambda>(r, bufs). mset (map rb_size bufs))")
  show "wf (inv_image (mult less_than) (\<lambda>(r :: recv_buf, bufs). mset (map rb_size bufs)))" by (intro wf_inv_image wf_mult) simp
next
  fix r :: recv_buf and buf :: range_buf and bufs :: "range_buf list" and x r' again
  assume "rv_round r buf = Ok x" "(r', again) = x"
  then have "\<forall>k\<in>#mset (map rb_size again). (k, rb_size buf) \<in> less_than" using rv_round_smaller by auto
  then have "(mset (map rb_size bufs) + mset (map rb_size again), mset (map rb_size bufs) + {#rb_size buf#}) \<in> mult less_than"
    by (intro one_step_implies_mult) auto
  then show "((r', bufs @ again), r, buf # bufs) \<in> inv_image (mult less_than) (\<lambda>(r :: recv_buf, bufs). mset (map rb_size bufs))" by simp
qed

definition rv_write :: "range_buf \<Rightarrow> recv_buf \<Rightarrow> (recv_buf, quic_error) res" where
  "rv_write buf r =
     (if rb_max_off buf > fc_max_data (rv_flow r) then Err FlowControl
      else if (case rv_fin_off r of
                 Some fin_off \<Rightarrow> rb_max_off buf > fin_off \<or> rb_fin buf \<and> fin_off \<noteq> rb_max_off buf
               | None \<Rightarrow> False) then Err FinalSize
      else if rb_fin buf \<and> rb_max_off buf < rv_len r then Err FinalSize
      else if rv_fin_off r \<noteq> None \<and> rb_is_empty buf then Ok r
      else let r = (if rb_fin buf then r\<lparr>rv_fin_off := Some (rb_max_off buf)\<rparr> else r)
        in if \<not> rb_fin buf \<and> rb_is_empty buf then Ok r
           else if rv_off r \<ge> rb_max_off buf \<and> \<not> rb_is_empty buf then Ok r
           else rv_loop r [buf])"

text \<open>What \<open>emit_or_discard\<close> is asked for: bytes into a buffer of some length, or bytes thrown away.\<close>

datatype recv_action = Emit nat | Discard nat

fun action_cap :: "recv_action \<Rightarrow> nat" where
  "action_cap (Emit n) = n"
| "action_cap (Discard n) = n"

fun copies :: "recv_action \<Rightarrow> bool" where
  "copies (Emit _) \<longleftrightarrow> True"
| "copies (Discard _) \<longleftrightarrow> False"

text \<open>The loop over the first buffers: the bytes copied, the offset and the buffers left.\<close>

fun rv_take :: "bool \<Rightarrow> nat \<Rightarrow> nat \<Rightarrow> (nat \<times> range_buf) list \<Rightarrow> (bytes \<times> nat \<times> (nat \<times> range_buf) list, quic_error) res" where
  "rv_take copy cap off [] = Ok ([], off, [])"
| "rv_take copy cap off ((k, buf) # bs) =
     (if cap = 0 \<or> rb_off buf \<noteq> off then Ok ([], off, (k, buf) # bs)
      else let buf_len = min (rb_len buf) cap
        in rbind (if copy then rbind (rb_deref buf) (\<lambda>bytes. idx_range bytes 0 buf_len) else Ok []) (\<lambda>out.
             if buf_len < rb_len buf then Ok (out, off + buf_len, (k, rb_consume buf_len buf) # bs)
             else rbind (rv_take copy (cap - buf_len) (off + buf_len) bs)
               (\<lambda>(rest, off, bs). Ok (out @ rest, off, bs))))"

text \<open>The state afterwards, and the bytes written, how many were consumed and the end of the stream.\<close>

definition emit_or_discard :: "recv_action \<Rightarrow> recv_buf \<Rightarrow> recv_buf \<times> (bytes \<times> nat \<times> bool, quic_error) res" where
  "emit_or_discard action r =
     (if \<not> rv_ready r then (r, Err Done)
      else case rv_error r of
        Some e \<Rightarrow> (r\<lparr>rv_data := []\<rparr>, Err (StreamReset e))
      | None \<Rightarrow>
          (case rv_take (copies action) (action_cap action) (rv_off r) (rv_data r) of
             Ok (out, off, data) \<Rightarrow>
               let n = off - rv_off r;
                   r = r\<lparr>rv_data := data, rv_off := off, rv_flow := add_consumed n (rv_flow r)\<rparr>
               in (r, Ok (out, n, rv_is_fin r))
           | Err e \<Rightarrow> (r, Err e)
           | Panic \<Rightarrow> (r, Panic)))"

record reset_return =
  max_data_delta :: nat
  consumed_flowcontrol :: nat

text \<open>\<open>self.write(buf)?\<close> comes after the state was changed.\<close>

definition rv_reset :: "nat \<Rightarrow> nat \<Rightarrow> recv_buf \<Rightarrow> recv_buf \<times> (reset_return, quic_error) res" where
  "rv_reset error_code final_size r =
     (if (case rv_fin_off r of Some fin_off \<Rightarrow> fin_off \<noteq> final_size | None \<Rightarrow> False) then (r, Err FinalSize)
      else if final_size < rv_len r then (r, Err FinalSize)
      else if rv_error r \<noteq> None then (r, Ok \<lparr>max_data_delta = 0, consumed_flowcontrol = 0\<rparr>)
      else if final_size < rv_off r then (r, Panic)
      else let result = \<lparr>max_data_delta = final_size - rv_len r, consumed_flowcontrol = final_size - rv_off r\<rparr>;
               r = r\<lparr>rv_error := Some error_code, rv_off := final_size, rv_data := []\<rparr>
        in case rv_write (rb_from [] final_size True) r of
             Ok r \<Rightarrow> (r, Ok result)
           | Err e \<Rightarrow> (r, Err e)
           | Panic \<Rightarrow> (r, Panic))"

definition rv_shutdown :: "recv_buf \<Rightarrow> (recv_buf \<times> nat, quic_error) res" where
  "rv_shutdown r =
     (if rv_drain r then Err Done
      else if rv_len r < rv_off r then Panic
      else Ok (r\<lparr>rv_drain := True, rv_data := [], rv_off := rv_len r\<rparr>, rv_len r - rv_off r))"


section \<open>Buffers as slices of a stream\<close>

definition rb_wf :: "range_buf \<Rightarrow> bool" where
  "rb_wf b \<longleftrightarrow> rb_start b \<le> rb_base b \<and> rb_start b \<le> rb_pos b \<and> rb_pos b \<le> rb_start b + rb_size b \<and>
     rb_start b + rb_size b \<le> length (rb_data b)"

definition rb_bytes :: "range_buf \<Rightarrow> bytes" where
  "rb_bytes b = sub (rb_data b) (rb_pos b) (rb_start b + rb_size b)"

definition rb_ivl :: "range_buf \<Rightarrow> nat set" where
  "rb_ivl b = {rb_off b..<rb_max_off b}"

text \<open>The bytes at an offset are among the pairs of offset and byte in \<open>C\<close>.\<close>

definition held :: "(nat \<times> byte) set \<Rightarrow> nat \<Rightarrow> bytes \<Rightarrow> bool" where
  "held C off bs \<longleftrightarrow> (\<forall>i<length bs. (off + i, bs ! i) \<in> C)"

lemma held_Nil [simp]: "held C off []"
  by (simp add: held_def)

lemma held_append: "held C off (as @ bs) \<longleftrightarrow> held C off as \<and> held C (off + length as) bs"
proof
  assume h: "held C off (as @ bs)"
  have "(off + length as + j, bs ! j) \<in> C" if "j < length bs" for j
    using h that unfolding held_def by (auto dest: spec [of _ "length as + j"] simp: add.assoc)
  moreover have "(off + i, as ! i) \<in> C" if "i < length as" for i
    using h that unfolding held_def by (auto dest: spec [of _ i] simp: nth_append)
  ultimately show "held C off as \<and> held C (off + length as) bs" by (simp add: held_def)
next
  assume h: "held C off as \<and> held C (off + length as) bs"
  show "held C off (as @ bs)" unfolding held_def
  proof (intro allI impI)
    fix i
    assume i: "i < length (as @ bs)"
    show "(off + i, (as @ bs) ! i) \<in> C"
    proof (cases "i < length as")
      case False
      then obtain j where "i = length as + j" using le_Suc_ex by (auto simp: not_less)
      with h i show ?thesis by (auto simp: held_def add.assoc)
    qed (use h in \<open>simp add: held_def nth_append\<close>)
  qed
qed

lemma held_take_drop: "held C off bs \<Longrightarrow> held C off (take n bs) \<and> held C (off + n) (drop n bs)"
proof -
  assume "held C off bs"
  then have "held C off (take n bs @ drop n bs)" by simp
  then show ?thesis unfolding held_append by (cases "n \<le> length bs") auto
qed

definition slice_of :: "(nat \<times> byte) set \<Rightarrow> range_buf \<Rightarrow> bool" where
  "slice_of C b \<longleftrightarrow> rb_wf b \<and> held C (rb_off b) (rb_bytes b)"

text \<open>A buffer nothing was read from.\<close>

definition part_of :: "(nat \<times> byte) set \<Rightarrow> range_buf \<Rightarrow> bool" where
  "part_of C b \<longleftrightarrow> slice_of C b \<and> rb_pos b = rb_start b"

lemma off_le_max_off [simp]: "rb_off b \<le> rb_max_off b"
  by (simp add: rb_max_off_def)

lemma rb_deref_wf: "rb_wf b \<Longrightarrow> rb_deref b = Ok (rb_bytes b)"
  by (simp add: rb_deref_def rb_bytes_def rb_wf_def)

lemma length_rb_bytes: "rb_wf b \<Longrightarrow> length (rb_bytes b) = rb_len b"
  by (auto simp: rb_bytes_def rb_wf_def rb_len_def sub_def)

lemma consume_slice:
  assumes "slice_of C b" "n \<le> rb_len b"
  shows "slice_of C (rb_consume n b)" "rb_off (rb_consume n b) = rb_off b + n" "rb_max_off (rb_consume n b) = rb_max_off b"
proof -
  have w: "rb_wf b" "held C (rb_off b) (rb_bytes b)" using assms by (auto simp: slice_of_def)
  show o: "rb_off (rb_consume n b) = rb_off b + n" by (simp add: rb_off_def rb_consume_def)
  show "rb_max_off (rb_consume n b) = rb_max_off b"
    using w(1) assms(2) by (auto simp: rb_max_off_def rb_off_def rb_len_def rb_consume_def rb_wf_def)
  have "rb_bytes (rb_consume n b) = drop n (rb_bytes b)" by (simp add: rb_bytes_def rb_consume_def sub_def drop_take add.commute)
  moreover have "rb_wf (rb_consume n b)" using w(1) assms(2) by (auto simp: rb_wf_def rb_consume_def rb_len_def)
  ultimately show "slice_of C (rb_consume n b)" using w(2) o held_take_drop by (simp add: slice_of_def)
qed

lemma split_off_parts:
  assumes "part_of C b" "at \<le> rb_len b"
  obtains l r where "rb_split_off at b = Ok (l, r)" "part_of C l" "part_of C r" "rb_off l = rb_off b" "rb_max_off l = rb_off b + at"
    "rb_off r = rb_off b + at" "rb_max_off r = rb_max_off b"
proof -
  have w: "rb_wf b" "held C (rb_off b) (rb_bytes b)" "rb_pos b = rb_start b"
    using assms by (auto simp: slice_of_def part_of_def)
  define l where "l = b\<lparr>rb_pos := min (rb_pos b) (rb_start b + at), rb_size := at, rb_fin := False\<rparr>"
  define r where "r = b\<lparr>rb_start := rb_start b + at, rb_pos := max (rb_pos b) (rb_start b + at), rb_size := rb_size b - at,
      rb_base := rb_base b + at\<rparr>"
  have at: "at \<le> rb_size b" using assms(2) w(3) by (simp add: rb_len_def)
  have o: "rb_off l = rb_off b" "rb_max_off l = rb_off b + at" "rb_off r = rb_off b + at" "rb_max_off r = rb_max_off b"
    using w at by (auto simp: l_def r_def rb_off_def rb_max_off_def rb_len_def rb_wf_def)
  have "rb_bytes l = take at (rb_bytes b)" "rb_bytes r = drop at (rb_bytes b)"
    using w(3) at by (auto simp: rb_bytes_def l_def r_def sub_def drop_take min_def add.commute)
  moreover have "rb_wf l" "rb_wf r" using w(1,3) at by (auto simp: rb_wf_def l_def r_def)
  moreover have "rb_pos l = rb_start l" "rb_pos r = rb_start r" using w(3) by (auto simp: l_def r_def)
  ultimately have "part_of C l" "part_of C r" using o held_take_drop [OF w(2), of at] by (auto simp: part_of_def slice_of_def)
  moreover have "rb_split_off at b = Ok (l, r)" using at by (simp add: rb_split_off_def l_def r_def)
  ultimately show thesis using that o by blast
qed


section \<open>Storing what is new\<close>

definition apart :: "range_buf \<Rightarrow> range_buf \<Rightarrow> bool" where
  "apart a b \<longleftrightarrow> rb_max_off b \<le> rb_off a \<or> rb_max_off a \<le> rb_off b"

text \<open>\<open>b\<close> lies within \<open>a\<close>, and is not empty unless \<open>a\<close> is.\<close>

definition inside :: "range_buf \<Rightarrow> range_buf \<Rightarrow> bool" where
  "inside b a \<longleftrightarrow> rb_off a \<le> rb_off b \<and> rb_max_off b \<le> rb_max_off a \<and> (rb_len b = 0 \<longrightarrow> rb_len a = 0)"

lemma inside_trans: "inside c b \<Longrightarrow> inside b a \<Longrightarrow> inside c a"
  by (auto simp: inside_def)

lemma inside_refl [simp]: "inside b b"
  by (simp add: inside_def)

lemma apart_inside: "apart a b \<Longrightarrow> inside c a \<Longrightarrow> apart c b"
  by (auto simp: apart_def inside_def)

lemma rb_len_eq: "rb_len b = rb_max_off b - rb_off b"
  by (simp add: rb_max_off_def)

definition ivls :: "range_buf list \<Rightarrow> nat set" where
  "ivls bs = (\<Union>b\<in>set bs. rb_ivl b)"

lemma ivls_simps [simp]: "ivls [] = {}" "ivls (b # bs) = rb_ivl b \<union> ivls bs" "ivls (as @ bs) = ivls as \<union> ivls bs"
  by (auto simp: ivls_def)

lemma rv_cut_parts:
  assumes "part_of C buf" "rb_off b \<le> rb_max_off buf" "rb_off buf \<le> rb_max_off b"
    "\<not> (rb_off b \<le> rb_off buf \<and> rb_max_off buf \<le> rb_max_off b)"
  obtains buf' rest where "rv_cut buf b = Ok (buf', rest)" "part_of C buf'" "\<forall>r\<in>set rest. part_of C r \<and> inside r buf"
    "inside buf' buf" "apart buf' b" "rb_off buf' \<le> max (rb_off buf) (rb_max_off b)"
    "rb_ivl buf \<subseteq> rb_ivl b \<union> rb_ivl buf' \<union> ivls rest"
proof -
  consider (start) "rb_off b \<le> rb_off buf" "rb_off buf < rb_max_off b" "rb_max_off b < rb_max_off buf"
    | (stop) "rb_off buf < rb_off b" "rb_off b < rb_max_off buf"
    | (none) "\<not> (rb_off b \<le> rb_off buf \<and> rb_off buf < rb_max_off b)" "\<not> (rb_off buf < rb_off b \<and> rb_off b < rb_max_off buf)"
    using assms(4) by linarith
  then show thesis
  proof cases
    case start
    then have "rb_max_off b - rb_off buf \<le> rb_len buf" by (simp add: rb_len_eq)
    from split_off_parts [OF assms(1) this] obtain l r where lr: "rb_split_off (rb_max_off b - rb_off buf) buf = Ok (l, r :: range_buf)"
      "part_of C r" "rb_off r = rb_off buf + (rb_max_off b - rb_off buf)" "rb_max_off r = rb_max_off buf" by metis
    have "rv_cut buf b = Ok (r, [])" using start lr(1) by (simp add: rv_cut_def)
    with start lr show thesis by (intro that [of r "[]"]) (auto simp: inside_def apart_def rb_len_eq rb_ivl_def)
  next
    case stop
    then have "rb_off b - rb_off buf \<le> rb_len buf" by (simp add: rb_len_eq)
    from split_off_parts [OF assms(1) this] obtain l r where lr: "rb_split_off (rb_off b - rb_off buf) buf = Ok (l, r :: range_buf)"
      "part_of C l" "part_of C r" "rb_off l = rb_off buf" "rb_max_off l = rb_off buf + (rb_off b - rb_off buf)"
      "rb_off r = rb_off buf + (rb_off b - rb_off buf)" "rb_max_off r = rb_max_off buf" by metis
    have "rv_cut buf b = Ok (l, [r])" using stop lr(1) by (simp add: rv_cut_def)
    with stop lr show thesis by (intro that [of l "[r]"]) (auto simp: inside_def apart_def rb_len_eq rb_ivl_def)
  next
    case none
    then have "rv_cut buf b = Ok (buf, [])" by (auto simp: rv_cut_def Let_def)
    with none assms show thesis by (intro that [of buf "[]"]) (auto simp: inside_def apart_def)
  qed
qed

definition chain :: "(nat \<times> range_buf) list \<Rightarrow> bool" where
  "chain es \<longleftrightarrow> (\<forall>(k, b)\<in>set es. k = rb_max_off b) \<and> sorted_wrt (\<lambda>a b. fst a < fst b \<and> fst a \<le> rb_off (snd b)) es"

lemma chain_simps [simp]: "chain []"
  "chain ((k, b) # es) \<longleftrightarrow> k = rb_max_off b \<and> (\<forall>(k', c)\<in>set es. k < k' \<and> k \<le> rb_off c) \<and> chain es"
  by (auto simp: chain_def)

lemma rv_scan_parts:
  assumes "chain es" "part_of C buf" "\<forall>(k, b)\<in>set es. rb_off buf \<le> rb_max_off b"
  shows "\<exists>kept again. rv_scan buf es tmp = Ok (kept, tmp @ again) \<and> (\<forall>r\<in>set again. part_of C r \<and> inside r buf) \<and>
    (case kept of
       None \<Rightarrow> rb_ivl buf \<subseteq> ivls (map snd es) \<union> ivls again
     | Some b' \<Rightarrow> part_of C b' \<and> inside b' buf \<and> (\<forall>b\<in>set (map snd es). apart b' b) \<and>
         rb_ivl buf \<subseteq> ivls (map snd es) \<union> rb_ivl b' \<union> ivls again)"
  using assms
proof (induction es arbitrary: buf tmp)
  case (Cons e es)
  obtain b where e: "e = (rb_max_off b, b)" and es: "chain es" "\<forall>(k, c)\<in>set es. rb_max_off b \<le> rb_off c \<and> k = rb_max_off c"
    using Cons.prems(1) by (cases e) (force simp: chain_def)
  show ?case
  proof (cases "rb_off b > rb_max_off buf \<or> rb_off b \<le> rb_off buf \<and> rb_max_off buf \<le> rb_max_off b")
    case True
    have "apart buf c" if "rb_off b > rb_max_off buf" "(k, c) \<in> set es" for k c
    proof -
      have "rb_max_off b \<le> rb_off c" using es(2) that(2) by auto
      with that(1) off_le_max_off [of b] show ?thesis unfolding apart_def by linarith
    qed
    moreover have "apart buf b" if "rb_off b > rb_max_off buf" using that by (simp add: apart_def)
    ultimately show ?thesis using True Cons.prems(2) by (cases "rb_off b > rb_max_off buf") (auto simp: e rb_ivl_def)
  next
    case False
    with Cons.prems(2,3) rv_cut_parts [of C buf b] obtain b1 rest where b1: "rv_cut buf b = Ok (b1, rest)" "part_of C b1"
      "\<forall>r\<in>set rest. part_of C r \<and> inside r buf" "inside b1 buf" "apart b1 b"
      "rb_off b1 \<le> max (rb_off buf) (rb_max_off b)" "rb_ivl buf \<subseteq> rb_ivl b \<union> rb_ivl b1 \<union> ivls rest"
      by (auto simp: e not_less)
    have "\<forall>(k, c)\<in>set es. rb_off b1 \<le> rb_max_off c"
    proof clarify
      fix k c
      assume "(k, c) \<in> set es"
      then have "rb_max_off b \<le> rb_off c" "rb_off buf \<le> rb_max_off c" using es(2) Cons.prems(3) by auto
      with b1(6) off_le_max_off [of c] show "rb_off b1 \<le> rb_max_off c" by linarith
    qed
    from Cons.IH [OF es(1) b1(2) this, of "tmp @ rest"] obtain kept again where
      r: "rv_scan b1 es (tmp @ rest) = Ok (kept, (tmp @ rest) @ again)" "\<forall>r\<in>set again. part_of C r \<and> inside r b1"
        "case kept of None \<Rightarrow> rb_ivl b1 \<subseteq> ivls (map snd es) \<union> ivls again
         | Some b' \<Rightarrow> part_of C b' \<and> inside b' b1 \<and> (\<forall>b\<in>set (map snd es). apart b' b) \<and>
             rb_ivl b1 \<subseteq> ivls (map snd es) \<union> rb_ivl b' \<union> ivls again" by blast
    have "rv_scan buf (e # es) tmp = Ok (kept, tmp @ (rest @ again))" using False b1(1) r(1) by (auto simp: e)
    moreover have "\<forall>r\<in>set (rest @ again). part_of C r \<and> inside r buf" using b1 r(2) inside_trans by (auto; blast)
    moreover have "case kept of None \<Rightarrow> rb_ivl buf \<subseteq> ivls (map snd (e # es)) \<union> ivls (rest @ again)
         | Some b' \<Rightarrow> part_of C b' \<and> inside b' buf \<and> (\<forall>b\<in>set (map snd (e # es)). apart b' b) \<and>
             rb_ivl buf \<subseteq> ivls (map snd (e # es)) \<union> rb_ivl b' \<union> ivls (rest @ again)"
      using r(3) b1(4,5,7) inside_trans [of _ b1 buf] apart_inside [of b1 b] by (cases kept) (auto simp: e)
    ultimately show ?thesis by blast
  qed
qed simp


definition rv_inv :: "(nat \<times> byte) set \<Rightarrow> recv_buf \<Rightarrow> bool" where
  "rv_inv C r \<longleftrightarrow> chain (rv_data r) \<and>
     (\<forall>(k, b)\<in>set (rv_data r). slice_of C b \<and> rv_off r \<le> rb_off b \<and> k \<le> rv_len r) \<and>
     rv_off r \<le> rv_len r"

text \<open>The offsets whose bytes were read or are held.\<close>

definition rv_have :: "recv_buf \<Rightarrow> nat set" where
  "rv_have r = {..<rv_off r} \<union> ivls (map snd (rv_data r))"

text \<open>Nothing but the buffered data and the length changes.\<close>

definition same_stream :: "recv_buf \<Rightarrow> recv_buf \<Rightarrow> bool" where
  "same_stream r r' \<longleftrightarrow> rv_off r' = rv_off r \<and> rv_flow r' = rv_flow r \<and> rv_fin_off r' = rv_fin_off r \<and>
     rv_error r' = rv_error r \<and> rv_drain r' = rv_drain r"

lemma same_stream_refl [simp]: "same_stream r r"
  by (simp add: same_stream_def)

lemma chain_put:
  assumes "chain es" "\<forall>b\<in>set (map snd es). apart buf b" "\<forall>b\<in>set (map snd es). rb_max_off b = rb_max_off buf \<longrightarrow> 0 < rb_len buf"
  shows "chain (bt_put (rb_max_off buf) buf es) \<and> ivls (map snd (bt_put (rb_max_off buf) buf es)) = rb_ivl buf \<union> ivls (map snd es) \<and>
    set (bt_put (rb_max_off buf) buf es) \<subseteq> insert (rb_max_off buf, buf) (set es)"
proof -
  let ?k = "rb_max_off buf"
  let ?l = "filter (\<lambda>r. fst r < ?k) es" and ?h = "filter (\<lambda>r. ?k < fst r) es"
  have key: "k = rb_max_off b" if "(k, b) \<in> set es" for k b using assms(1) that by (auto simp: chain_def)
  have ap: "apart buf (snd e) \<and> fst e = rb_max_off (snd e)" if "e \<in> set es" for e
    using that key [of "fst e" "snd e"] assms(2) by auto
  have l: "fst e \<le> rb_off buf" if "e \<in> set ?l" for e
    using ap [of e] that off_le_max_off [of "snd e"] unfolding apart_def by fastforce
  have h: "?k \<le> rb_off (snd e)" if "e \<in> set ?h" for e
    using ap [of e] that off_le_max_off [of buf] unfolding apart_def by fastforce
  have "sorted_wrt (\<lambda>a b. fst a < fst b \<and> fst a \<le> rb_off (snd b)) es" using assms(1) by (simp add: chain_def)
  then have "sorted_wrt (\<lambda>a b. fst a < fst b \<and> fst a \<le> rb_off (snd b)) (?l @ (?k, buf) # ?h)"
    using l h by (auto simp: sorted_wrt_append sorted_wrt_filter; meson le_trans off_le_max_off)
  then have "chain (bt_put ?k buf es)" using key by (auto simp: chain_def bt_put_def)
  moreover have "rb_ivl b = {}" if "(k, b) \<in> set es" "k = ?k" for k b
  proof -
    have "0 < rb_len buf" "apart buf b" "rb_max_off b = ?k" using that key assms(2,3) by force+
    then show ?thesis by (auto simp: apart_def rb_ivl_def rb_max_off_def)
  qed
  then have "ivls (map snd (bt_put ?k buf es)) = rb_ivl buf \<union> ivls (map snd es)"
    by (auto simp: bt_put_def ivls_def) (metis empty_iff linorder_neqE_nat)
  ultimately show ?thesis by (auto simp: bt_put_def)
qed

lemma rv_store_parts:
  assumes "rv_inv C r" "\<not> rv_drain r" "part_of C buf" "rv_off r \<le> rb_off buf" "\<forall>b\<in>set (map snd (rv_data r)). apart buf b"
    "\<forall>b\<in>set (map snd (rv_data r)). rb_max_off b = rb_max_off buf \<longrightarrow> 0 < rb_len buf"
  shows "rv_inv C (rv_store buf r) \<and> rv_have (rv_store buf r) = rv_have r \<union> rb_ivl buf \<and> same_stream r (rv_store buf r) \<and>
    rv_len (rv_store buf r) = max (rv_len r) (rb_max_off buf)"
proof -
  have c: "chain (rv_data r)" using assms(1) by (simp add: rv_inv_def)
  note p = chain_put [OF c assms(5,6)]
  have "slice_of C b \<and> rv_off r \<le> rb_off b \<and> k \<le> max (rv_len r) (rb_max_off buf)"
    if "(k, b) \<in> set (bt_put (rb_max_off buf) buf (rv_data r))" for k b
    using p that assms(1,3,4) unfolding rv_inv_def part_of_def by fastforce
  then show ?thesis
    using assms(1,2) p by (auto simp: rv_inv_def rv_store_def Let_def rv_have_def same_stream_def)
qed


lemma rv_skip_part:
  assumes "part_of C buf" "rv_off r \<le> rb_max_off buf"
  obtains b1 where "rv_skip r buf = Ok b1" "part_of C b1" "rb_off b1 = max (rv_off r) (rb_off buf)" "rb_max_off b1 = rb_max_off buf"
proof (cases "rv_off r > rb_off buf")
  case True
  then have "rv_off r - rb_off buf \<le> rb_len buf" using assms(2) by (simp add: rb_len_eq)
  from split_off_parts [OF assms(1) this] obtain l b1 where "rb_split_off (rv_off r - rb_off buf) buf = Ok (l, b1)"
    "part_of C b1" "rb_off b1 = rb_off buf + (rv_off r - rb_off buf)" "rb_max_off b1 = rb_max_off buf" by metis
  with True show ?thesis by (intro that [of b1]) (simp_all add: rv_skip_def)
next
  case False
  with assms show ?thesis by (intro that [of buf]) (simp_all add: rv_skip_def)
qed

lemma rv_scan_empty:
  assumes "rb_len buf = 0" "chain es" "\<forall>(k, b)\<in>set es. rb_off buf \<le> rb_max_off b" "rv_scan buf es [] = Ok (Some b', again)"
  shows "\<forall>b\<in>set (map snd es). rb_max_off b \<noteq> rb_max_off b'"
proof (cases es)
  case (Cons e es')
  obtain k b where e: "e = (k, b)" by (cases e)
  have m: "rb_max_off buf = rb_off buf" using assms(1) by (simp add: rb_max_off_def)
  have g: "rb_off b > rb_max_off buf" "b' = buf" using assms(3,4) Cons e m by (auto split: if_splits)
  have "rb_max_off buf < rb_max_off c" if "c \<in> set (map snd es)" for c
  proof -
    have "c = b \<or> rb_max_off b \<le> rb_off c" using that assms(2) by (auto simp: Cons e)
    with g(1) off_le_max_off [of b] off_le_max_off [of c] show ?thesis by (metis le_trans less_le_trans)
  qed
  with g show ?thesis by (metis less_irrefl)
qed simp

lemma chain_filter: "chain es \<Longrightarrow> chain (filter P es)"
  by (auto simp: chain_def sorted_wrt_filter)

lemma inside_ivls: "\<forall>b\<in>set bs. inside b buf \<Longrightarrow> ivls bs \<subseteq> rb_ivl buf"
  by (fastforce simp: ivls_def inside_def rb_ivl_def)

lemma rv_round_parts:
  assumes "rv_inv C r" "\<not> rv_drain r" "part_of C buf" "rv_off r \<le> rb_max_off buf"
  shows "\<exists>r' again. rv_round r buf = Ok (r', again) \<and> rv_inv C r' \<and> same_stream r r' \<and> rv_len r' \<le> max (rv_len r) (rb_max_off buf) \<and>
    (\<forall>b\<in>set again. part_of C b \<and> rv_off r \<le> rb_max_off b \<and> rb_max_off b \<le> rb_max_off buf) \<and> rv_have r' \<union> ivls again = rv_have r \<union> rb_ivl buf"
proof -
  obtain b1 where b1: "rv_skip r buf = Ok b1" "part_of C b1" "rb_off b1 = max (rv_off r) (rb_off buf)" "rb_max_off b1 = rb_max_off buf"
    using rv_skip_part [OF assms(3,4)] by blast
  have iv: "rv_have r \<union> rb_ivl b1 = rv_have r \<union> rb_ivl buf" using b1(3,4) by (auto simp: rv_have_def rb_ivl_def)
  have c: "chain (rv_data r)" using assms(1) by (simp add: rv_inv_def)
  have key: "k = rb_max_off b \<and> k \<le> rv_len r" if "(k, b) \<in> set (rv_data r)" for k b
    using that assms(1) by (auto simp: rv_inv_def chain_def)
  show ?thesis
  proof (cases "rb_off b1 < rv_len r \<or> rb_is_empty b1")
    case True
    let ?es = "filter (\<lambda>(k, _). rb_off b1 \<le> k) (rv_data r)"
    have es: "chain ?es" "\<forall>(k, b)\<in>set ?es. rb_off b1 \<le> rb_max_off b" using c key by (auto intro: chain_filter)
    from rv_scan_parts [OF es(1) b1(2) es(2), of "[]"] obtain kept again where
      sc: "rv_scan b1 ?es [] = Ok (kept, again)" "\<forall>r\<in>set again. part_of C r \<and> inside r b1"
        "case kept of None \<Rightarrow> rb_ivl b1 \<subseteq> ivls (map snd ?es) \<union> ivls again
         | Some b' \<Rightarrow> part_of C b' \<and> inside b' b1 \<and> (\<forall>b\<in>set (map snd ?es). apart b' b) \<and>
             rb_ivl b1 \<subseteq> ivls (map snd ?es) \<union> rb_ivl b' \<union> ivls again" by auto
    have rnd: "rv_round r buf = Ok (case kept of None \<Rightarrow> r | Some b' \<Rightarrow> rv_store b' r, again)"
      using b1(1) True sc(1) by (simp add: rv_round_def)
    have ag: "ivls again \<subseteq> rb_ivl b1" "\<forall>b\<in>set again. part_of C b \<and> rv_off r \<le> rb_max_off b \<and> rb_max_off b \<le> rb_max_off buf"
      using sc(2) b1(3,4) inside_ivls [of again b1] off_le_max_off le_trans unfolding inside_def by (auto, blast)
    have sub: "ivls (map snd ?es) \<subseteq> rv_have r" by (auto simp: rv_have_def ivls_def)
    show ?thesis
    proof (cases kept)
      case None
      with rnd ag sub sc(3) assms(1) iv show ?thesis by auto
    next
      case (Some b')
      with sc(3) have b': "part_of C b'" "inside b' b1" "\<forall>b\<in>set (map snd ?es). apart b' b"
        "rb_ivl b1 \<subseteq> ivls (map snd ?es) \<union> rb_ivl b' \<union> ivls again" by auto
      have "apart b' b \<and> (rb_max_off b = rb_max_off b' \<longrightarrow> 0 < rb_len b')" if "(k, b) \<in> set (rv_data r)" for k b
      proof (cases "rb_off b1 \<le> k")
        case True
        with that have "b \<in> set (map snd ?es)" by force
        with b'(2,3) rv_scan_empty [of b1 ?es b' again] sc(1) Some es show ?thesis by (auto simp: inside_def)
      next
        case False
        with key [OF that] b'(2) off_le_max_off [of b'] show ?thesis unfolding apart_def inside_def by linarith
      qed
      then have "\<forall>b\<in>set (map snd (rv_data r)). apart b' b \<and> (rb_max_off b = rb_max_off b' \<longrightarrow> 0 < rb_len b')" by auto
      moreover have "rv_off r \<le> rb_off b'" "rb_ivl b' \<subseteq> rb_ivl b1" using b'(2) b1(3) by (auto simp: inside_def rb_ivl_def)
      ultimately have st: "rv_inv C (rv_store b' r)" "rv_have (rv_store b' r) = rv_have r \<union> rb_ivl b'" "same_stream r (rv_store b' r)"
        "rb_ivl b' \<subseteq> rb_ivl b1" "rv_len (rv_store b' r) = max (rv_len r) (rb_max_off b')" using rv_store_parts [OF assms(1,2) b'(1)] by auto
      moreover have "rb_max_off b' \<le> rb_max_off buf" using b'(2) b1(4) by (simp add: inside_def)
      ultimately show ?thesis using Some rnd ag sub b'(4) iv by auto
    qed
  next
    case False
    have "\<forall>b\<in>set (map snd (rv_data r)). apart b1 b \<and> (rb_max_off b = rb_max_off b1 \<longrightarrow> 0 < rb_len b1)"
      using False key by (fastforce simp: apart_def rb_is_empty_def)
    then have "rv_inv C (rv_store b1 r)" "rv_have (rv_store b1 r) = rv_have r \<union> rb_ivl b1" "same_stream r (rv_store b1 r)"
      "rv_len (rv_store b1 r) = max (rv_len r) (rb_max_off buf)"
      using rv_store_parts [OF assms(1,2) b1(2)] b1(3,4) by auto
    with False b1(1) iv show ?thesis by (auto simp: rv_round_def)
  qed
qed


lemma rv_loop_parts:
  assumes "rv_inv C r" "\<not> rv_drain r" "\<forall>b\<in>set bufs. part_of C b \<and> rv_off r \<le> rb_max_off b \<and> rb_max_off b \<le> m"
  shows "\<exists>r'. rv_loop r bufs = Ok r' \<and> rv_inv C r' \<and> same_stream r r' \<and> rv_len r' \<le> max (rv_len r) m \<and>
    rv_have r' = rv_have r \<union> ivls bufs"
  using assms
proof (induction r bufs rule: rv_loop.induct)
  case (2 r buf bufs)
  obtain r1 again where r1: "rv_round r buf = Ok (r1, again)" "rv_inv C r1" "same_stream r r1" "rv_len r1 \<le> max (rv_len r) (rb_max_off buf)"
    "\<forall>b\<in>set again. part_of C b \<and> rv_off r \<le> rb_max_off b \<and> rb_max_off b \<le> rb_max_off buf"
    "rv_have r1 \<union> ivls again = rv_have r \<union> rb_ivl buf"
    using rv_round_parts [of C r buf] 2(2-4) by auto
  have "rb_max_off buf \<le> m" using 2(4) by simp
  have "\<exists>r'. rv_loop r1 (bufs @ again) = Ok r' \<and> rv_inv C r' \<and> same_stream r1 r' \<and> rv_len r' \<le> max (rv_len r1) m \<and>
      rv_have r' = rv_have r1 \<union> ivls (bufs @ again)"
    using 2 r1 by (intro 2(1) [OF r1(1) refl]) (auto simp: same_stream_def)
  with r1 \<open>rb_max_off buf \<le> m\<close> show ?case by (auto simp: same_stream_def)
qed simp

text \<open>The final size a new buffer contradicts.\<close>

definition size_clash :: "range_buf \<Rightarrow> recv_buf \<Rightarrow> bool" where
  "size_clash buf r \<longleftrightarrow> (\<exists>f. rv_fin_off r = Some f \<and> (f < rb_max_off buf \<or> rb_fin buf \<and> f \<noteq> rb_max_off buf)) \<or>
     rb_fin buf \<and> rb_max_off buf < rv_len r"

lemma rv_write_errors:
  "fc_max_data (rv_flow r) < rb_max_off buf \<Longrightarrow> rv_write buf r = Err FlowControl"
  "rb_max_off buf \<le> fc_max_data (rv_flow r) \<Longrightarrow> size_clash buf r \<Longrightarrow> rv_write buf r = Err FinalSize"
  by (auto simp: rv_write_def size_clash_def split: option.splits)

lemma rv_write_parts:
  assumes "rv_inv C r" "\<not> rv_drain r" "part_of C buf" "rb_max_off buf \<le> fc_max_data (rv_flow r)" "\<not> size_clash buf r"
  shows "\<exists>r'. rv_write buf r = Ok r' \<and> rv_inv C r' \<and> rv_len r' \<le> max (rv_len r) (rb_max_off buf) \<and>
    rv_have r' = rv_have r \<union> rb_ivl buf \<and> same_stream (r\<lparr>rv_fin_off := if rb_fin buf then Some (rb_max_off buf) else rv_fin_off r\<rparr>) r'"
proof -
  define r1 where "r1 = r\<lparr>rv_fin_off := if rb_fin buf then Some (rb_max_off buf) else rv_fin_off r\<rparr>"
  have r1: "rv_inv C r1" "\<not> rv_drain r1" "rv_have r1 = rv_have r" "rv_off r1 = rv_off r" "rv_len r1 = rv_len r" "rv_off r \<le> rv_len r"
    using assms(1,2) by (auto simp: r1_def rv_inv_def rv_have_def)
  have e: "rb_ivl buf = {}" if "rb_is_empty buf" using that by (simp add: rb_ivl_def rb_is_empty_def rb_max_off_def)
  have "(if rb_fin buf then r\<lparr>rv_fin_off := Some (rb_max_off buf)\<rparr> else r) = r1" by (simp add: r1_def)
  then have w: "rv_write buf r = (if rv_fin_off r \<noteq> None \<and> rb_is_empty buf then Ok r else if \<not> rb_fin buf \<and> rb_is_empty buf then Ok r1
      else if rv_off r1 \<ge> rb_max_off buf \<and> \<not> rb_is_empty buf then Ok r1 else rv_loop r1 [buf])"
    using assms(4,5) by (auto simp: rv_write_def size_clash_def Let_def split: option.splits)
  consider (known) "rv_fin_off r \<noteq> None" "rb_is_empty buf" | (empty) "rv_fin_off r = None" "rb_is_empty buf" "\<not> rb_fin buf"
    | (old) "rb_max_off buf \<le> rv_off r" "\<not> rb_is_empty buf"
    | (loop) "rv_fin_off r = None \<and> rb_fin buf \<and> rb_is_empty buf \<or> rv_off r < rb_max_off buf \<and> \<not> rb_is_empty buf" by fastforce
  then have "\<exists>r'. rv_write buf r = Ok r' \<and> rv_inv C r' \<and> rv_len r' \<le> max (rv_len r) (rb_max_off buf) \<and>
    rv_have r' = rv_have r \<union> rb_ivl buf \<and> same_stream r1 r'"
  proof cases
    case known
    then have "r1 = r" using assms(5) by (auto simp: r1_def size_clash_def)
    with known w e assms(1) show ?thesis by simp
  next
    case empty
    with w e r1 show ?thesis by auto
  next
    case old
    then have "rb_ivl buf \<subseteq> rv_have r" by (auto simp: rb_ivl_def rv_have_def)
    with old w r1 show ?thesis by auto
  next
    case loop
    then have "rv_off r1 \<le> rb_max_off buf" using assms(5) r1(4,6) by (auto simp: size_clash_def)
    then obtain r' where "rv_loop r1 [buf] = Ok r'" "rv_inv C r'" "same_stream r1 r'" "rv_have r' = rv_have r1 \<union> rb_ivl buf"
      "rv_len r' \<le> max (rv_len r1) (rb_max_off buf)"
      using rv_loop_parts [of C r1 "[buf]" "rb_max_off buf"] r1 assms(3) by auto
    with loop w r1 show ?thesis by auto
  qed
  then show ?thesis by (simp add: r1_def)
qed

section \<open>Reading\<close>

lemma rv_take_parts:
  assumes "chain es" "\<forall>(k, b)\<in>set es. slice_of C b \<and> off \<le> rb_off b"
  shows "\<exists>out off' es'. rv_take copy cap off es = Ok (out, off', es') \<and> held C off out \<and> length out = (if copy then off' - off else 0) \<and>
    off \<le> off' \<and> off' \<le> off + cap \<and> chain es' \<and> (\<forall>(k, b)\<in>set es'. slice_of C b \<and> off' \<le> rb_off b) \<and>
    {..<off'} \<union> ivls (map snd es') = {..<off} \<union> ivls (map snd es) \<and> (off' = off + cap \<or> off' \<notin> ivls (map snd es)) \<and>
    fst ` set es' \<subseteq> fst ` set es"
  using assms
proof (induction es arbitrary: cap off)
  case Nil
  then show ?case by simp
next
  case (Cons e es)
  obtain b where e: "e = (rb_max_off b, b)" "slice_of C b" "off \<le> rb_off b" "chain es"
    and es: "\<forall>(k, c)\<in>set es. slice_of C c \<and> rb_max_off b \<le> rb_off c"
    using Cons.prems by (cases e) fastforce
  show ?case
  proof (cases "cap = 0 \<or> rb_off b \<noteq> off")
    case True
    have "off \<notin> ivls (map snd (e # es))" if "cap \<noteq> 0"
    proof -
      have "off < rb_off b" using True that e(3) by auto
      moreover have "off < rb_off c" if "(k, c) \<in> set es" for k c
        using es that \<open>off < rb_off b\<close> off_le_max_off [of b] by (fastforce simp del: off_le_max_off)
      ultimately show ?thesis by (fastforce simp: ivls_def rb_ivl_def e(1))
    qed
    with True Cons.prems show ?thesis by (auto simp: e(1))
  next
    case False
    define n where "n = min (rb_len b) cap"
    have n: "n \<le> rb_len b" "n \<le> cap" by (auto simp: n_def)
    have b: "rb_deref b = Ok (rb_bytes b)" "held C off (rb_bytes b)" "rb_max_off b = off + rb_len b" "length (rb_bytes b) = rb_len b"
      using e(2) False rb_deref_wf [of b] length_rb_bytes [of b] by (auto simp: slice_of_def rb_max_off_def)
    define bs where "bs = (if copy then take n (rb_bytes b) else [])"
    have o: "(if copy then rbind (rb_deref b) (\<lambda>bytes. idx_range bytes 0 n) else Ok []) = Ok bs"
      using n b by (simp add: bs_def sub_def)
    have bs: "held C off bs" "length bs = (if copy then n else 0)" using b(2,4) n held_take_drop by (auto simp: bs_def)
    show ?thesis
    proof (cases "n < rb_len b")
      case True
      note c = consume_slice [OF e(2) n(1)]
      have t: "rv_take copy cap off (e # es) = Ok (bs, off + n, (rb_max_off b, rb_consume n b) # es)"
        using False True o by (simp add: e(1) n_def [symmetric] Let_def)
      have iv: "{..<off + n} \<union> rb_ivl (rb_consume n b) = {..<off} \<union> rb_ivl b"
        using c False n(1) b(3) by (auto simp: rb_ivl_def)
      have "chain ((rb_max_off b, rb_consume n b) # es)" using Cons.prems(1) c(3) by (auto simp: e(1))
      moreover have "\<forall>(k, d)\<in>set ((rb_max_off b, rb_consume n b) # es). slice_of C d \<and> off + n \<le> rb_off d"
        using es b(3) n(1) c(1,2) False by fastforce
      moreover have "n = cap" using True by (simp add: n_def split: if_splits)
      moreover have "{..<off + n} \<union> ivls (map snd ((rb_max_off b, rb_consume n b) # es)) = {..<off} \<union> ivls (map snd (e # es))"
        using iv by (simp add: e(1) Un_assoc [symmetric])
      ultimately show ?thesis unfolding t using bs by (simp add: e(1) del: chain_simps)
    next
      case f: False
      then have m: "n = rb_len b" using n(1) by simp
      have es': "\<forall>(k, c)\<in>set es. slice_of C c \<and> off + n \<le> rb_off c" using es b(3) m by simp
      obtain out off' es' where ih: "rv_take copy (cap - n) (off + n) es = Ok (out, off', es')"
        "held C (off + n) out" "length out = (if copy then off' - (off + n) else 0)" "off + n \<le> off'" "off' \<le> off + n + (cap - n)" "chain es'"
        "\<forall>(k, b)\<in>set es'. slice_of C b \<and> off' \<le> rb_off b" "{..<off'} \<union> ivls (map snd es') = {..<off + n} \<union> ivls (map snd es)"
        "off' = off + n + (cap - n) \<or> off' \<notin> ivls (map snd es)" "fst ` set es' \<subseteq> fst ` set es"
        using Cons.IH [OF e(4) es', of "cap - n"] by blast
      have "rv_take copy cap off (e # es) = Ok (bs @ out, off', es')"
        using False f o ih(1) by (simp add: e(1) n_def [symmetric] Let_def)
      moreover have "held C off (bs @ out)" "length (bs @ out) = (if copy then off' - off else 0)"
        using bs ih(2,3,4) by (cases copy; auto simp: held_append)+
      moreover have "{..<off + n} = {..<off} \<union> rb_ivl b" using False b(3) m by (auto simp: rb_ivl_def)
      moreover have "off' \<notin> rb_ivl b" using ih(4) m b(3) by (auto simp: rb_ivl_def)
      ultimately show ?thesis using ih(4-10) n(2)
        by (intro exI [of _ "bs @ out"] exI [of _ off'] exI [of _ es'] conjI) (simp_all add: e(1) subset_insertI2 Un_assoc)
    qed
  qed
qed

end
