(* ===== verification/Quic_Stream.thy ===== *)
theory Quic_Stream
  imports Quic_Recv
begin

text \<open>
  The life of the receiving half of a stream (\<open>stream/recv_buf.rs\<close>): frames arrive in any order,
  overlapping or repeated, and the application reads.
\<close>

text \<open>Everything held lies below the length, and the first byte missing ends what can be read.\<close>

lemma have_below: "rv_inv C r \<Longrightarrow> rv_have r \<subseteq> {..<rv_len r}"
  by (fastforce simp: rv_inv_def rv_have_def ivls_def rb_ivl_def chain_def)

lemma not_ready:
  assumes "rv_inv C r" "\<not> rv_ready r"
  shows "rv_off r \<notin> rv_have r"
proof (cases "rv_data r")
  case Nil
  then show ?thesis by (simp add: rv_have_def)
next
  case (Cons e es)
  obtain k b where e: "e = (k, b)" by (cases e)
  have b: "rv_off r < rb_off b" using assms Cons by (auto simp: rv_inv_def rv_ready_def e)
  have "rv_off r < rb_off c" if "(k', c) \<in> set es" for k' c
  proof -
    have "rb_max_off b \<le> rb_off c" using assms(1) that by (auto simp: rv_inv_def Cons e)
    with b off_le_max_off [of b] show ?thesis by linarith
  qed
  with b show ?thesis by (fastforce simp: rv_have_def Cons e ivls_def rb_ivl_def)
qed

lemma emit_parts:
  assumes "rv_inv C r" "rv_error r = None"
  obtains (idle) "emit_or_discard action r = (r, Err Done)" "rv_off r \<notin> rv_have r"
    | (read) r' out n where "emit_or_discard action r = (r', Ok (out, n, rv_is_fin r'))" "rv_inv C r'" "held C (rv_off r) out"
      "length out = (if copies action then n else 0)" "n \<le> action_cap action" "rv_off r' = rv_off r + n"
      "n = action_cap action \<or> rv_off r' \<notin> rv_have r" "rv_have r' = rv_have r" "rv_len r' = rv_len r"
      "rv_flow r' = add_consumed n (rv_flow r)" "rv_fin_off r' = rv_fin_off r" "rv_error r' = None" "rv_drain r' = rv_drain r"
proof (cases "rv_ready r")
  case False
  with not_ready [OF assms(1)] show ?thesis by (intro idle) (simp_all add: emit_or_discard_def)
next
  case True
  have es: "chain (rv_data r)" "\<forall>(k, b)\<in>set (rv_data r). slice_of C b \<and> rv_off r \<le> rb_off b" using assms(1) by (auto simp: rv_inv_def)
  obtain out off' es' where t: "rv_take (copies action) (action_cap action) (rv_off r) (rv_data r) = Ok (out, off', es')"
    "held C (rv_off r) out" "length out = (if copies action then off' - rv_off r else 0)" "rv_off r \<le> off'"
    "off' \<le> rv_off r + action_cap action" "chain es'" "\<forall>(k, b)\<in>set es'. slice_of C b \<and> off' \<le> rb_off b"
    "{..<off'} \<union> ivls (map snd es') = rv_have r" "off' = rv_off r + action_cap action \<or> off' \<notin> ivls (map snd (rv_data r))"
    "fst ` set es' \<subseteq> fst ` set (rv_data r)"
    using rv_take_parts [OF es, of "copies action" "action_cap action"] unfolding rv_have_def by blast
  define r' where "r' = r\<lparr>rv_data := es', rv_off := off', rv_flow := add_consumed (off' - rv_off r) (rv_flow r)\<rparr>"
  have em: "emit_or_discard action r = (r', Ok (out, off' - rv_off r, rv_is_fin r'))"
    using True assms(2) t(1) unfolding emit_or_discard_def r'_def
    by (simp only: if_False not_True_eq_False option.case res.case prod.case Let_def simp_thms)
  have len: "off' \<le> rv_len r"
  proof (rule ccontr)
    assume "\<not> off' \<le> rv_len r"
    then have "rv_len r \<in> rv_have r" unfolding t(8) [symmetric] by simp
    with have_below [OF assms(1)] show False by blast
  qed
  have "k \<le> rv_len r" if "(k, b) \<in> set es'" for k b
  proof -
    have "k \<in> fst ` set (rv_data r)" using t(10) that by force
    then show ?thesis using assms(1) by (auto simp: rv_inv_def)
  qed
  then have "rv_inv C r'" using t(6,7) len by (auto simp: rv_inv_def r'_def)
  moreover have "rv_have r' = rv_have r" unfolding t(8) [symmetric] by (simp add: rv_have_def r'_def)
  moreover have "off' - rv_off r = action_cap action \<or> off' \<notin> rv_have r" using t(4,9) unfolding rv_have_def by auto
  ultimately show ?thesis
    using t(2-5) assms(2) by (intro read [OF em]) (simp_all add: r'_def)
qed

section \<open>A stream, from its frames to what is read\<close>

text \<open>A frame's data, offset and mark, and a read into a buffer of some length.\<close>

datatype recv_op = Chunk bytes nat bool | Read nat

fun recv_run :: "recv_op list \<Rightarrow> recv_buf \<Rightarrow> recv_buf \<times> bytes \<times> (unit, quic_error) res" where
  "recv_run [] r = (r, [], Ok ())"
| "recv_run (Chunk d off fin # ops) r =
     (case rv_write (rb_from d off fin) r of
        Ok r \<Rightarrow> recv_run ops r
      | Err e \<Rightarrow> (r, [], Err e)
      | Panic \<Rightarrow> (r, [], Panic))"
| "recv_run (Read n # ops) r =
     (case emit_or_discard (Emit n) r of
        (r, Ok (out, _, _)) \<Rightarrow> (let (r, rest, e) = recv_run ops r in (r, out @ rest, e))
      | (r, Err e) \<Rightarrow> if e = Done then recv_run ops r else (r, [], Err e)
      | (r, Panic) \<Rightarrow> (r, [], Panic))"

text \<open>The bytes the frames carried, with their offsets.\<close>

fun carried :: "recv_op list \<Rightarrow> (nat \<times> byte) set" where
  "carried [] = {}"
| "carried (Chunk d off fin # ops) = {(off + i, d ! i) |i. i < length d} \<union> carried ops"
| "carried (Read n # ops) = carried ops"

fun covered :: "recv_op list \<Rightarrow> nat set" where
  "covered [] = {}"
| "covered (Chunk d off fin # ops) = {off..<off + length d} \<union> covered ops"
| "covered (Read n # ops) = covered ops"

lemma rb_from_facts [simp]: "rb_off (rb_from d off fin) = off" "rb_max_off (rb_from d off fin) = off + length d"
  "rb_fin (rb_from d off fin) = fin" "rb_ivl (rb_from d off fin) = {off..<off + length d}"
  by (simp_all add: rb_from_def rb_off_def rb_max_off_def rb_len_def rb_ivl_def)

lemma rb_from_part: "{(off + i, d ! i) |i. i < length d} \<subseteq> C \<Longrightarrow> part_of C (rb_from d off fin)"
  by (auto simp: part_of_def slice_of_def rb_wf_def rb_bytes_def rb_from_def rb_off_def held_def sub_def)

text \<open>What holds of a stream between operations, whatever the peer sends.\<close>

definition live :: "(nat \<times> byte) set \<Rightarrow> recv_buf \<Rightarrow> bool" where
  "live C r \<longleftrightarrow> rv_inv C r \<and> rv_error r = None \<and> \<not> rv_drain r \<and> rv_len r \<le> fc_max_data (rv_flow r) \<and>
     fc_consumed (rv_flow r) = rv_off r"

lemma rv_new_live: "live C (rv_new max_data window max_window)"
  by (simp add: live_def rv_inv_def rv_new_def fc_new_def)

lemma write_live:
  assumes "live C r" "part_of C buf" "rv_write buf r = Ok r'"
  shows "live C r'" "rv_off r' = rv_off r" "fc_max_data (rv_flow r') = fc_max_data (rv_flow r)" "rv_have r' = rv_have r \<union> rb_ivl buf"
proof -
  have ok: "rb_max_off buf \<le> fc_max_data (rv_flow r)" "\<not> size_clash buf r"
    using assms(3) rv_write_errors [where r = r and buf = buf] by (force simp: not_less [symmetric])+
  show "live C r'" "rv_off r' = rv_off r" "fc_max_data (rv_flow r') = fc_max_data (rv_flow r)" "rv_have r' = rv_have r \<union> rb_ivl buf"
    using rv_write_parts [of C r buf] ok assms by (auto simp: live_def same_stream_def)
qed

lemma write_errors:
  assumes "live C r" "part_of C buf"
  shows "(\<exists>r'. rv_write buf r = Ok r') \<or> rv_write buf r = Err FlowControl \<or> rv_write buf r = Err FinalSize"
  using rv_write_parts [of C r buf] rv_write_errors [where r = r and buf = buf] assms by (metis live_def not_less)

lemma recv_run_held:
  assumes "live C r" "carried ops \<subseteq> C" "recv_run ops r = (r', out, e)"
  shows "held C (rv_off r) out \<and> rv_off r' = rv_off r + length out \<and> live C r' \<and>
    (e = Ok () \<or> e = Err FlowControl \<or> e = Err FinalSize) \<and> fc_max_data (rv_flow r') = fc_max_data (rv_flow r) \<and>
    (e = Ok () \<longrightarrow> rv_have r' = rv_have r \<union> covered ops)"
  using assms
proof (induction ops r arbitrary: r' out e rule: recv_run.induct)
  case (2 d off fin ops r)
  have c: "{(off + i, d ! i) |i. i < length d} \<subseteq> C" "carried ops \<subseteq> C" using 2(3) unfolding carried.simps by blast+
  note p = rb_from_part [OF c(1), of fin]
  show ?case
  proof (cases "\<exists>r1. rv_write (rb_from d off fin) r = Ok r1")
    case True
    then obtain r1 where r1: "rv_write (rb_from d off fin) r = Ok r1" by blast
    note l = write_live [OF 2(2) p r1]
    from 2(4) r1 have "recv_run ops r1 = (r', out, e)" by simp
    with 2(1) [OF r1 l(1) c(2)] l show ?thesis by (auto simp: Un_assoc)
  next
    case False
    with write_errors [OF 2(2) p] 2(2,4) show ?thesis by auto
  qed
next
  case (3 n ops r)
  have l: "rv_inv C r" "rv_error r = None" using 3(3) by (auto simp: live_def)
  from l show ?case
  proof (cases rule: emit_parts [where action = "Emit n"])
    case idle
    with 3(2) [OF idle(1) [symmetric] refl refl 3(3)] 3(4,5) show ?thesis by simp
  next
    case (read r1 out1 m)
    obtain rest where run: "recv_run ops r1 = (r', rest, e)" "out = out1 @ rest"
      using 3(5) read(1) by (auto split: prod.splits)
    have "live C r1" using read 3(3) by (auto simp: live_def add_consumed_def)
    with 3(1) [OF read(1) [symmetric] refl refl refl _ _ run(1)] 3(4) have
      "held C (rv_off r1) rest \<and> rv_off r' = rv_off r1 + length rest \<and> live C r' \<and>
       (e = Ok () \<or> e = Err FlowControl \<or> e = Err FinalSize) \<and> fc_max_data (rv_flow r') = fc_max_data (rv_flow r1) \<and>
       (e = Ok () \<longrightarrow> rv_have r' = rv_have r1 \<union> covered ops)" by auto
    with read run(2) show ?thesis by (auto simp: held_append add_consumed_def)
  qed
qed simp


lemma recv_run_append:
  "recv_run as r = (r1, o1, Ok ()) \<Longrightarrow> recv_run (as @ bs) r = (let (r2, o2, e2) = recv_run bs r1 in (r2, o1 @ o2, e2))"
proof (induction as r arbitrary: r1 o1 rule: recv_run.induct)
  case (2 d off fin ops r)
  then show ?case by (cases "rv_write (rb_from d off fin) r") auto
next
  case (3 n ops r)
  obtain r' x where em: "emit_or_discard (Emit n) r = (r', x)" by fastforce
  show ?case
  proof (cases x)
    case (Ok y)
    obtain out m fin where y: "y = (out, m, fin)" by (cases y)
    obtain r2 o2 e2 where run: "recv_run ops r' = (r2, o2, e2)" by (cases "recv_run ops r'")
    with 3(3) em Ok y have "r2 = r1" "o1 = out @ o2" "e2 = Ok ()" by auto
    with 3(1) [OF em [symmetric] Ok y [symmetric] refl] run em Ok y show ?thesis by (auto split: prod.splits)
  next
    case (Err e)
    with 3(2) [OF em [symmetric] Err] 3(3) em show ?thesis by (auto split: if_splits)
  next
    case Panic
    with 3(3) em show ?thesis by simp
  qed
qed simp

text \<open>What is buffered fits between what was read and the end of what arrived.\<close>

lemma buffered_bounded:
  assumes "chain es" "\<forall>(k, b)\<in>set es. lo \<le> rb_off b \<and> k \<le> hi" "lo \<le> hi"
  shows "sum_list (map (\<lambda>e. rb_len (snd e)) es) \<le> hi - lo"
  using assms
proof (induction es arbitrary: lo)
  case (Cons e es)
  obtain b where e: "e = (rb_max_off b, b)" "lo \<le> rb_off b" "rb_max_off b \<le> hi" using Cons.prems by (cases e) auto
  have "sum_list (map (\<lambda>e. rb_len (snd e)) es) \<le> hi - rb_max_off b" using Cons.prems e(3) by (intro Cons.IH) (auto simp: e(1))
  with e show ?case by (simp add: rb_max_off_def)
qed simp

text \<open>A peer that sends the stream \<open>S\<close> sends slices of it, and marks only its end.\<close>

fun sent :: "bytes \<Rightarrow> recv_op \<Rightarrow> bool" where
  "sent S (Chunk d off fin) \<longleftrightarrow> off + length d \<le> length S \<and> sub S off (off + length d) = d \<and> (fin \<longrightarrow> off + length d = length S)"
| "sent S (Read n) \<longleftrightarrow> True"

fun marks_end :: "recv_op \<Rightarrow> bool" where
  "marks_end (Chunk d off fin) \<longleftrightarrow> fin"
| "marks_end (Read n) \<longleftrightarrow> False"

definition stream_pairs :: "bytes \<Rightarrow> (nat \<times> byte) set" where
  "stream_pairs S = {(i, S ! i) |i. i < length S}"

lemma carried_sent: "list_all (sent S) ops \<Longrightarrow> carried ops \<subseteq> stream_pairs S"
proof (induction ops rule: carried.induct)
  case (2 d off fin ops)
  have "(off + i, d ! i) \<in> stream_pairs S" if "i < length d" for i
  proof -
    have "off + length d \<le> length S" "take (length d) (drop off S) = d" using 2(2) by (auto simp: sub_def)
    then have "d ! i = S ! (off + i)" using that by (metis add_leD1 nth_drop nth_take)
    with that \<open>off + length d \<le> length S\<close> show ?thesis by (auto simp: stream_pairs_def)
  qed
  with 2 show ?case by auto
qed auto

lemma held_stream: "held (stream_pairs S) 0 out \<Longrightarrow> length out \<le> length S \<Longrightarrow> out = take (length out) S"
  by (auto simp: held_def stream_pairs_def list_eq_iff_nth_eq)

definition honest :: "bytes \<Rightarrow> recv_buf \<Rightarrow> bool" where
  "honest S r \<longleftrightarrow> live (stream_pairs S) r \<and> rv_len r \<le> length S \<and> length S \<le> fc_max_data (rv_flow r) \<and>
     (\<forall>f. rv_fin_off r = Some f \<longrightarrow> f = length S)"

lemma write_honest:
  assumes "honest S r" "sent S (Chunk d off fin)"
  shows "\<exists>r'. rv_write (rb_from d off fin) r = Ok r' \<and> honest S r' \<and>
    rv_fin_off r' = (if fin then Some (length S) else rv_fin_off r)"
proof -
  let ?b = "rb_from d off fin"
  have p: "part_of (stream_pairs S) ?b"
    using assms(2) carried_sent [of S "[Chunk d off fin]"] by (intro rb_from_part) simp
  have b: "off + length d \<le> length S" "fin \<Longrightarrow> off + length d = length S" using assms(2) by auto
  then have ok: "rb_max_off ?b \<le> fc_max_data (rv_flow r)" "\<not> size_clash ?b r"
    using assms(1) by (auto simp: honest_def size_clash_def)
  have l: "rv_inv (stream_pairs S) r" "\<not> rv_drain r" "live (stream_pairs S) r" "rv_len r \<le> length S"
    "length S \<le> fc_max_data (rv_flow r)" "\<forall>f. rv_fin_off r = Some f \<longrightarrow> f = length S"
    using assms(1) by (simp_all add: honest_def live_def)
  obtain r' where r': "rv_write ?b r = Ok r'" "rv_len r' \<le> max (rv_len r) (rb_max_off ?b)"
    "same_stream (r\<lparr>rv_fin_off := if rb_fin ?b then Some (rb_max_off ?b) else rv_fin_off r\<rparr>) r'"
    using rv_write_parts [OF l(1,2) p ok] by blast
  have "rv_len r' \<le> length S" using r'(2) b(1) l(4) by simp
  moreover have f: "rv_fin_off r' = (if fin then Some (length S) else rv_fin_off r)" "rv_flow r' = rv_flow r"
    using r'(3) b(2) by (simp_all add: same_stream_def)
  moreover have "live (stream_pairs S) r'" by (rule write_live(1) [OF l(3) p r'(1)])
  ultimately have "honest S r'" using l(5,6) by (simp add: honest_def)
  with r'(1) f(1) show ?thesis by blast
qed

lemma recv_run_honest:
  assumes "honest S r" "list_all (sent S) ops" "recv_run ops r = (r', out, e)"
  shows "e = Ok () \<and> honest S r' \<and> rv_fin_off r' = (if list_ex marks_end ops then Some (length S) else rv_fin_off r)"
  using assms
proof (induction ops r arbitrary: r' out e rule: recv_run.induct)
  case (2 d off fin ops r)
  have sent: "sent S (Chunk d off fin)" "list_all (sent S) ops" using 2(3) by simp_all
  obtain r1 where r1: "rv_write (rb_from d off fin) r = Ok r1" "honest S r1" "rv_fin_off r1 = (if fin then Some (length S) else rv_fin_off r)"
    using write_honest [OF 2(2) sent(1)] by blast
  have "recv_run ops r1 = (r', out, e)" using 2(4) r1(1) by simp
  from 2(1) [OF r1(1,2) sent(2) this] r1(3) show ?case by simp
next
  case (3 n ops r)
  have l: "rv_inv (stream_pairs S) r" "rv_error r = None" using 3(3) by (auto simp: honest_def live_def)
  from l show ?case
  proof (cases rule: emit_parts [where action = "Emit n"])
    case idle
    with 3(2) [OF idle(1) [symmetric] refl refl 3(3)] 3(4,5) show ?thesis by simp
  next
    case (read r1 out1 m)
    obtain rest where run: "recv_run ops r1 = (r', rest, e)" "out = out1 @ rest"
      using 3(5) read(1) by (auto split: prod.splits)
    have "honest S r1" using read(2,6,9-13) 3(3) by (simp add: honest_def live_def add_consumed_def)
    from 3(1) [OF read(1) [symmetric] refl refl refl this _ run(1)] 3(4) read(11) show ?thesis by simp
  qed
qed simp


section \<open>The window\<close>

lemma almost_full_live:
  assumes "live C r"
  shows "\<exists>b. rv_almost_full r = Ok b"
proof -
  have "fc_consumed (rv_flow r) \<le> fc_max_data (rv_flow r)" using assms by (auto simp: live_def rv_inv_def)
  then show ?thesis by (auto simp: rv_almost_full_def should_update_max_data_def)
qed

lemma update_live:
  assumes "live C r" "rv_almost_full r = Ok True"
  shows "fc_max_data (rv_flow r) < fc_max_data (update_max_data now (rv_flow r)) \<and>
    live C (r\<lparr>rv_flow := update_max_data now (rv_flow r)\<rparr>)"
proof -
  have "fc_max_data (rv_flow r) - fc_consumed (rv_flow r) < fc_window (rv_flow r) div 2" "fc_consumed (rv_flow r) \<le> fc_max_data (rv_flow r)"
    using assms by (auto simp: live_def rv_inv_def rv_almost_full_def should_update_max_data_def split: if_splits)
  then have "fc_max_data (rv_flow r) < max_data_next (rv_flow r)" by (simp add: max_data_next_def)
  with assms(1) show ?thesis by (auto simp: live_def update_max_data_def rv_inv_def)
qed

section \<open>Reset and shutdown\<close>

lemma rv_reset_fresh:
  assumes "live C r" "rv_fin_off r = None" "rv_len r \<le> fsize" "fsize \<le> fc_max_data (rv_flow r)"
  shows "\<exists>r'. rv_reset code fsize r = (r', Ok \<lparr>max_data_delta = fsize - rv_len r, consumed_flowcontrol = fsize - rv_off r\<rparr>) \<and>
    rv_error r' = Some code \<and> rv_ready r' \<and> rv_fin_off r' = Some fsize \<and> rv_off r' = fsize"
proof -
  let ?b = "rb_from [] fsize True"
  define r0 where "r0 = r\<lparr>rv_error := Some code, rv_off := fsize, rv_data := []\<rparr>"
  define r1 where "r1 = r0\<lparr>rv_fin_off := Some fsize\<rparr>"
  have l: "rv_error r = None" "\<not> rv_drain r" "rv_off r \<le> rv_len r" using assms(1) by (auto simp: live_def rv_inv_def)
  have b: "rb_is_empty ?b" "rb_len ?b = 0" by (simp_all add: rb_is_empty_def rb_from_def rb_len_def)
  have "rv_round r1 ?b = Ok (rv_store ?b r1, [])" using b by (simp add: rv_round_def rv_skip_def r1_def r0_def)
  then have "rv_loop r1 [?b] = Ok (rv_store ?b r1)" by simp
  then have "rv_write ?b r0 = Ok (rv_store ?b r1)"
    using assms(2-4) b by (simp add: rv_write_def r1_def r0_def Let_def)
  then have "rv_reset code fsize r = (rv_store ?b r1, Ok \<lparr>max_data_delta = fsize - rv_len r, consumed_flowcontrol = fsize - rv_off r\<rparr>)"
    using assms(2,3) l by (simp add: rv_reset_def r0_def [symmetric] Let_def)
  moreover have "rv_store ?b r1 = r1\<lparr>rv_len := fsize, rv_data := [(fsize, ?b)]\<rparr>"
    using l(2) assms(3) by (simp add: rv_store_def r1_def r0_def bt_put_def)
  ultimately show ?thesis by (auto simp: r1_def r0_def rv_ready_def)
qed

lemma rv_reset_known:
  assumes "live C r" "rv_fin_off r = Some fsize" "rv_len r \<le> fsize" "fsize \<le> fc_max_data (rv_flow r)"
  shows "rv_reset code fsize r = (r\<lparr>rv_error := Some code, rv_off := fsize, rv_data := []\<rparr>,
    Ok \<lparr>max_data_delta = fsize - rv_len r, consumed_flowcontrol = fsize - rv_off r\<rparr>)"
proof -
  have l: "rv_error r = None" "rv_off r \<le> rv_len r" using assms(1) by (auto simp: live_def rv_inv_def)
  have b: "rb_is_empty (rb_from [] fsize True)" by (simp add: rb_is_empty_def rb_from_def rb_len_def)
  show ?thesis using assms(2-4) l b by (simp add: rv_reset_def rv_write_def Let_def)
qed

definition drained :: "recv_buf \<Rightarrow> bool" where
  "drained r \<longleftrightarrow> rv_drain r \<and> rv_data r = [] \<and> rv_off r = rv_len r"

lemma shutdown_drains: "live C r \<Longrightarrow> \<exists>r'. rv_shutdown r = Ok (r', rv_len r - rv_off r) \<and> drained r'"
  by (auto simp: rv_shutdown_def live_def rv_inv_def drained_def)

lemma write_drained:
  assumes "drained r" "part_of C buf" "rv_write buf r = Ok r'"
  shows "drained r'"
proof -
  define r1 where "r1 = (if rb_fin buf then r\<lparr>rv_fin_off := Some (rb_max_off buf)\<rparr> else r)"
  have d: "drained r1" using assms(1) by (simp add: r1_def drained_def)
  have w: "r' = r \<or> r' = r1 \<or> rv_loop r1 [buf] = Ok r' \<and> (rb_is_empty buf \<longrightarrow> rb_fin buf) \<and>
      (rv_off r1 < rb_max_off buf \<or> rb_is_empty buf) \<and> (rb_fin buf \<longrightarrow> rv_len r1 \<le> rb_max_off buf)"
    using assms(3) by (auto simp: rv_write_def r1_def Let_def not_le split: if_splits option.splits)
  moreover have "drained r'" if "rv_loop r1 [buf] = Ok r'" "rv_off r1 \<le> rb_max_off buf"
  proof -
    note le = that(2)
    obtain b1 where b1: "rv_skip r1 buf = Ok b1" using rv_skip_part [OF assms(2) le] by blast
    have "rv_round r1 buf = Ok (rv_store b1 r1, [])" using b1 d by (simp add: rv_round_def drained_def)
    then have "r' = rv_store b1 r1" using that(1) by simp
    then show ?thesis using d by (simp add: rv_store_def drained_def Let_def)
  qed
  ultimately show ?thesis using assms(1) d by (auto simp: drained_def)
qed


section \<open>What a stream promises\<close>

lemma honest_facts:
  assumes "honest S r"
  shows "rv_inv (stream_pairs S) r" "rv_len r \<le> length S" "rv_off r \<le> length S" "rv_error r = None"
  using assms unfolding honest_def live_def rv_inv_def by auto

lemma rv_new_honest: "length S \<le> max_data \<Longrightarrow> honest S (rv_new max_data window max_window)"
  by (simp add: honest_def rv_new_live) (simp add: rv_new_def fc_new_def)

lemma rv_new_offs [simp]: "rv_off (rv_new max_data window max_window) = 0" "fc_max_data (rv_flow (rv_new max_data window max_window)) = max_data"
  "rv_have (rv_new max_data window max_window) = {}" "rv_fin_off (rv_new max_data window max_window) = None"
  by (simp_all add: rv_new_def fc_new_def rv_have_def)

text \<open>C5.  A peer that sends the slices of one stream within the limit (in any order, overlapping,
  repeated, cut anywhere, between any reads) gets no error, and what the application reads is always
  a prefix of that stream.
\<close>

theorem stream_reassembled:
  assumes "length S \<le> max_data" "list_all (sent S) ops"
  shows "\<exists>r out. recv_run ops (rv_new max_data window max_window) = (r, out, Ok ()) \<and> out = take (length out) S"
proof -
  obtain r out e where run: "recv_run ops (rv_new max_data window max_window) = (r, out, e)" by (rule prod_cases3)
  note h = recv_run_honest [OF rv_new_honest [OF assms(1)] assms(2) run]
  note l = recv_run_held [OF rv_new_live carried_sent [OF assms(2)] run]
  have e: "e = Ok ()" and "honest S r" using h by blast+
  have "rv_off r = length out" "held (stream_pairs S) 0 out" using l unfolding rv_new_offs add_0 by blast+
  with held_stream [of S out] honest_facts(3) [OF \<open>honest S r\<close>] have "out = take (length out) S" by metis
  with run e show ?thesis by blast
qed

theorem stream_reassembled_witness:
  "\<exists>r out. recv_run [Chunk [3, 4] 2 True, Read 9, Chunk [1, 2, 3] 0 False, Read 2, Chunk [2, 3] 1 False, Read 9] (rv_new 100 50 80) =
    (r, out, Ok ()) \<and> out = take (length out) [1, 2, 3, 4]"
  by (rule stream_reassembled) (simp_all add: sub_def)



text \<open>C7.  Whatever a peer sends (contradicting itself, beyond the limit, with false ends), writing
  and reading never panic, the only errors are \<open>FlowControl\<close> and \<open>FinalSize\<close>, every byte read at a
  position was carried by some frame for that position, and no more is ever buffered than
  the limit leaves beyond what was read.
\<close>

theorem stream_hostile_peer:
  assumes "recv_run ops (rv_new max_data window max_window) = (r, out, e)"
  shows "(e = Ok () \<or> e = Err FlowControl \<or> e = Err FinalSize) \<and> (\<forall>i<length out. (i, out ! i) \<in> carried ops) \<and>
    sum_list (map (\<lambda>b. rb_len (snd b)) (rv_data r)) + length out \<le> max_data"
proof -
  note l = recv_run_held [OF rv_new_live subset_refl assms]
  have r: "live (carried ops) r" "rv_off r = length out" "fc_max_data (rv_flow r) = max_data"
    using l unfolding rv_new_offs add_0 by blast+
  have "sum_list (map (\<lambda>b. rb_len (snd b)) (rv_data r)) \<le> rv_len r - rv_off r"
    using r(1) by (intro buffered_bounded) (auto simp: live_def rv_inv_def)
  moreover have "rv_off r \<le> rv_len r" "rv_len r \<le> max_data" using r(1,3) by (auto simp: live_def rv_inv_def)
  ultimately have "sum_list (map (\<lambda>b. rb_len (snd b)) (rv_data r)) + length out \<le> max_data" using r(2) by simp
  moreover have "\<forall>i<length out. (i, out ! i) \<in> carried ops" using l unfolding rv_new_offs held_def add_0 by blast
  ultimately show ?thesis using l by blast
qed

theorem stream_hostile_peer_witness:
  "\<exists>r out e. recv_run [Chunk [7] 0 False, Chunk [8] 200 False, Read 9] (rv_new 100 50 80) = (r, out, e) \<and>
    (e = Ok () \<or> e = Err FlowControl \<or> e = Err FinalSize) \<and>
    (\<forall>i<length out. (i, out ! i) \<in> carried [Chunk [7] 0 False, Chunk [8] 200 False, Read 9]) \<and>
    sum_list (map (\<lambda>b. rb_len (snd b)) (rv_data r)) + length out \<le> 100"
proof -
  obtain r out e where run: "recv_run [Chunk [7] 0 False, Chunk [8] 200 False, Read 9] (rv_new 100 50 80) = (r, out, e)"
    by (rule prod_cases3)
  from stream_hostile_peer [OF run] run show ?thesis by blast
qed

text \<open>C10.  The flow-control limit is safe: after any frames and reads, asking whether to raise it does not
  panic (what was consumed never passes it), and when it is raised it strictly grows.
\<close>

theorem stream_limit_grows:
  assumes "recv_run ops (rv_new max_data window max_window) = (r, out, e)"
  shows "rv_almost_full r = Ok False \<or>
    rv_almost_full r = Ok True \<and> fc_max_data (rv_flow r) < fc_max_data (update_max_data now (rv_flow r))"
proof -
  have "live (carried ops) r" using recv_run_held [OF rv_new_live subset_refl assms] by blast
  with almost_full_live update_live show ?thesis by (metis (full_types))
qed

theorem stream_limit_grows_witness:
  "\<exists>r out e. recv_run [Chunk [7, 8, 9] 0 False, Read 3] (rv_new 4 8 80) = (r, out, e) \<and>
    (rv_almost_full r = Ok False \<or>
     rv_almost_full r = Ok True \<and> fc_max_data (rv_flow r) < fc_max_data (update_max_data 5 (rv_flow r)))"
proof -
  obtain r out e where run: "recv_run [Chunk [7, 8, 9] 0 False, Read 3] (rv_new 4 8 80) = (r, out, e)" by (rule prod_cases3)
  from stream_limit_grows [OF run] run show ?thesis by blast
qed

text \<open>C11.  A reset is reported, unless the end of the stream was known before: after any frames and
  reads, \<open>RESET_STREAM\<close> makes the next read fail with the peer's code when no frame had marked the end,
  and leaves a stream with nothing to read (and its data gone) when one had.
\<close>

theorem reset_reported:
  assumes "recv_run ops (rv_new max_data window max_window) = (r, out, Ok ())" "rv_len r \<le> fsize" "fsize \<le> max_data"
    "rv_fin_off r = None \<or> rv_fin_off r = Some fsize"
  shows "\<exists>r' result. rv_reset code fsize r = (r', Ok result) \<and>
    snd (emit_or_discard action r') = (if rv_fin_off r = None then Err (StreamReset code) else Err Done)"
proof -
  have l: "live (carried ops) r" "fc_max_data (rv_flow r) = max_data"
    using recv_run_held [OF rv_new_live subset_refl assms(1)] unfolding rv_new_offs by blast+
  show ?thesis
  proof (cases "rv_fin_off r")
    case None
    with rv_reset_fresh [OF l(1) None assms(2), of code] assms(3) l(2) show ?thesis by (auto simp: emit_or_discard_def)
  next
    case (Some f)
    with rv_reset_known [OF l(1), of fsize code] assms(2-4) l(2) show ?thesis by (auto simp: emit_or_discard_def rv_ready_def)
  qed
qed


theorem reset_reported_witness:
  "\<exists>r out r' result. recv_run [] (rv_new 100 50 80) = (r, out, Ok ()) \<and> rv_reset 42 7 r = (r', Ok result) \<and>
    snd (emit_or_discard (Emit 9) r') = Err (StreamReset 42)"
proof -
  have "\<exists>r' result. rv_reset 42 7 (rv_new 100 50 80) = (r', Ok result) \<and>
      snd (emit_or_discard (Emit 9) r') = (if rv_fin_off (rv_new 100 50 80) = None then Err (StreamReset 42) else Err Done)"
    by (rule reset_reported [of "[]" 100 50 80 _ "[]"]) (simp_all add: rv_new_def)
  then show ?thesis by simp
qed

end
