(* ===== verification/Spec2Isabelle.thy ===== *)
theory Spec2Isabelle
  imports Masque Fragment Tls_Ech Http_Proxy Quic_Stream
begin

text \<open>
  Verification of the Aether core.
\<close>

end
